(* ===== verification/Prelude.thy ===== *)
theory Prelude
  imports Main "HOL-Library.Word"
begin

text \<open>
  The shared base of the development: the machine integers of the C sources, the
  byte memory that models the registered RDMA region and the message buffers, the
  little-endian representation of integers in it, and the lemma collections the
  component theories extend.
  \<^item> \<open>mem\<close> is a flat byte memory; \<open>put_bytes\<close> and \<open>get_bytes\<close> are \<open>memcpy\<close> into and
    out of it. A write to one range leaves every disjoint range alone.
  \<^item> \<open>word_le\<close> and \<open>le_word\<close> convert between an integer of the program and the bytes
    it occupies on the x86-64 machines the code is built for; they are inverse to each other.
  \<^item> \<open>mem_simps\<close> collects the read-over-write laws, \<open>layout_simps\<close> the sizes and
    offsets of the C structures, \<open>word_nat\<close> the laws that move from words to numbers.
\<close>

unbundle bit_operations_syntax

section \<open>Machine integers\<close>

type_synonym u8 = "8 word"
type_synonym u16 = "16 word"
type_synonym u32 = "32 word"
type_synonym u64 = "64 word"

named_theorems mem_simps \<open>reads over writes of the byte memory\<close>
named_theorems layout_simps \<open>sizes and offsets of the C structures\<close>
named_theorems word_nat \<open>values of machine words as natural numbers\<close>

section \<open>Byte memory\<close>

type_synonym mem = "nat \<Rightarrow> u8"

definition put_bytes :: "mem \<Rightarrow> nat \<Rightarrow> u8 list \<Rightarrow> mem" where
  "put_bytes m a bs = (\<lambda>x. if a \<le> x \<and> x < a + length bs then bs ! (x - a) else m x)"

definition get_bytes :: "mem \<Rightarrow> nat \<Rightarrow> nat \<Rightarrow> u8 list" where
  "get_bytes m a n = map m [a..<a + n]"

section \<open>Integers in memory, least significant byte first\<close>

fun word_le :: "nat \<Rightarrow> 'a::len word \<Rightarrow> u8 list" where
  "word_le 0 w = []"
| "word_le (Suc n) w = ucast w # word_le n (drop_bit 8 w)"

fun le_word :: "u8 list \<Rightarrow> 'a::len word" where
  "le_word [] = 0"
| "le_word (b # bs) = ucast b OR push_bit 8 (le_word bs)"

definition put_u8 :: "mem \<Rightarrow> nat \<Rightarrow> u8 \<Rightarrow> mem" where
  "put_u8 m a w = put_bytes m a [w]"

definition put_u16 :: "mem \<Rightarrow> nat \<Rightarrow> u16 \<Rightarrow> mem" where
  "put_u16 m a w = put_bytes m a (word_le 2 w)"

definition put_u32 :: "mem \<Rightarrow> nat \<Rightarrow> u32 \<Rightarrow> mem" where
  "put_u32 m a w = put_bytes m a (word_le 4 w)"

definition put_u64 :: "mem \<Rightarrow> nat \<Rightarrow> u64 \<Rightarrow> mem" where
  "put_u64 m a w = put_bytes m a (word_le 8 w)"

definition get_u8 :: "mem \<Rightarrow> nat \<Rightarrow> u8" where
  "get_u8 m a = m a"

definition get_u16 :: "mem \<Rightarrow> nat \<Rightarrow> u16" where
  "get_u16 m a = le_word (get_bytes m a 2)"

definition get_u32 :: "mem \<Rightarrow> nat \<Rightarrow> u32" where
  "get_u32 m a = le_word (get_bytes m a 4)"

definition get_u64 :: "mem \<Rightarrow> nat \<Rightarrow> u64" where
  "get_u64 m a = le_word (get_bytes m a 8)"

section \<open>Laws of the byte memory\<close>

lemma length_get_bytes [simp]: "length (get_bytes m a n) = n"
  by (simp add: get_bytes_def)

lemma length_word_le [simp]: "length (word_le n w) = n"
  by (induction n w rule: word_le.induct) simp_all

lemma nth_get_bytes [simp]: "i < n \<Longrightarrow> get_bytes m a n ! i = m (a + i)"
  by (simp add: get_bytes_def)

lemma put_bytes_Nil [simp]: "put_bytes m a [] = m"
  by (rule ext) (auto simp: put_bytes_def)

lemma get_put_bytes_same [mem_simps]:
  "n = length bs \<Longrightarrow> get_bytes (put_bytes m a bs) a n = bs"
  by (rule nth_equalityI) (simp_all add: put_bytes_def)

lemma get_put_bytes_other [mem_simps]:
  "a + length bs \<le> b \<or> b + n \<le> a \<Longrightarrow> get_bytes (put_bytes m a bs) b n = get_bytes m b n"
  by (rule nth_equalityI) (auto simp: put_bytes_def)

lemma put_bytes_apply_other [mem_simps]:
  "x < a \<or> a + length bs \<le> x \<Longrightarrow> put_bytes m a bs x = m x"
  by (auto simp: put_bytes_def)

lemma get_bytes_cong:
  "(\<And>x. a \<le> x \<Longrightarrow> x < a + n \<Longrightarrow> m x = m' x) \<Longrightarrow> get_bytes m a n = get_bytes m' a n"
  by (simp add: get_bytes_def)

lemma get_bytes_eqD:
  assumes "get_bytes m a n = get_bytes m' b n" and "i < n"
  shows "m (a + i) = m' (b + i)"
  using assms nth_get_bytes [of i n m a] nth_get_bytes [of i n m' b] by simp

lemma get_bytes_sub:
  assumes "get_bytes m a n = get_bytes m' b n" and "i + k \<le> n"
  shows "get_bytes m (a + i) k = get_bytes m' (b + i) k"
proof (rule nth_equalityI)
  fix j assume "j < length (get_bytes m (a + i) k)"
  then have j: "j < k" by simp
  with assms(2) have "i + j < n" by simp
  with assms(1) have "m (a + (i + j)) = m' (b + (i + j))" by (rule get_bytes_eqD)
  with j show "get_bytes m (a + i) k ! j = get_bytes m' (b + i) k ! j"
    by (simp add: add.assoc)
qed simp

section \<open>Integer round trips\<close>

lemma bit_le_word:
  "bit (le_word bs :: 'a::len word) i \<longleftrightarrow>
     i < LENGTH('a) \<and> i < 8 * length bs \<and> bit (bs ! (i div 8)) (i mod 8)"
proof (induction bs arbitrary: i)
  case Nil
  then show ?case by simp
next
  case (Cons b bs)
  show ?case
  proof (cases "i < 8")
    case True
    then show ?thesis by (auto simp: bit_or_iff bit_push_bit_iff bit_ucast_iff)
  next
    case False
    then have "i div 8 = Suc ((i - 8) div 8)" "i mod 8 = (i - 8) mod 8"
      by (simp_all add: le_div_geq le_mod_geq)
    moreover have "\<not> bit (ucast b :: 'a word) i"
      using False bit_imp_le_length [of b i] by (auto simp: bit_ucast_iff)
    ultimately show ?thesis
      using False by (auto simp: bit_or_iff bit_push_bit_iff Cons.IH not_less)
  qed
qed

lemma bit_le_word_word_le:
  fixes w :: "'a::len word"
  shows "bit (le_word (word_le n w) :: 'a word) i \<longleftrightarrow> i < 8 * n \<and> bit w i"
proof (induction n arbitrary: w i)
  case 0
  then show ?case by simp
next
  case (Suc n)
  show ?case
  proof (cases "i < LENGTH('a)")
    case True
    then show ?thesis
      by (auto simp: bit_or_iff bit_push_bit_iff bit_ucast_iff bit_drop_bit_eq Suc.IH)
  next
    case False
    then show ?thesis using bit_imp_le_length [of w i] bit_imp_le_length by blast
  qed
qed

lemma le_word_word_le:
  fixes w :: "'a::len word"
  assumes "LENGTH('a) \<le> 8 * n"
  shows "le_word (word_le n w) = w"
proof (rule bit_word_eqI)
  fix i assume "i < LENGTH('a)"
  with assms have "i < 8 * n" by simp
  then show "bit (le_word (word_le n w) :: 'a word) i \<longleftrightarrow> bit w i"
    by (simp add: bit_le_word_word_le)
qed

lemma get_put_u8 [mem_simps]: "get_u8 (put_u8 m a w) a = w"
  by (simp add: get_u8_def put_u8_def put_bytes_def)

lemma get_put_u16 [mem_simps]: "get_u16 (put_u16 m a w) a = w"
  by (simp add: get_u16_def put_u16_def get_put_bytes_same le_word_word_le)

lemma get_put_u32 [mem_simps]: "get_u32 (put_u32 m a w) a = w"
  by (simp add: get_u32_def put_u32_def get_put_bytes_same le_word_word_le)

lemma get_put_u64 [mem_simps]: "get_u64 (put_u64 m a w) a = w"
  by (simp add: get_u64_def put_u64_def get_put_bytes_same le_word_word_le)

lemmas get_defs = get_u8_def get_u16_def get_u32_def get_u64_def
lemmas put_defs = put_u8_def put_u16_def put_u32_def put_u64_def

lemma put_bytes_single_other: "b \<noteq> a \<Longrightarrow> put_bytes m a [v] b = m b"
  by (rule put_bytes_apply_other) auto

lemma get_put_other [mem_simps]:
  "b \<noteq> a \<Longrightarrow> get_u8 (put_u8 m a v8) b = get_u8 m b"
  "b < a \<or> a + 2 \<le> b \<Longrightarrow> get_u8 (put_u16 m a v16) b = get_u8 m b"
  "b < a \<or> a + 4 \<le> b \<Longrightarrow> get_u8 (put_u32 m a v32) b = get_u8 m b"
  "b < a \<or> a + 8 \<le> b \<Longrightarrow> get_u8 (put_u64 m a v64) b = get_u8 m b"
  "b + 2 \<le> a \<or> a < b \<Longrightarrow> get_u16 (put_u8 m a v8) b = get_u16 m b"
  "b + 2 \<le> a \<or> a + 2 \<le> b \<Longrightarrow> get_u16 (put_u16 m a v16) b = get_u16 m b"
  "b + 2 \<le> a \<or> a + 4 \<le> b \<Longrightarrow> get_u16 (put_u32 m a v32) b = get_u16 m b"
  "b + 2 \<le> a \<or> a + 8 \<le> b \<Longrightarrow> get_u16 (put_u64 m a v64) b = get_u16 m b"
  "b + 4 \<le> a \<or> a < b \<Longrightarrow> get_u32 (put_u8 m a v8) b = get_u32 m b"
  "b + 4 \<le> a \<or> a + 2 \<le> b \<Longrightarrow> get_u32 (put_u16 m a v16) b = get_u32 m b"
  "b + 4 \<le> a \<or> a + 4 \<le> b \<Longrightarrow> get_u32 (put_u32 m a v32) b = get_u32 m b"
  "b + 4 \<le> a \<or> a + 8 \<le> b \<Longrightarrow> get_u32 (put_u64 m a v64) b = get_u32 m b"
  "b + 8 \<le> a \<or> a < b \<Longrightarrow> get_u64 (put_u8 m a v8) b = get_u64 m b"
  "b + 8 \<le> a \<or> a + 2 \<le> b \<Longrightarrow> get_u64 (put_u16 m a v16) b = get_u64 m b"
  "b + 8 \<le> a \<or> a + 4 \<le> b \<Longrightarrow> get_u64 (put_u32 m a v32) b = get_u64 m b"
  "b + 8 \<le> a \<or> a + 8 \<le> b \<Longrightarrow> get_u64 (put_u64 m a v64) b = get_u64 m b"
  by (auto simp: get_defs put_defs get_put_bytes_other put_bytes_apply_other put_bytes_single_other)

lemma get_put_bytes_word_other [mem_simps]:
  "b < a \<or> a + length bs \<le> b \<Longrightarrow> get_u8 (put_bytes m a bs) b = get_u8 m b"
  "b + 2 \<le> a \<or> a + length bs \<le> b \<Longrightarrow> get_u16 (put_bytes m a bs) b = get_u16 m b"
  "b + 4 \<le> a \<or> a + length bs \<le> b \<Longrightarrow> get_u32 (put_bytes m a bs) b = get_u32 m b"
  "b + 8 \<le> a \<or> a + length bs \<le> b \<Longrightarrow> get_u64 (put_bytes m a bs) b = get_u64 m b"
  by (auto simp: get_defs get_put_bytes_other put_bytes_apply_other)

lemma get_bytes_put_other [mem_simps]:
  "b + n \<le> a \<or> a < b \<Longrightarrow> get_bytes (put_u8 m a v8) b n = get_bytes m b n"
  "b + n \<le> a \<or> a + 2 \<le> b \<Longrightarrow> get_bytes (put_u16 m a v16) b n = get_bytes m b n"
  "b + n \<le> a \<or> a + 4 \<le> b \<Longrightarrow> get_bytes (put_u32 m a v32) b n = get_bytes m b n"
  "b + n \<le> a \<or> a + 8 \<le> b \<Longrightarrow> get_bytes (put_u64 m a v64) b n = get_bytes m b n"
  by (auto simp: put_defs get_put_bytes_other)

section \<open>Numbers\<close>

lemma unat_u32_lt [word_nat]: "unat (w :: u32) < 4294967296"
  using unsigned_less [of w] by simp

lemma unat_u64_lt [word_nat]: "unat (w :: u64) < 18446744073709551616"
  using unsigned_less [of w] by simp

lemma unat_u8_lt [word_nat]: "unat (w :: u8) < 256"
  using unsigned_less [of w] by simp

lemma unat_ucast_u32_u64 [word_nat]: "unat (ucast (w :: u32) :: u64) = unat w"
  using unat_u32_lt [of w] by (simp add: unsigned_ucast_eq take_bit_nat_eq_self_iff)

lemma unat_ucast_u8_u64 [word_nat]: "unat (ucast (w :: u8) :: u64) = unat w"
  using unat_u8_lt [of w] by (simp add: unsigned_ucast_eq take_bit_nat_eq_self_iff)

lemma unat_ucast_u8_u32 [word_nat]: "unat (ucast (w :: u8) :: u32) = unat w"
  using unat_u8_lt [of w] by (simp add: unsigned_ucast_eq take_bit_nat_eq_self_iff)

end
