(* ===== verification/View_Stamp.thy ===== *)
theory View_Stamp
  imports Prelude
begin

text \<open>
  View stamps, the request numbers of the protocol (\<open>util/common-structure.c\<close> and its
  header): the stamp itself, its three-way comparison, and its packing into the 64-bit
  keys under which requests are stored in the database. The packing is a bijection and
  carries the comparison of stamps to the comparison of keys, so the keys the accept loop
  walks through one by one are the stamps in protocol order.
\<close>

section \<open>Model\<close>

record view_stamp =
  view_id :: u32
  req_id :: u32

record view =
  cv_view_id :: u32
  leader_id :: u32
  cv_req_id :: u32

definition view_stamp_comp :: "view_stamp \<Rightarrow> view_stamp \<Rightarrow> int" where
  "view_stamp_comp op1 op2 =
     (if view_id op1 < view_id op2 then -1
      else if view_id op1 > view_id op2 then 1
      else if req_id op1 > req_id op2 then 1
      else if req_id op1 < req_id op2 then -1
      else 0)"

definition vstol :: "view_stamp \<Rightarrow> u64" where
  "vstol vs =
     (let result = ucast (req_id vs) AND 0xFFFFFFFF;
          temp = ucast (view_id vs) AND 0xFFFFFFFF
      in result + push_bit 32 temp)"

definition ltovs :: "u64 \<Rightarrow> view_stamp" where
  "ltovs record_no =
     (let temp = record_no AND 0xFFFFFFFF
      in \<lparr>view_id = ucast (drop_bit 32 record_no AND 0xFFFFFFFF), req_id = ucast temp\<rparr>)"

section \<open>The order of view stamps\<close>

text \<open>
  Stamps are ordered by view first and by request second. The instance orders the whole
  record scheme; the extension slot of a plain stamp is the one-element type.
\<close>

instantiation view_stamp_ext :: (linorder) linorder
begin

definition less_eq_view_stamp_ext :: "'a view_stamp_ext \<Rightarrow> 'a view_stamp_ext \<Rightarrow> bool" where
  "less_eq_view_stamp_ext a b \<longleftrightarrow>
     view_id a < view_id b \<or> view_id a = view_id b \<and>
       (req_id a < req_id b \<or> req_id a = req_id b \<and> view_stamp.more a \<le> view_stamp.more b)"

definition less_view_stamp_ext :: "'a view_stamp_ext \<Rightarrow> 'a view_stamp_ext \<Rightarrow> bool" where
  "less_view_stamp_ext a b \<longleftrightarrow> a \<le> b \<and> \<not> b \<le> a"

instance
  by standard
    (auto simp: less_eq_view_stamp_ext_def less_view_stamp_ext_def intro: view_stamp.equality)

end

lemma view_stamp_less_iff:
  "(a :: view_stamp) < b \<longleftrightarrow> view_id a < view_id b \<or> view_id a = view_id b \<and> req_id a < req_id b"
  by (auto simp: less_eq_view_stamp_ext_def less_view_stamp_ext_def)

lemma view_stamp_comp_pos_iff: "view_stamp_comp a b > 0 \<longleftrightarrow> b < a"
  by (auto simp: view_stamp_comp_def view_stamp_less_iff)

lemma view_stamp_comp_neg_iff: "view_stamp_comp a b < 0 \<longleftrightarrow> a < b"
  by (auto simp: view_stamp_comp_def view_stamp_less_iff)

lemma view_stamp_comp_zero_iff: "view_stamp_comp a b = 0 \<longleftrightarrow> a = b"
  by (auto simp: view_stamp_comp_def)

section \<open>Keys\<close>

lemma unat_mask32_u64: "unat ((w :: u64) AND 0xFFFFFFFF) = unat w mod 4294967296"
proof -
  have "(0xFFFFFFFF :: u64) = mask 32" by (simp add: mask_eq_exp_minus_1)
  then have "w AND 0xFFFFFFFF = take_bit 32 w" by (simp add: take_bit_eq_mask)
  then show ?thesis by (simp add: take_bit_eq_mod unat_mod_distrib)
qed

lemma unat_vstol: "unat (vstol vs) = unat (req_id vs) + 4294967296 * unat (view_id vs)"
proof -
  have r: "unat (ucast (req_id vs) AND 0xFFFFFFFF :: u64) = unat (req_id vs)"
    using unat_u32_lt [of "req_id vs"] by (simp add: unat_mask32_u64 word_nat)
  have v: "unat (ucast (view_id vs) AND 0xFFFFFFFF :: u64) = unat (view_id vs)"
    using unat_u32_lt [of "view_id vs"] by (simp add: unat_mask32_u64 word_nat)
  have p: "unat (push_bit 32 (ucast (view_id vs) AND 0xFFFFFFFF :: u64))
      = 4294967296 * unat (view_id vs)"
    using v unat_u32_lt [of "view_id vs"]
    by (simp add: push_bit_eq_mult unat_word_ariths)
  show ?thesis
    using r p unat_u32_lt [of "req_id vs"] unat_u32_lt [of "view_id vs"]
    by (simp add: vstol_def Let_def unat_word_ariths)
qed

lemma unat_ltovs:
  "unat (req_id (ltovs n)) = unat n mod 4294967296"
  "unat (view_id (ltovs n)) = unat n div 4294967296"
proof -
  show "unat (req_id (ltovs n)) = unat n mod 4294967296"
    by (simp add: ltovs_def Let_def unsigned_ucast_eq unat_mask32_u64 take_bit_eq_mod)
  have "unat n div 4294967296 < 4294967296"
    using unat_u64_lt [of n] by (simp add: div_less_iff_less_mult)
  then show "unat (view_id (ltovs n)) = unat n div 4294967296"
    by (simp add: ltovs_def Let_def unsigned_ucast_eq unat_mask32_u64 take_bit_eq_mod
        drop_bit_eq_div unat_div_distrib)
qed

lemma vstol_less_iff: "vstol a < vstol b \<longleftrightarrow> a < b"
  using unat_u32_lt [of "req_id a"] unat_u32_lt [of "req_id b"]
    unat_u32_lt [of "view_id a"] unat_u32_lt [of "view_id b"]
  by (auto simp: word_less_nat_alt unat_vstol view_stamp_less_iff word_unat_eq_iff)

lemma vstol_inject: "vstol a = vstol b \<longleftrightarrow> a = b"
  using vstol_less_iff [of a b] vstol_less_iff [of b a] by (metis linorder_neqE less_irrefl)

lemma vstol_le_iff: "vstol a \<le> vstol b \<longleftrightarrow> a \<le> b"
  using vstol_less_iff [of b a] by (metis linorder_not_le)

lemma vstol_next:
  assumes "req_id vs \<noteq> 0xFFFFFFFF"
  shows "vstol (vs\<lparr>req_id := req_id vs + 1\<rparr>) = vstol vs + 1"
proof -
  have "unat (req_id vs) \<noteq> unat (0xFFFFFFFF :: u32)"
    using assms by (metis word_unat_eq_iff)
  then have "unat (req_id vs) + 1 < 4294967296"
    using unat_u32_lt [of "req_id vs"] by simp
  then show ?thesis
    using unat_u32_lt [of "view_id vs"]
    by (simp add: word_unat_eq_iff unat_vstol unat_word_ariths)
qed

text \<open>
  C30: packing a view stamp into a database key and unpacking it again is lossless in
  both directions: every stamp survives, and every 64-bit key is the key of exactly one stamp.\<close>

theorem vstol_ltovs_inverse:
  "ltovs (vstol vs) = vs \<and> vstol (ltovs n) = n"
proof
  show "ltovs (vstol vs) = vs"
    using unat_u32_lt [of "req_id vs"] unat_u32_lt [of "view_id vs"]
    by (intro view_stamp.equality) (simp_all add: word_unat_eq_iff unat_ltovs unat_vstol)
  show "vstol (ltovs n) = n"
    by (simp add: word_unat_eq_iff unat_ltovs unat_vstol)
qed

text \<open>
  C31: comparing two stamps with \<open>view_stamp_comp\<close> gives the sign of the difference of
  their database keys, so walking the keys upwards visits the stamps in protocol order.\<close>

theorem view_stamp_comp_vstol:
  "view_stamp_comp a b = sgn (uint (vstol a) - uint (vstol b))"
proof -
  have "view_stamp_comp a b = (if a < b then -1 else if a = b then 0 else 1)"
    by (auto simp: view_stamp_comp_def view_stamp_less_iff)
  then show ?thesis
    using vstol_less_iff [of a b] vstol_less_iff [of b a] vstol_inject [of a b]
    by (auto simp: word_less_def sgn_if)
qed

end
