(* ===== verification/Adlist.thy ===== *)
theory Adlist
  imports Prelude "HOL-Library.Monad_Syntax"
begin

text \<open>
  The doubly linked list of \<open>output/adlist.c\<close> on an explicit heap. A pointer is a number, the
  null pointer is 0. The heap holds the list nodes, the next address \<open>malloc\<close> hands out, how
  many more allocations succeed (an allocation returns \<open>NULL\<close> once it is 0), and the values
  that were passed to the list's \<open>free\<close> method. Every operation is in the option type: \<open>None\<close>
  is the access through a null or dangling pointer, or a traversal that does not end.

  \<open>dseg\<close> and \<open>dll\<close> relate a list header and the heap to the sequence of nodes; the lemmas show
  that each operation has the expected effect on that sequence, never faults on a well-formed
  list, and leaves every other node of the heap alone.
\<close>

section \<open>Heap\<close>

type_synonym ptr = nat

record 'v listNode =
  n_prev :: ptr
  n_next :: ptr
  n_value :: 'v

record 'v heap =
  cells :: "ptr \<rightharpoonup> 'v listNode"
  brk :: ptr
  avail :: nat
  released :: "'v list"

text \<open>The list header: \<open>dup\<close> and \<open>match\<close> are optional methods, \<open>free\<close> is recorded as set or not.\<close>

record ('v, 'k) alist =
  l_head :: ptr
  l_tail :: ptr
  l_dup :: "('v \<Rightarrow> 'v option) option"
  l_free :: bool
  l_match :: "('v \<Rightarrow> 'k \<Rightarrow> bool) option"
  l_len :: u64

record listIter =
  it_next :: ptr
  it_direction :: int

definition AL_START_HEAD :: int where "AL_START_HEAD = 0"
definition AL_START_TAIL :: int where "AL_START_TAIL = 1"

definition alloc_node :: "'v heap \<Rightarrow> 'v \<Rightarrow> ('v heap \<times> ptr)" where
  "alloc_node h v =
     (if avail h = 0 then (h, 0)
      else (h\<lparr>cells := (cells h)(brk h \<mapsto> \<lparr>n_prev = 0, n_next = 0, n_value = v\<rparr>),
              brk := Suc (brk h), avail := avail h - 1\<rparr>, brk h))"

definition alloc_hdr :: "'v heap \<Rightarrow> ('v heap \<times> ptr)" where
  "alloc_hdr h =
     (if avail h = 0 then (h, 0) else (h\<lparr>brk := Suc (brk h), avail := avail h - 1\<rparr>, brk h))"

definition zfree :: "'v heap \<Rightarrow> ptr \<Rightarrow> 'v heap" where
  "zfree h p = h\<lparr>cells := (cells h)(p := None)\<rparr>"

definition set_prev :: "'v heap \<Rightarrow> ptr \<Rightarrow> ptr \<Rightarrow> 'v heap option" where
  "set_prev h p q = (case cells h p of None \<Rightarrow> None
     | Some n \<Rightarrow> Some (h\<lparr>cells := (cells h)(p \<mapsto> n\<lparr>n_prev := q\<rparr>)\<rparr>))"

definition set_next :: "'v heap \<Rightarrow> ptr \<Rightarrow> ptr \<Rightarrow> 'v heap option" where
  "set_next h p q = (case cells h p of None \<Rightarrow> None
     | Some n \<Rightarrow> Some (h\<lparr>cells := (cells h)(p \<mapsto> n\<lparr>n_next := q\<rparr>)\<rparr>))"

definition call_free :: "('v, 'k) alist \<Rightarrow> 'v heap \<Rightarrow> 'v \<Rightarrow> 'v heap" where
  "call_free l h v = (if l_free l then h\<lparr>released := released h @ [v]\<rparr> else h)"

section \<open>Operations\<close>

definition listCreate :: "'v heap \<Rightarrow> 'v heap \<times> ('v, 'k) alist option" where
  "listCreate h =
     (case alloc_hdr h of (h', p) \<Rightarrow>
        if p = 0 then (h', None)
        else (h', Some \<lparr>l_head = 0, l_tail = 0, l_dup = None, l_free = False,
                         l_match = None, l_len = 0\<rparr>))"

fun listRelease_loop :: "('v, 'k) alist \<Rightarrow> nat \<Rightarrow> 'v heap \<Rightarrow> ptr \<Rightarrow> 'v heap option" where
  "listRelease_loop l 0 h current = Some h"
| "listRelease_loop l (Suc len) h current = do {
     n \<leftarrow> cells h current;
     let h1 = call_free l h (n_value n);
     let h2 = zfree h1 current;
     listRelease_loop l len h2 (n_next n)
   }"

definition listRelease :: "'v heap \<Rightarrow> ('v, 'k) alist \<Rightarrow> 'v heap option" where
  "listRelease h l = listRelease_loop l (unat (l_len l)) h (l_head l)"

definition listAddNodeHead ::
    "'v heap \<Rightarrow> ('v, 'k) alist \<Rightarrow> 'v \<Rightarrow> ('v heap \<times> ('v, 'k) alist \<times> bool) option" where
  "listAddNodeHead h l v =
     (case alloc_node h v of (h0, node) \<Rightarrow>
        if node = 0 then Some (h0, l, False)
        else if l_len l = 0 then do {
          h1 \<leftarrow> set_prev h0 node 0;
          h2 \<leftarrow> set_next h1 node 0;
          Some (h2, l\<lparr>l_head := node, l_tail := node, l_len := l_len l + 1\<rparr>, True)
        } else do {
          h1 \<leftarrow> set_prev h0 node 0;
          h2 \<leftarrow> set_next h1 node (l_head l);
          h3 \<leftarrow> set_prev h2 (l_head l) node;
          Some (h3, l\<lparr>l_head := node, l_len := l_len l + 1\<rparr>, True)
        })"

definition listAddNodeTail ::
    "'v heap \<Rightarrow> ('v, 'k) alist \<Rightarrow> 'v \<Rightarrow> ('v heap \<times> ('v, 'k) alist \<times> bool) option" where
  "listAddNodeTail h l v =
     (case alloc_node h v of (h0, node) \<Rightarrow>
        if node = 0 then Some (h0, l, False)
        else if l_len l = 0 then do {
          h1 \<leftarrow> set_prev h0 node 0;
          h2 \<leftarrow> set_next h1 node 0;
          Some (h2, l\<lparr>l_head := node, l_tail := node, l_len := l_len l + 1\<rparr>, True)
        } else do {
          h1 \<leftarrow> set_prev h0 node (l_tail l);
          h2 \<leftarrow> set_next h1 node 0;
          h3 \<leftarrow> set_next h2 (l_tail l) node;
          Some (h3, l\<lparr>l_tail := node, l_len := l_len l + 1\<rparr>, True)
        })"

definition listInsertNode ::
    "'v heap \<Rightarrow> ('v, 'k) alist \<Rightarrow> ptr \<Rightarrow> 'v \<Rightarrow> bool \<Rightarrow> ('v heap \<times> ('v, 'k) alist \<times> bool) option" where
  "listInsertNode h l old_node v after =
     (case alloc_node h v of (h0, node) \<Rightarrow>
        if node = 0 then Some (h0, l, False)
        else do {
          old \<leftarrow> cells h0 old_node;
          let prv = (if after then old_node else n_prev old);
          let nxt = (if after then n_next old else old_node);
          h1 \<leftarrow> set_prev h0 node prv;
          h2 \<leftarrow> set_next h1 node nxt;
          let l1 = (if after
                    then (if l_tail l = old_node then l\<lparr>l_tail := node\<rparr> else l)
                    else (if l_head l = old_node then l\<lparr>l_head := node\<rparr> else l));
          h3 \<leftarrow> (if prv \<noteq> 0 then set_next h2 prv node else Some h2);
          h4 \<leftarrow> (if nxt \<noteq> 0 then set_prev h3 nxt node else Some h3);
          Some (h4, l1\<lparr>l_len := l_len l1 + 1\<rparr>, True)
        })"

definition listDelNode :: "'v heap \<Rightarrow> ('v, 'k) alist \<Rightarrow> ptr \<Rightarrow> ('v heap \<times> ('v, 'k) alist) option" where
  "listDelNode h l node = do {
     n \<leftarrow> cells h node;
     h1 \<leftarrow> (if n_prev n \<noteq> 0 then set_next h (n_prev n) (n_next n) else Some h);
     let l1 = (if n_prev n \<noteq> 0 then l else l\<lparr>l_head := n_next n\<rparr>);
     h2 \<leftarrow> (if n_next n \<noteq> 0 then set_prev h1 (n_next n) (n_prev n) else Some h1);
     let l2 = (if n_next n \<noteq> 0 then l1 else l1\<lparr>l_tail := n_prev n\<rparr>);
     let h3 = call_free l2 h2 (n_value n);
     Some (zfree h3 node, l2\<lparr>l_len := l_len l2 - 1\<rparr>)
   }"

text \<open>The iterator is a small struct of its own; obtaining one on the heap may fail.\<close>

definition listGetIterator :: "'v heap \<Rightarrow> ('v, 'k) alist \<Rightarrow> int \<Rightarrow> 'v heap \<times> listIter option" where
  "listGetIterator h l direction =
     (case alloc_hdr h of (h', p) \<Rightarrow>
        if p = 0 then (h', None)
        else (h', Some \<lparr>it_next = (if direction = AL_START_HEAD then l_head l else l_tail l),
                         it_direction = direction\<rparr>))"

definition listRewind :: "('v, 'k) alist \<Rightarrow> listIter" where
  "listRewind l = \<lparr>it_next = l_head l, it_direction = AL_START_HEAD\<rparr>"

definition listRewindTail :: "('v, 'k) alist \<Rightarrow> listIter" where
  "listRewindTail l = \<lparr>it_next = l_tail l, it_direction = AL_START_TAIL\<rparr>"

definition listNext :: "'v heap \<Rightarrow> listIter \<Rightarrow> (listIter \<times> ptr) option" where
  "listNext h iter =
     (let current = it_next iter
      in if current = 0 then Some (iter, 0)
         else do {
           n \<leftarrow> cells h current;
           Some (iter\<lparr>it_next := (if it_direction iter = AL_START_HEAD then n_next n else n_prev n)\<rparr>,
                 current)
         })"

text \<open>
  \<open>listDup\<close> walks the original and appends each (possibly duplicated) value to the copy. When
  the duplication or an allocation fails, the copy is released and \<open>NULL\<close> is returned.
\<close>

partial_function (option) listDup_loop ::
    "'v heap \<Rightarrow> listIter \<Rightarrow> ('v, 'k) alist \<Rightarrow> ('v heap \<times> ('v, 'k) alist option) option" where
  "listDup_loop h iter copy = do {
     (iter', node) \<leftarrow> listNext h iter;
     if node = 0 then Some (h, Some copy)
     else do {
       n \<leftarrow> cells h node;
       (case (case l_dup copy of None \<Rightarrow> Some (n_value n) | Some dup \<Rightarrow> dup (n_value n)) of
          None \<Rightarrow> do { h' \<leftarrow> listRelease h copy; Some (h', None) }
        | Some v \<Rightarrow> do {
            (h', copy', ok) \<leftarrow> listAddNodeTail h copy v;
            (if ok then listDup_loop h' iter' copy'
             else do { h'' \<leftarrow> listRelease h' copy'; Some (h'', None) })
          })
     }
   }"

definition listDup ::
    "'v heap \<Rightarrow> ('v, 'k) alist \<Rightarrow> ('v heap \<times> ('v, 'k) alist option) option" where
  "listDup h orig =
     (case listCreate h of
        (h', None) \<Rightarrow> Some (h', None)
      | (h', Some copy) \<Rightarrow>
          (case listGetIterator h' orig AL_START_HEAD of
             (h'', None) \<Rightarrow> None
           | (h'', Some iter) \<Rightarrow>
               listDup_loop h'' iter
                 (copy\<lparr>l_dup := l_dup orig, l_free := l_free orig, l_match := l_match orig\<rparr>)))"

text \<open>
  \<open>listSearchKey\<close>: \<open>same\<close> is the comparison of the key pointer with a value pointer, used when
  the list has no match method.
\<close>

partial_function (option) listSearchKey_loop ::
    "('v \<Rightarrow> 'k \<Rightarrow> bool) \<Rightarrow> 'v heap \<Rightarrow> ('v, 'k) alist \<Rightarrow> listIter \<Rightarrow> 'k \<Rightarrow> ptr option" where
  "listSearchKey_loop same h l iter key = do {
     (iter', node) \<leftarrow> listNext h iter;
     if node = 0 then Some 0
     else do {
       n \<leftarrow> cells h node;
       (if (case l_match l of Some m \<Rightarrow> m (n_value n) key | None \<Rightarrow> same (n_value n) key)
        then Some node
        else listSearchKey_loop same h l iter' key)
     }
   }"

definition listSearchKey ::
    "('v \<Rightarrow> 'k \<Rightarrow> bool) \<Rightarrow> 'v heap \<Rightarrow> ('v, 'k) alist \<Rightarrow> 'k \<Rightarrow> ('v heap \<times> ptr) option" where
  "listSearchKey same h l key =
     (case listGetIterator h l AL_START_HEAD of
        (h', None) \<Rightarrow> None
      | (h', Some iter) \<Rightarrow> do { p \<leftarrow> listSearchKey_loop same h' l iter key; Some (h', p) })"

fun listIndex_loop :: "'v heap \<Rightarrow> bool \<Rightarrow> nat \<Rightarrow> ptr \<Rightarrow> ptr option" where
  "listIndex_loop h back 0 n = Some n"
| "listIndex_loop h back (Suc index) n =
     (if n = 0 then Some 0
      else do { c \<leftarrow> cells h n; listIndex_loop h back index (if back then n_prev c else n_next c) })"

definition listIndex :: "'v heap \<Rightarrow> ('v, 'k) alist \<Rightarrow> int \<Rightarrow> ptr option" where
  "listIndex h l index =
     (if index < 0 then listIndex_loop h True (nat ((- index) - 1)) (l_tail l)
      else listIndex_loop h False (nat index) (l_head l))"

definition listRotate :: "'v heap \<Rightarrow> ('v, 'k) alist \<Rightarrow> ('v heap \<times> ('v, 'k) alist) option" where
  "listRotate h l =
     (let tail = l_tail l
      in if l_len l \<le> 1 then Some (h, l)
         else do {
           t \<leftarrow> cells h tail;
           let l1 = l\<lparr>l_tail := n_prev t\<rparr>;
           h1 \<leftarrow> set_next h (l_tail l1) 0;
           h2 \<leftarrow> set_prev h1 (l_head l1) tail;
           h3 \<leftarrow> set_prev h2 tail 0;
           h4 \<leftarrow> set_next h3 tail (l_head l1);
           Some (h4, l1\<lparr>l_head := tail\<rparr>)
         })"

section \<open>Well-formed lists\<close>

text \<open>
  \<open>dseg c b xs n\<close>: the nodes \<open>xs\<close> (address and value) form a doubly linked segment whose first
  node points back to \<open>b\<close> and whose last node points on to \<open>n\<close>.
\<close>

fun first_ptr :: "(ptr \<times> 'v) list \<Rightarrow> ptr \<Rightarrow> ptr" where
  "first_ptr [] n = n"
| "first_ptr (x # xs) n = fst x"

fun last_ptr :: "ptr \<Rightarrow> (ptr \<times> 'v) list \<Rightarrow> ptr" where
  "last_ptr b [] = b"
| "last_ptr b (x # xs) = last_ptr (fst x) xs"

fun dseg :: "(ptr \<rightharpoonup> 'v listNode) \<Rightarrow> ptr \<Rightarrow> (ptr \<times> 'v) list \<Rightarrow> ptr \<Rightarrow> bool" where
  "dseg c b [] n \<longleftrightarrow> True"
| "dseg c b ((p, v) # xs) n \<longleftrightarrow>
     p \<noteq> 0 \<and> c p = Some \<lparr>n_prev = b, n_next = first_ptr xs n, n_value = v\<rparr> \<and> dseg c p xs n"

definition ptrs :: "(ptr \<times> 'v) list \<Rightarrow> ptr set" where
  "ptrs xs = fst ` set xs"

definition heap_ok :: "'v heap \<Rightarrow> bool" where
  "heap_ok h \<longleftrightarrow> 0 < brk h \<and> (\<forall>p n. cells h p = Some n \<longrightarrow> 0 < p) \<and>
     (\<forall>p n. cells h p = Some n \<longrightarrow> p < brk h)"

definition dll :: "'v heap \<Rightarrow> ('v, 'k) alist \<Rightarrow> (ptr \<times> 'v) list \<Rightarrow> bool" where
  "dll h l xs \<longleftrightarrow> heap_ok h \<and> dseg (cells h) 0 xs 0 \<and> distinct (map fst xs) \<and>
     l_head l = first_ptr xs 0 \<and> l_tail l = last_ptr 0 xs \<and>
     l_len l = word_of_nat (length xs) \<and> length xs < 2 ^ 64"

lemma ptrs_simps [simp]:
  "ptrs [] = {}" "ptrs (x # xs) = insert (fst x) (ptrs xs)" "ptrs (xs @ ys) = ptrs xs \<union> ptrs ys"
  by (auto simp: ptrs_def)

lemma first_ptr_append [simp]: "first_ptr (xs @ ys) n = first_ptr xs (first_ptr ys n)"
  by (cases xs) auto

lemma last_ptr_append [simp]: "last_ptr b (xs @ ys) = last_ptr (last_ptr b xs) ys"
  by (induction b xs rule: last_ptr.induct) auto

lemma dseg_append [simp]:
  "dseg c b (xs @ ys) n \<longleftrightarrow> dseg c b xs (first_ptr ys n) \<and> dseg c (last_ptr b xs) ys n"
  by (induction c b xs n rule: dseg.induct) auto

lemma dseg_cong:
  "(\<And>p. p \<in> ptrs xs \<Longrightarrow> c p = c' p) \<Longrightarrow> dseg c b xs n = dseg c' b xs n"
  by (induction c b xs n rule: dseg.induct) auto

lemma dseg_upd_other [simp]: "p \<notin> ptrs xs \<Longrightarrow> dseg (c(p := x)) b xs n = dseg c b xs n"
  by (rule dseg_cong) auto

lemma dseg_dom: "dseg c b xs n \<Longrightarrow> ptrs xs \<subseteq> dom c - {0}"
  by (induction c b xs n rule: dseg.induct) auto

lemma dseg_nonnull: "dseg c b xs n \<Longrightarrow> 0 \<notin> ptrs xs"
  using dseg_dom by fastforce

lemma first_ptr_in: "xs \<noteq> [] \<Longrightarrow> first_ptr xs n \<in> ptrs xs"
  by (cases xs) auto

lemma last_ptr_in: "xs \<noteq> [] \<Longrightarrow> last_ptr b xs \<in> ptrs xs"
  by (induction b xs rule: last_ptr.induct) (auto, metis last_ptr.simps(1))

text \<open>Redirecting the back pointer of the first node, and the forward pointer of the last one.\<close>

lemma dseg_set_first:
  assumes "dseg c b ((p, v) # xs) n" and "p \<notin> ptrs xs"
  shows "dseg (c(p \<mapsto> \<lparr>n_prev = b', n_next = first_ptr xs n, n_value = v\<rparr>)) b' ((p, v) # xs) n"
  using assms by auto

lemma dseg_set_last:
  assumes "dseg c b (xs @ [(p, v)]) n" and "p \<notin> ptrs xs"
  shows "dseg (c(p \<mapsto> \<lparr>n_prev = last_ptr b xs, n_next = n', n_value = v\<rparr>)) b (xs @ [(p, v)]) n'"
  using assms by auto

lemma heap_ok_upd [simp]:
  "heap_ok h \<Longrightarrow> p \<in> dom (cells h) \<Longrightarrow> heap_ok (h\<lparr>cells := (cells h)(p \<mapsto> n)\<rparr>)"
  by (auto simp: heap_ok_def)

lemma heap_ok_zfree [simp]: "heap_ok h \<Longrightarrow> heap_ok (zfree h p)"
  by (auto simp: heap_ok_def zfree_def)

lemma heap_ok_fresh: "heap_ok h \<Longrightarrow> cells h (brk h) = None"
  by (force simp: heap_ok_def)

lemma dll_fresh: "dll h l xs \<Longrightarrow> brk h \<notin> ptrs xs"
  using dseg_dom [of "cells h" 0 xs 0] by (force simp: dll_def heap_ok_def)

lemma dll_len_zero_iff: "dll h l xs \<Longrightarrow> l_len l = 0 \<longleftrightarrow> xs = []"
  by (auto simp: dll_def word_of_nat_eq_0_iff nat_dvd_not_less)

lemma unat_l_len: "dll h l xs \<Longrightarrow> unat (l_len l) = length xs"
  by (simp add: dll_def unsigned_of_nat take_bit_nat_eq_self)

lemma notin_ptrs: "(p, v) \<in> set xs \<Longrightarrow> p \<in> ptrs xs"
  by (force simp: ptrs_def)

lemma distinct_fst_ptrs [simp]: "p \<notin> fst ` set xs \<longleftrightarrow> p \<notin> ptrs xs"
  by (simp add: ptrs_def)

definition same_outside :: "ptr set \<Rightarrow> 'v heap \<Rightarrow> 'v heap \<Rightarrow> bool" where
  "same_outside A h h' \<longleftrightarrow> (\<forall>p. p \<notin> A \<longrightarrow> cells h' p = cells h p)"

section \<open>Each operation on a well-formed list\<close>

text \<open>\<open>methods_eq\<close>: the list keeps its dup, free and match methods.\<close>

definition methods_eq :: "('v, 'k) alist \<Rightarrow> ('v, 'k) alist \<Rightarrow> bool" where
  "methods_eq l l' \<longleftrightarrow> l_dup l' = l_dup l \<and> l_free l' = l_free l \<and> l_match l' = l_match l"

text \<open>What an operation that inserts one node and returns promises.\<close>

definition added :: "'v heap \<Rightarrow> ('v, 'k) alist \<Rightarrow> (ptr \<times> 'v) list \<Rightarrow> (ptr \<times> 'v) list \<Rightarrow>
    'v heap \<Rightarrow> ('v, 'k) alist \<Rightarrow> bool" where
  "added h l xs xs' h' l' \<longleftrightarrow>
     dll h' l' xs' \<and> same_outside (insert (brk h) (ptrs xs)) h h' \<and> brk h' = Suc (brk h) \<and>
     avail h' = avail h - 1 \<and> released h' = released h \<and> methods_eq l l'"

lemmas heap_op_defs = alloc_node_def set_prev_def set_next_def zfree_def call_free_def Let_def

lemmas added_defs = added_def dll_def same_outside_def methods_eq_def heap_ok_def

lemma of_nat_len_Suc: "word_of_nat (length xs) + 1 = (word_of_nat (Suc (length xs)) :: u64)"
  by simp

lemma add_fail:
  assumes "avail h = 0"
  shows "listAddNodeHead h l v = Some (h, l, False)"
    and "listAddNodeTail h l v = Some (h, l, False)"
    and "listInsertNode h l p v after = Some (h, l, False)"
  using assms
  by (simp_all add: listAddNodeHead_def listAddNodeTail_def listInsertNode_def alloc_node_def)

lemma listAddNodeTail_ok:
  assumes wf: "dll h l xs" and av: "0 < avail h" and lt: "Suc (length xs) < 2 ^ 64"
  shows "\<exists>h' l'. listAddNodeTail h l v = Some (h', l', True) \<and>
    added h l xs (xs @ [(brk h, v)]) h' l'"
proof (cases xs rule: rev_cases)
  case Nil
  have "l_len l = 0" using dll_len_zero_iff [OF wf] Nil by simp
  then show ?thesis
    using wf av Nil by (auto simp: listAddNodeTail_def heap_op_defs added_defs intro: less_SucI)
next
  case (snoc ys y)
  obtain t w where y: "y = (t, w)" by (cases y)
  have fresh: "brk h \<notin> ptrs xs" by (rule dll_fresh [OF wf])
  have "l_len l \<noteq> 0" using dll_len_zero_iff [OF wf] snoc by simp
  moreover have "brk h \<noteq> 0" "brk h \<noteq> t" using wf fresh snoc y by (auto simp: dll_def heap_ok_def)
  ultimately show ?thesis
    using wf av fresh lt snoc y
    by (auto simp: listAddNodeTail_def heap_op_defs added_defs intro: less_SucI)
qed

lemma listAddNodeHead_ok:
  assumes wf: "dll h l xs" and av: "0 < avail h" and lt: "Suc (length xs) < 2 ^ 64"
  shows "\<exists>h' l'. listAddNodeHead h l v = Some (h', l', True) \<and>
    added h l xs ((brk h, v) # xs) h' l'"
proof (cases xs)
  case Nil
  have "l_len l = 0" using dll_len_zero_iff [OF wf] Nil by simp
  then show ?thesis
    using wf av Nil by (auto simp: listAddNodeHead_def heap_op_defs added_defs intro: less_SucI)
next
  case (Cons y ys)
  obtain t w where y: "y = (t, w)" by (cases y)
  have fresh: "brk h \<notin> ptrs xs" by (rule dll_fresh [OF wf])
  have "l_len l \<noteq> 0" using dll_len_zero_iff [OF wf] Cons by simp
  moreover have "brk h \<noteq> 0" "brk h \<noteq> t" using wf fresh Cons y by (auto simp: dll_def heap_ok_def)
  ultimately show ?thesis
    using wf av fresh lt Cons y
    by (auto simp: listAddNodeHead_def heap_op_defs added_defs intro: less_SucI)
qed

text \<open>Inserting next to an existing node \<open>(p, w)\<close>, after it or before it.\<close>

lemma listInsertNode_after_ok:
  assumes wf: "dll h l (ys @ (p, w) # zs)" and av: "0 < avail h"
    and lt: "Suc (length (ys @ (p, w) # zs)) < 2 ^ 64"
  shows "\<exists>h' l'. listInsertNode h l p v True = Some (h', l', True) \<and>
    added h l (ys @ (p, w) # zs) (ys @ (p, w) # (brk h, v) # zs) h' l'"
proof -
  have fresh: "brk h \<notin> ptrs (ys @ (p, w) # zs)" by (rule dll_fresh [OF wf])
  have nn: "brk h \<noteq> 0" using wf by (auto simp: dll_def heap_ok_def)
  show ?thesis
  proof (cases zs)
    case Nil
    then show ?thesis
      using wf av fresh nn lt by (auto simp: listInsertNode_def heap_op_defs added_defs intro: less_SucI)
  next
    case (Cons z zs')
    obtain q u where z: "z = (q, u)" by (cases z)
    have "last_ptr 0 (ys @ (p, w) # zs) \<noteq> p"
      using wf Cons z last_ptr_in [of zs p] by (auto simp: dll_def)
    then show ?thesis
      using wf av fresh nn lt Cons z by (auto simp: listInsertNode_def heap_op_defs added_defs intro: less_SucI)
  qed
qed

lemma listInsertNode_before_ok:
  assumes wf: "dll h l (ys @ (p, w) # zs)" and av: "0 < avail h"
    and lt: "Suc (length (ys @ (p, w) # zs)) < 2 ^ 64"
  shows "\<exists>h' l'. listInsertNode h l p v False = Some (h', l', True) \<and>
    added h l (ys @ (p, w) # zs) (ys @ (brk h, v) # (p, w) # zs) h' l'"
proof -
  have fresh: "brk h \<notin> ptrs (ys @ (p, w) # zs)" by (rule dll_fresh [OF wf])
  have nn: "brk h \<noteq> 0" using wf by (auto simp: dll_def heap_ok_def)
  show ?thesis
  proof (cases ys rule: rev_cases)
    case Nil
    then show ?thesis
      using wf av fresh nn lt by (auto simp: listInsertNode_def heap_op_defs added_defs intro: less_SucI)
  next
    case (snoc ys' y)
    obtain q u where y: "y = (q, u)" by (cases y)
    have "first_ptr (ys @ (p, w) # zs) 0 \<noteq> p"
      using wf snoc y first_ptr_in [of ys p] by (auto simp: dll_def)
    then show ?thesis
      using wf av fresh nn lt snoc y by (auto simp: listInsertNode_def heap_op_defs added_defs intro: less_SucI)
  qed
qed

text \<open>Deleting a node hands its value to the free method and unlinks exactly that node.\<close>

definition removed :: "'v heap \<Rightarrow> ('v, 'k) alist \<Rightarrow> (ptr \<times> 'v) list \<Rightarrow> ptr \<times> 'v \<Rightarrow> (ptr \<times> 'v) list \<Rightarrow>
    'v heap \<Rightarrow> ('v, 'k) alist \<Rightarrow> bool" where
  "removed h l xs x xs' h' l' \<longleftrightarrow>
     dll h' l' xs' \<and> cells h' (fst x) = None \<and> same_outside (ptrs xs) h h' \<and>
     released h' = released h @ (if l_free l then [snd x] else []) \<and> avail h' = avail h \<and>
     brk h' = brk h \<and> methods_eq l l'"

lemmas removed_defs = removed_def dll_def same_outside_def methods_eq_def heap_ok_def

lemma of_nat_len_pred: "(word_of_nat (Suc n) :: u64) - 1 = word_of_nat n"
  by simp

lemma listDelNode_ok:
  assumes wf: "dll h l (ys @ (p, v) # zs)"
  shows "\<exists>h' l'. listDelNode h l p = Some (h', l') \<and>
    removed h l (ys @ (p, v) # zs) (p, v) (ys @ zs) h' l'"
proof (cases ys rule: rev_cases)
  case Nil
  then show ?thesis
    using wf by (cases zs) (auto simp: listDelNode_def heap_op_defs removed_defs)
next
  case (snoc ys' y)
  obtain q u where y: "y = (q, u)" by (cases y)
  show ?thesis
  proof (cases zs)
    case Nil
    then show ?thesis
      using wf snoc y by (auto simp: listDelNode_def heap_op_defs removed_defs)
  next
    case (Cons z zs')
    then show ?thesis
      using wf snoc y by (cases z) (auto simp: listDelNode_def heap_op_defs removed_defs)
  qed
qed

lemma listRotate_short: "dll h l xs \<Longrightarrow> length xs \<le> 1 \<Longrightarrow> listRotate h l = Some (h, l)"
  by (cases xs) (auto simp: listRotate_def dll_def)

lemma listRotate_ok:
  assumes wf: "dll h l (ys @ [(p, v)])" and ne: "ys \<noteq> []"
  shows "\<exists>h' l'. listRotate h l = Some (h', l') \<and> dll h' l' ((p, v) # ys) \<and>
    same_outside (ptrs (ys @ [(p, v)])) h h' \<and> methods_eq l l'"
proof -
  from ne obtain q u ys' where ys: "ys = (q, u) # ys'" by (metis list.exhaust surj_pair)
  have "1 < unat (l_len l)" using unat_l_len [OF wf] ys by simp
  then have len: "\<not> l_len l \<le> 1" by (simp add: word_le_nat_alt)
  show ?thesis
  proof (cases ys' rule: rev_cases)
    case Nil
    then show ?thesis
      using wf len ys by (auto simp: listRotate_def heap_op_defs added_defs)
  next
    case (snoc ws w)
    then show ?thesis
      using wf len ys
      by (cases w) (auto simp: listRotate_def heap_op_defs added_defs)
  qed
qed

definition all_freed :: "'v heap \<Rightarrow> ('v, 'k) alist \<Rightarrow> (ptr \<times> 'v) list \<Rightarrow> 'v heap \<Rightarrow> bool" where
  "all_freed h l xs h' \<longleftrightarrow>
     (\<forall>p. cells h' p = (if p \<in> ptrs xs then None else cells h p)) \<and>
     released h' = released h @ (if l_free l then map snd xs else []) \<and>
     avail h' = avail h \<and> brk h' = brk h"

lemma listRelease_loop_ok:
  "dseg (cells h) b xs 0 \<Longrightarrow> distinct (map fst xs) \<Longrightarrow>
     \<exists>h'. listRelease_loop l (length xs) h (first_ptr xs 0) = Some h' \<and> all_freed h l xs h'"
proof (induction xs arbitrary: h b)
  case Nil
  then show ?case by (simp add: all_freed_def)
next
  case (Cons x xs)
  obtain p v where x: "x = (p, v)" by (cases x)
  let ?h = "zfree (call_free l h v) p"
  have c: "cells ?h = (cells h)(p := None)" by (simp add: zfree_def call_free_def)
  have "dseg (cells ?h) p xs 0" using Cons.prems x c by simp
  then obtain h' where h': "listRelease_loop l (length xs) ?h (first_ptr xs 0) = Some h'"
      "all_freed ?h l xs h'"
    using Cons.IH [of ?h p] Cons.prems(2) by auto
  have "listRelease_loop l (length (x # xs)) h (first_ptr (x # xs) 0) = Some h'"
    using Cons.prems x h'(1) by simp
  moreover have "all_freed h l (x # xs) h'"
    using h'(2) x by (auto simp: all_freed_def zfree_def call_free_def)
  ultimately show ?case by blast
qed

lemma listRelease_ok:
  "dll h l xs \<Longrightarrow> \<exists>h'. listRelease h l = Some h' \<and> all_freed h l xs h'"
  using listRelease_loop_ok [of h 0 xs l] unat_l_len [of h l xs]
  by (auto simp: listRelease_def dll_def)

section \<open>Traversals\<close>

abbreviation forward :: "ptr \<Rightarrow> listIter" where
  "forward p \<equiv> \<lparr>it_next = p, it_direction = AL_START_HEAD\<rparr>"

lemma listNext_null [simp]: "listNext h (forward 0) = Some (forward 0, 0)"
  by (simp add: listNext_def)

lemma listNext_node:
  "p \<noteq> 0 \<Longrightarrow> cells h p = Some n \<Longrightarrow> listNext h (forward p) = Some (forward (n_next n), p)"
  by (simp add: listNext_def Let_def)

lemma listRewind_forward: "listRewind l = forward (l_head l)"
  by (simp add: listRewind_def)

lemma listGetIterator_forward:
  "0 < avail h \<Longrightarrow> heap_ok h \<Longrightarrow> listGetIterator h l AL_START_HEAD
     = (h\<lparr>brk := Suc (brk h), avail := avail h - 1\<rparr>, Some (forward (l_head l)))"
  by (simp add: listGetIterator_def alloc_hdr_def heap_ok_def)

definition hits :: "('v \<Rightarrow> 'k \<Rightarrow> bool) \<Rightarrow> ('v, 'k) alist \<Rightarrow> 'k \<Rightarrow> 'v \<Rightarrow> bool" where
  "hits same l key v = (case l_match l of Some m \<Rightarrow> m v key | None \<Rightarrow> same v key)"

lemma listSearchKey_loop_ok:
  "dseg (cells h) b xs 0 \<Longrightarrow>
     listSearchKey_loop same h l (forward (first_ptr xs 0)) key
       = Some (first_ptr (dropWhile (\<lambda>x. \<not> hits same l key (snd x)) xs) 0)"
proof (induction xs arbitrary: b)
  case Nil
  then show ?case by (subst listSearchKey_loop.simps) simp
next
  case (Cons x xs)
  obtain p v where x: "x = (p, v)" by (cases x)
  show ?case
    using Cons.prems Cons.IH [of p] x
    by (subst listSearchKey_loop.simps) (auto simp: listNext_node hits_def split: option.splits)
qed

lemma listSearchKey_ok:
  "dll h l xs \<Longrightarrow> 0 < avail h \<Longrightarrow>
     listSearchKey same h l key
       = Some (h\<lparr>brk := Suc (brk h), avail := avail h - 1\<rparr>,
               first_ptr (dropWhile (\<lambda>x. \<not> hits same l key (snd x)) xs) 0)"
  using listSearchKey_loop_ok
      [of "h\<lparr>brk := Suc (brk h), avail := avail h - 1\<rparr>" 0 xs same l key]
  by (simp add: listSearchKey_def listGetIterator_forward dll_def)

lemma listIndex_loop_forward:
  "dseg (cells h) b xs 0 \<Longrightarrow>
     listIndex_loop h False i (first_ptr xs 0) = Some (first_ptr (drop i xs) 0)"
proof (induction i arbitrary: b xs)
  case 0
  then show ?case by simp
next
  case (Suc i)
  show ?case
  proof (cases xs)
    case Nil
    then show ?thesis by simp
  next
    case (Cons x ys)
    then show ?thesis using Suc by (cases x) auto
  qed
qed

lemma listIndex_loop_back:
  "dseg (cells h) 0 xs n \<Longrightarrow>
     listIndex_loop h True i (last_ptr 0 xs) = Some (last_ptr 0 (take (length xs - i) xs))"
proof (induction i arbitrary: n xs)
  case 0
  then show ?case by simp
next
  case (Suc i)
  show ?case
  proof (cases xs rule: rev_cases)
    case Nil
    then show ?thesis by simp
  next
    case (snoc ys x)
    then show ?thesis using Suc by (cases x) auto
  qed
qed

lemma dll_brk_avail: "dll h l xs \<Longrightarrow> dll (h\<lparr>brk := Suc (brk h), avail := n\<rparr>) l xs"
  by (auto simp: dll_def heap_ok_def intro: less_SucI)

lemma dll_frame:
  assumes "dll h l xs" and "heap_ok h'" and "\<And>p. p \<in> ptrs xs \<Longrightarrow> cells h' p = cells h p"
  shows "dll h' l xs"
  using assms dseg_cong [of xs "cells h'" "cells h" 0 0] by (simp add: dll_def)

lemma all_freed_heap_ok: "heap_ok h \<Longrightarrow> all_freed h l xs h' \<Longrightarrow> heap_ok h'"
  by (auto simp: heap_ok_def all_freed_def)

lemma dll_all_freed:
  "dll h l xs \<Longrightarrow> all_freed h copy ys h' \<Longrightarrow> ptrs xs \<inter> ptrs ys = {} \<Longrightarrow> dll h' l xs"
  by (rule dll_frame) (auto simp: dll_def all_freed_def intro: all_freed_heap_ok)

lemma dll_added:
  "dll h l xs \<Longrightarrow> added h copy ys ys' h' copy' \<Longrightarrow> ptrs xs \<inter> ptrs ys = {} \<Longrightarrow> dll h' l xs"
  using dll_fresh [of h l xs]
  by (intro dll_frame [of h l xs h'])
    (force simp: added_def dll_def same_outside_def disjoint_iff)+

definition dup_val :: "('v, 'k) alist \<Rightarrow> 'v \<Rightarrow> 'v option" where
  "dup_val l v = (case l_dup l of None \<Rightarrow> Some v | Some dup \<Rightarrow> dup v)"

lemma dup_val_methods: "methods_eq l l' \<Longrightarrow> dup_val l' = dup_val l"
  by (simp add: methods_eq_def dup_val_def fun_eq_iff)

lemma listDup_loop_unfold:
  assumes "p \<noteq> 0" and "cells h p = Some n"
  shows "listDup_loop h (forward p) copy =
    (case dup_val copy (n_value n) of
       None \<Rightarrow> do { h' \<leftarrow> listRelease h copy; Some (h', None) }
     | Some v \<Rightarrow> do {
         (h', copy', ok) \<leftarrow> listAddNodeTail h copy v;
         (if ok then listDup_loop h' (forward (n_next n)) copy'
          else do { h'' \<leftarrow> listRelease h' copy'; Some (h'', None) })
       })"
  using assms by (subst listDup_loop.simps) (simp add: listNext_node dup_val_def)

text \<open>What duplicating the nodes \<open>zs\<close> of \<open>xs\<close> onto the copy promises, on success and on failure.\<close>

definition dup_result :: "'v heap \<Rightarrow> ('v, 'k) alist \<Rightarrow> (ptr \<times> 'v) list \<Rightarrow> (ptr \<times> 'v) list \<Rightarrow>
    ('v, 'k) alist \<Rightarrow> (ptr \<times> 'v) list \<Rightarrow> 'v heap \<Rightarrow> ('v, 'k) alist option \<Rightarrow> bool" where
  "dup_result h l xs zs copy ys h' r \<longleftrightarrow>
     dll h' l xs \<and>
     (case r of
        None \<Rightarrow> avail h < length zs \<or> (\<exists>x \<in> set zs. dup_val copy (snd x) = None)
      | Some c \<Rightarrow> \<exists>ws. dll h' c (ys @ ws) \<and> methods_eq copy c \<and>
          map Some (map snd ws) = map (dup_val copy) (map snd zs) \<and> ptrs xs \<inter> ptrs (ys @ ws) = {})"

lemma dup_result_fail:
  assumes "dll h l xs" "dll h copy ys" "ptrs xs \<inter> ptrs ys = {}"
    and "dup_val copy v = None \<or> avail h = 0"
  shows "\<exists>h'. listRelease h copy = Some h' \<and> dup_result h l xs ((p, v) # zs) copy ys h' None"
proof -
  obtain h' where "listRelease h copy = Some h'" "all_freed h copy ys h'"
    using listRelease_ok [OF assms(2)] by blast
  with assms dll_all_freed [OF assms(1)] show ?thesis by (auto simp: dup_result_def)
qed

lemma dup_result_step:
  assumes add: "added h copy ys (ys @ [(q, w)]) h1 c1" and w: "dup_val copy v = Some w"
    and pos: "0 < avail h" and res: "dup_result h1 l xs zs c1 (ys @ [(q, w)]) h' r"
  shows "dup_result h l xs ((p, v) # zs) copy ys h' r"
proof (cases r)
  case None
  have "dup_val c1 = dup_val copy" using add by (auto simp: added_def intro: dup_val_methods)
  with None res add pos show ?thesis by (auto simp: dup_result_def added_def)
next
  case (Some c)
  have same: "dup_val c1 = dup_val copy" using add by (auto simp: added_def intro: dup_val_methods)
  from res Some obtain ws where ws: "dll h' c ((ys @ [(q, w)]) @ ws)" "methods_eq c1 c"
      "map Some (map snd ws) = map (dup_val c1) (map snd zs)"
      "ptrs xs \<inter> ptrs ((ys @ [(q, w)]) @ ws) = {}"
    by (auto simp: dup_result_def)
  have "methods_eq copy c" using ws(2) add by (auto simp: added_def methods_eq_def)
  moreover have "dll h' c (ys @ (q, w) # ws)" using ws(1) by simp
  moreover have "map Some (map snd ((q, w) # ws)) = map (dup_val copy) (map snd ((p, v) # zs))"
    using ws(3) same w by simp
  moreover have "ptrs xs \<inter> ptrs (ys @ (q, w) # ws) = {}" using ws(4) by simp
  ultimately have "\<exists>us. dll h' c (ys @ us) \<and> methods_eq copy c \<and>
      map Some (map snd us) = map (dup_val copy) (map snd ((p, v) # zs)) \<and> ptrs xs \<inter> ptrs (ys @ us) = {}"
    by blast
  with Some res show ?thesis by (simp add: dup_result_def)
qed

lemma listDup_loop_ok:
  assumes "dll h l (ds @ zs)" and "dll h copy ys" and "ptrs (ds @ zs) \<inter> ptrs ys = {}"
    and "length ys + length zs < 2 ^ 64"
  shows "\<exists>h' r. listDup_loop h (forward (first_ptr zs 0)) copy = Some (h', r) \<and>
    dup_result h l (ds @ zs) zs copy ys h' r"
  using assms
proof (induction zs arbitrary: h copy ys ds)
  case Nil
  then have "dup_result h l (ds @ []) [] copy ys h (Some copy)"
    by (auto simp: dup_result_def methods_eq_def intro!: exI [where x = "[]"])
  then show ?case by (subst listDup_loop.simps) simp
next
  case (Cons z zs)
  obtain p v where z: "z = (p, v)" by (cases z)
  from Cons.prems(1) z obtain n where p: "p \<noteq> 0" "cells h p = Some n"
      and n: "n_next n = first_ptr zs 0" "n_value n = v"
    by (auto simp: dll_def)
  note unf = listDup_loop_unfold [OF p, of copy, unfolded n]
  show ?case
  proof (cases "dup_val copy v = None \<or> avail h = 0")
    case True
    then show ?thesis
      using dup_result_fail [OF Cons.prems(1-3) True, of p zs] z unf
      by (auto simp: add_fail split: option.splits)
  next
    case False
    then obtain w where w: "dup_val copy v = Some w" and pos: "0 < avail h" by auto
    then obtain h1 c1 where add: "listAddNodeTail h copy w = Some (h1, c1, True)"
        "added h copy ys (ys @ [(brk h, w)]) h1 c1"
      using listAddNodeTail_ok [OF Cons.prems(2) pos, of w] Cons.prems(4) by auto
    have d1: "dll h1 l ((ds @ [z]) @ zs)"
      using dll_added [OF Cons.prems(1) add(2) Cons.prems(3)] by simp
    have disj: "ptrs ((ds @ [z]) @ zs) \<inter> ptrs (ys @ [(brk h, w)]) = {}"
      using Cons.prems(3) dll_fresh [OF Cons.prems(1)] by auto
    obtain h' r where IH: "listDup_loop h1 (forward (first_ptr zs 0)) c1 = Some (h', r)"
        "dup_result h1 l ((ds @ [z]) @ zs) zs c1 (ys @ [(brk h, w)]) h' r"
      using Cons.IH [OF d1 _ disj, of c1] add(2) Cons.prems(4) by (auto simp: added_def)
    have "dup_result h l (ds @ z # zs) (z # zs) copy ys h' r"
      using dup_result_step [OF add(2) w pos IH(2)] z by simp
    with unf w add(1) IH(1) z show ?thesis by auto
  qed
qed

lemma listDup_ok:
  assumes wf: "dll h l xs" and av: "2 \<le> avail h"
  shows "\<exists>h' r. listDup h l = Some (h', r) \<and> dll h' l xs \<and>
    (case r of
       None \<Rightarrow> avail h < length xs + 2 \<or> (\<exists>v \<in> set (map snd xs). dup_val l v = None)
     | Some c \<Rightarrow> \<exists>ws. dll h' c ws \<and> methods_eq l c \<and>
         map Some (map snd ws) = map (dup_val l) (map snd xs) \<and> ptrs xs \<inter> ptrs ws = {})"
proof -
  let ?c = "\<lparr>l_head = 0, l_tail = 0, l_dup = l_dup l, l_free = l_free l, l_match = l_match l,
    l_len = 0\<rparr>"
  let ?h = "h\<lparr>brk := Suc (Suc (brk h)), avail := avail h - 2\<rparr>"
  have hok: "heap_ok h" using wf by (simp add: dll_def)
  have start: "listDup h l = listDup_loop ?h (forward (first_ptr xs 0)) ?c"
    using wf av hok
    by (auto simp: listDup_def listCreate_def listGetIterator_def alloc_hdr_def heap_ok_def dll_def numeral_2_eq_2)
  have d: "dll ?h l ([] @ xs)"
    using dll_brk_avail [OF dll_brk_avail [OF wf, of "avail h - 1"], of "avail h - 2"] by simp
  have "dll ?h ?c []" using d by (simp add: dll_def)
  then obtain h' r where "listDup_loop ?h (forward (first_ptr xs 0)) ?c = Some (h', r)"
      and res: "dup_result ?h l ([] @ xs) xs ?c [] h' r"
    using listDup_loop_ok [OF d, of ?c "[]"] wf by (auto simp: dll_def)
  moreover have "dup_val ?c = dup_val l" by (simp add: dup_val_def fun_eq_iff)
  moreover have "methods_eq ?c c = methods_eq l c" for c by (simp add: methods_eq_def)
  ultimately show ?thesis
    using start av by (auto simp: dup_result_def split: option.splits)
qed

section \<open>The interface to the clients\<close>

text \<open>
  A client of the list that only appends sees a sequence of values: appending succeeds as long
  as memory is granted and puts the value at the end. \<open>push_all\<close> is a run of appends.
\<close>

locale value_list =
  fixes rep :: "'h \<Rightarrow> 'l \<Rightarrow> 'v list \<Rightarrow> bool"
    and grants :: "'h \<Rightarrow> nat"
    and push :: "'h \<Rightarrow> 'l \<Rightarrow> 'v \<Rightarrow> ('h \<times> 'l \<times> bool) option"
  assumes push_ok: "rep h l vs \<Longrightarrow> 0 < grants h \<Longrightarrow> Suc (length vs) < 2 ^ 64 \<Longrightarrow>
      \<exists>h' l'. push h l v = Some (h', l', True) \<and> rep h' l' (vs @ [v]) \<and> grants h' = grants h - 1"
    and push_full: "grants h = 0 \<Longrightarrow> push h l v = Some (h, l, False)"
    and rep_unique: "rep h l vs \<Longrightarrow> rep h l vs' \<Longrightarrow> vs = vs'"
begin

fun push_all :: "'h \<Rightarrow> 'l \<Rightarrow> 'v list \<Rightarrow> ('h \<times> 'l) option" where
  "push_all h l [] = Some (h, l)"
| "push_all h l (v # vs) =
     (case push h l v of None \<Rightarrow> None | Some (h', l', ok) \<Rightarrow> push_all h' l' vs)"

lemma push_all_ok:
  "rep h l us \<Longrightarrow> length vs \<le> grants h \<Longrightarrow> length us + length vs < 2 ^ 64 \<Longrightarrow>
     \<exists>h' l'. push_all h l vs = Some (h', l') \<and> rep h' l' (us @ vs) \<and>
       grants h' = grants h - length vs"
proof (induction vs arbitrary: h l us)
  case Nil
  then show ?case by simp
next
  case (Cons v vs)
  then obtain h1 l1 where p: "push h l v = Some (h1, l1, True)" "rep h1 l1 (us @ [v])"
      "grants h1 = grants h - 1"
    using push_ok [of h l us v] by fastforce
  with Cons.prems Cons.IH [of h1 l1 "us @ [v]"] show ?case by auto
qed

lemma push_all_append:
  "push_all h l (us @ vs) = (case push_all h l us of None \<Rightarrow> None | Some (h', l') \<Rightarrow> push_all h' l' vs)"
  by (induction us arbitrary: h l) (auto split: option.splits)

end

definition list_rep :: "'v heap \<Rightarrow> ('v, 'k) alist \<Rightarrow> 'v list \<Rightarrow> bool" where
  "list_rep h l vs \<longleftrightarrow> (\<exists>xs. dll h l xs \<and> map snd xs = vs)"

lemma dseg_unique:
  "dseg c b xs 0 \<Longrightarrow> dseg c b ys 0 \<Longrightarrow> first_ptr xs 0 = first_ptr ys 0 \<Longrightarrow> xs = ys"
proof (induction xs arbitrary: b ys)
  case Nil
  then show ?case by (cases ys) auto
next
  case (Cons x xs)
  then show ?case by (cases x; cases ys) auto
qed

interpretation al: value_list list_rep avail listAddNodeTail
proof
  fix h :: "'v heap" and l :: "('v, 'k) alist" and vs v
  assume "list_rep h l vs" "0 < avail h" "Suc (length vs) < 2 ^ 64"
  then obtain xs where "dll h l xs" "map snd xs = vs" by (auto simp: list_rep_def)
  with listAddNodeTail_ok [of h l xs v] \<open>0 < avail h\<close> \<open>Suc (length vs) < 2 ^ 64\<close>
  show "\<exists>h' l'. listAddNodeTail h l v = Some (h', l', True) \<and> list_rep h' l' (vs @ [v]) \<and>
      avail h' = avail h - 1"
    by (fastforce simp: list_rep_def added_def)
next
  fix h :: "'v heap" and l :: "('v, 'k) alist" and v
  assume "avail h = 0"
  then show "listAddNodeTail h l v = Some (h, l, False)" by (rule add_fail)
next
  fix h :: "'v heap" and l :: "('v, 'k) alist" and vs vs'
  assume "list_rep h l vs" "list_rep h l vs'"
  then show "vs = vs'" by (auto simp: list_rep_def dll_def dest: dseg_unique)
qed

section \<open>What the list guarantees\<close>

lemma first_ptr_drop: "first_ptr (drop i xs) 0 = (if i < length xs then fst (xs ! i) else 0)"
  by (cases "i < length xs") (simp_all add: Cons_nth_drop_Suc [symmetric])

lemma last_ptr_take:
  "last_ptr 0 (take (length xs - i) xs) = (if i < length xs then fst (rev xs ! i) else 0)"
proof (cases "i < length xs")
  case True
  then have "take (length xs - i) xs = take (length xs - Suc i) xs @ [xs ! (length xs - Suc i)]"
    by (metis Suc_diff_Suc diff_Suc_less length_greater_0_conv list.size(3) not_less_zero
        take_Suc_conv_app_nth)
  with True show ?thesis by (simp add: rev_nth)
qed simp

lemma fst_first_hit:
  "first_ptr (dropWhile (\<lambda>x. \<not> P (snd x)) xs) 0
     = (case find (\<lambda>x. P (snd x)) xs of None \<Rightarrow> 0 | Some x \<Rightarrow> fst x)"
  by (induction xs) auto

text \<open>A concrete list of three nodes, used to instantiate the theorems below.\<close>

definition ex_nodes :: "(ptr \<times> nat) list" where
  "ex_nodes = [(11, 10), (12, 20), (13, 30)]"

definition ex_heap :: "nat \<Rightarrow> nat heap" where
  "ex_heap a = \<lparr>cells = [11 \<mapsto> \<lparr>n_prev = 0, n_next = 12, n_value = 10\<rparr>,
      12 \<mapsto> \<lparr>n_prev = 11, n_next = 13, n_value = 20\<rparr>,
      13 \<mapsto> \<lparr>n_prev = 12, n_next = 0, n_value = 30\<rparr>],
      brk = 14, avail = a, released = []\<rparr>"

definition ex_list :: "(nat, nat) alist" where
  "ex_list = \<lparr>l_head = 11, l_tail = 13, l_dup = None, l_free = True, l_match = None, l_len = 3\<rparr>"

lemma ex_dll [simp]: "dll (ex_heap a) ex_list ex_nodes"
  by (auto simp: dll_def ex_heap_def ex_list_def ex_nodes_def heap_ok_def split: if_splits)

lemmas ex_dll_nodes = ex_dll [unfolded ex_nodes_def]

lemma ex_simps [simp]:
  "length ex_nodes = 3" "avail (ex_heap a) = a" "brk (ex_heap a) = 14" "l_match ex_list = None"
  "l_dup ex_list = None" "l_free ex_list" "released (ex_heap a) = []"
  "map snd ex_nodes = [10, 20, 30]" "fst ` set ex_nodes = {11, 12, 13}"
  by (simp_all add: ex_nodes_def ex_heap_def ex_list_def)

text \<open>
  C32: Appending to a well-formed list whose allocation succeeds never faults, puts the value
  at the tail, respectively at the head, in a new node, leaves all nodes outside the list
  unchanged, frees nothing and keeps the list's methods and its well-formedness.
\<close>

theorem add_node_correct:
  assumes "dll h l xs" and "0 < avail h" and "Suc (length xs) < 2 ^ 64"
  shows "\<exists>h1 l1 h2 l2. listAddNodeTail h l v = Some (h1, l1, True) \<and>
    added h l xs (xs @ [(brk h, v)]) h1 l1 \<and>
    listAddNodeHead h l v = Some (h2, l2, True) \<and> added h l xs ((brk h, v) # xs) h2 l2"
  using listAddNodeTail_ok [OF assms] listAddNodeHead_ok [OF assms] by blast

theorem add_node_correct_witness:
  "\<exists>h1 l1 h2 l2. listAddNodeTail (ex_heap 2) ex_list 7 = Some (h1, l1, True) \<and>
    added (ex_heap 2) ex_list ex_nodes (ex_nodes @ [(14, 7)]) h1 l1 \<and>
    listAddNodeHead (ex_heap 2) ex_list 7 = Some (h2, l2, True) \<and>
    added (ex_heap 2) ex_list ex_nodes ((14, 7) # ex_nodes) h2 l2"
  using add_node_correct [of "ex_heap 2" ex_list ex_nodes 7] by simp

text \<open>
  \<open>listInsertNode\<close> on a node of a well-formed list puts the new value directly after it
  when \<open>after\<close> is set and directly before it otherwise, at every position of the list.
\<close>

theorem listInsertNode_correct:
  assumes "dll h l (ys @ (p, w) # zs)" and "0 < avail h"
    and "Suc (length (ys @ (p, w) # zs)) < 2 ^ 64"
  shows "\<exists>h' l'. listInsertNode h l p v after = Some (h', l', True) \<and>
    added h l (ys @ (p, w) # zs)
      (ys @ (if after then [(p, w), (brk h, v)] else [(brk h, v), (p, w)]) @ zs) h' l'"
  using listInsertNode_after_ok [OF assms] listInsertNode_before_ok [OF assms]
  by (cases after) auto

theorem listInsertNode_correct_witness:
  "\<exists>h' l'. listInsertNode (ex_heap 2) ex_list 12 7 True = Some (h', l', True) \<and>
    added (ex_heap 2) ex_list ex_nodes [(11, 10), (12, 20), (14, 7), (13, 30)] h' l'"
  using listInsertNode_correct [of "ex_heap 2" ex_list "[(11, 10)]" 12 20 "[(13, 30)]" 7 True]
  by (simp add: ex_dll_nodes ex_nodes_def)

text \<open>
  C33: \<open>listDelNode\<close> on a node of a well-formed list unlinks exactly that node, at every
  position of the list; the node is freed, its value is handed to the \<open>free\<close> method when there
  is one, and the rest of the list is well formed.
\<close>

theorem listDelNode_correct:
  assumes "dll h l (ys @ (p, v) # zs)"
  shows "\<exists>h' l'. listDelNode h l p = Some (h', l') \<and>
    removed h l (ys @ (p, v) # zs) (p, v) (ys @ zs) h' l'"
  by (rule listDelNode_ok [OF assms])

theorem listDelNode_correct_witness:
  "\<exists>h' l'. listDelNode (ex_heap 0) ex_list 12 = Some (h', l') \<and>
    removed (ex_heap 0) ex_list ex_nodes (12, 20) [(11, 10), (13, 30)] h' l'"
  using listDelNode_correct [of "ex_heap 0" ex_list "[(11, 10)]" 12 20 "[(13, 30)]"]
  by (simp add: ex_dll_nodes ex_nodes_def)

text \<open>
  C39: \<open>listRelease\<close> on a well-formed list ends without a fault, frees every node of the list and
  nothing else, and hands the values to the \<open>free\<close> method in list order.
\<close>

theorem listRelease_correct:
  assumes "dll h l xs"
  shows "\<exists>h'. listRelease h l = Some h' \<and>
    released h' = released h @ (if l_free l then map snd xs else []) \<and>
    (\<forall>p. cells h' p = (if p \<in> fst ` set xs then None else cells h p))"
  using listRelease_ok [OF assms] unfolding all_freed_def ptrs_def by blast

theorem listRelease_correct_witness:
  "\<exists>h'. listRelease (ex_heap 0) ex_list = Some h' \<and> released h' = [10, 20, 30] \<and>
     (\<forall>p. cells h' p = (if p \<in> {11, 12, 13} then None else cells (ex_heap 0) p))"
  using listRelease_correct [OF ex_dll, of 0] unfolding ex_simps by simp

text \<open>
  \<open>listIndex\<close> with a non-negative index returns the node at that position from the head,
  with a negative index the node counted from the tail (\<open>-1\<close> is the last), and \<open>NULL\<close> when
  the index is out of range, in both directions.
\<close>

theorem listIndex_correct:
  assumes "dll h l xs"
  shows "listIndex h l (int i) = Some (if i < length xs then fst (xs ! i) else 0) \<and>
    listIndex h l (- int i - 1) = Some (if i < length xs then fst (rev xs ! i) else 0)"
  using assms listIndex_loop_forward [of h 0 xs i] listIndex_loop_back [of h xs 0 i]
  by (auto simp: listIndex_def dll_def first_ptr_drop last_ptr_take)

theorem listIndex_correct_witness:
  "listIndex (ex_heap 0) ex_list 2 = Some 13 \<and> listIndex (ex_heap 0) ex_list (- 3) = Some 11 \<and>
    listIndex (ex_heap 0) ex_list 3 = Some 0"
  using listIndex_correct [OF ex_dll, of 0 2] listIndex_correct [OF ex_dll, of 0 3]
  by (simp add: ex_nodes_def)

text \<open>
  \<open>listSearchKey\<close> ends on every well-formed list and returns the first node whose value
  matches the key (by the list's match method, or by comparison when it has none), and \<open>NULL\<close>
  when there is none.
\<close>

theorem listSearchKey_correct:
  assumes "dll h l xs" and "0 < avail h"
  shows "\<exists>h'. listSearchKey same h l key =
    Some (h', case find (\<lambda>x. hits same l key (snd x)) xs of None \<Rightarrow> 0 | Some x \<Rightarrow> fst x)"
  using listSearchKey_ok [OF assms] by (simp add: fst_first_hit)

theorem listSearchKey_correct_witness:
  "\<exists>h'. listSearchKey (=) (ex_heap 2) ex_list 20 = Some (h', 12)"
  using listSearchKey_correct [OF ex_dll, of 2 "(=)" 20]
  by (simp add: hits_def ex_nodes_def)

text \<open>
  \<open>listRotate\<close> moves the last node of a well-formed list to the front, also when the list
  has a single node, without allocating or freeing.
\<close>

theorem listRotate_correct:
  assumes "dll h l (ys @ [x])"
  shows "\<exists>h' l'. listRotate h l = Some (h', l') \<and> dll h' l' (x # ys) \<and>
    same_outside (ptrs (ys @ [x])) h h' \<and> methods_eq l l'"
proof (cases "ys = []")
  case True
  then show ?thesis
    using listRotate_short [OF assms] assms by (simp add: same_outside_def methods_eq_def)
next
  case False
  then show ?thesis
    using listRotate_ok [of h l ys "fst x" "snd x"] assms by simp
qed

theorem listRotate_correct_witness:
  "\<exists>h' l'. listRotate (ex_heap 0) ex_list = Some (h', l') \<and>
     dll h' l' [(13, 30), (11, 10), (12, 20)]"
  using listRotate_correct [of "ex_heap 0" ex_list "[(11, 10), (12, 20)]" "(13, 30)"]
  by (auto simp: ex_dll_nodes)

text \<open>
  When the list header and the iterator can be allocated, \<open>listDup\<close> ends without a fault and
  the original list is unchanged. If it returns a list, that list is a well-formed copy on new
  nodes: the values of the original in order, each passed through the \<open>dup\<close> method, and the
  same methods. It returns \<open>NULL\<close> only when a node cannot be allocated or a value cannot be
  duplicated.
\<close>

theorem listDup_correct:
  assumes "dll h l xs" and "2 \<le> avail h"
  shows "\<exists>h' r. listDup h l = Some (h', r) \<and> dll h' l xs \<and>
    (case r of
       None \<Rightarrow> avail h < length xs + 2 \<or> (\<exists>v \<in> set (map snd xs). dup_val l v = None)
     | Some c \<Rightarrow> \<exists>ws. dll h' c ws \<and> methods_eq l c \<and>
         map Some (map snd ws) = map (dup_val l) (map snd xs) \<and> ptrs xs \<inter> ptrs ws = {})"
  by (rule listDup_ok [OF assms])

theorem listDup_correct_witness:
  "\<exists>h' c ws. listDup (ex_heap 5) ex_list = Some (h', Some c) \<and> dll h' c ws \<and>
     map Some (map snd ws) = [Some 10, Some 20, Some 30] \<and> dll h' ex_list ex_nodes"
proof -
  have d: "dup_val ex_list = Some" by (simp add: dup_val_def fun_eq_iff)
  obtain h' r where r: "listDup (ex_heap 5) ex_list = Some (h', r)" "dll h' ex_list ex_nodes"
      and res: "case r of
        None \<Rightarrow> 5 < (3 + 2 :: nat) \<or> (\<exists>v \<in> set (map snd ex_nodes). Some v = None)
      | Some c \<Rightarrow> \<exists>ws. dll h' c ws \<and> methods_eq ex_list c \<and>
          map Some (map snd ws) = map Some (map snd ex_nodes) \<and> ptrs ex_nodes \<inter> ptrs ws = {}"
    using listDup_correct [OF ex_dll, of 5] unfolding d ex_simps by auto
  then obtain c ws where "r = Some c" "dll h' c ws"
      "map Some (map snd ws) = [Some 10, Some 20, Some 30]"
    by (cases r) auto
  with r show ?thesis by metis
qed



end
