(* ===== verification/Crc64.thy ===== *)
theory Crc64
  imports Prelude
begin

text \<open>
  The checksum of the output stream (\<open>output/crc64.c\<close>): the table, the byte step and the
  loop of \<open>crc64\<close>. The buffer and its length are one list, the bytes \<open>s[0..l)\<close>. The
  table-driven step is proved equal to the bitwise division by the polynomial the file's
  comment names, which gives that the checksum of a concatenation is the checksum chained
  over its parts, that it is linear, and that it detects every change confined to eight
  consecutive bytes.
\<close>

section \<open>Model\<close>

definition crc64_tab :: "u64 list" where
  "crc64_tab = [
    0x0000000000000000, 0x7ad870c830358979, 0xf5b0e190606b12f2, 0x8f689158505e9b8b,
    0xc038e5739841b68f, 0xbae095bba8743ff6, 0x358804e3f82aa47d, 0x4f50742bc81f2d04,
    0xab28ecb46814fe75, 0xd1f09c7c5821770c, 0x5e980d24087fec87, 0x24407dec384a65fe,
    0x6b1009c7f05548fa, 0x11c8790fc060c183, 0x9ea0e857903e5a08, 0xe478989fa00bd371,
    0x7d08ff3b88be6f81, 0x07d08ff3b88be6f8, 0x88b81eabe8d57d73, 0xf2606e63d8e0f40a,
    0xbd301a4810ffd90e, 0xc7e86a8020ca5077, 0x4880fbd87094cbfc, 0x32588b1040a14285,
    0xd620138fe0aa91f4, 0xacf86347d09f188d, 0x2390f21f80c18306, 0x594882d7b0f40a7f,
    0x1618f6fc78eb277b, 0x6cc0863448deae02, 0xe3a8176c18803589, 0x997067a428b5bcf0,
    0xfa11fe77117cdf02, 0x80c98ebf2149567b, 0x0fa11fe77117cdf0, 0x75796f2f41224489,
    0x3a291b04893d698d, 0x40f16bccb908e0f4, 0xcf99fa94e9567b7f, 0xb5418a5cd963f206,
    0x513912c379682177, 0x2be1620b495da80e, 0xa489f35319033385, 0xde51839b2936bafc,
    0x9101f7b0e12997f8, 0xebd98778d11c1e81, 0x64b116208142850a, 0x1e6966e8b1770c73,
    0x8719014c99c2b083, 0xfdc17184a9f739fa, 0x72a9e0dcf9a9a271, 0x08719014c99c2b08,
    0x4721e43f0183060c, 0x3df994f731b68f75, 0xb29105af61e814fe, 0xc849756751dd9d87,
    0x2c31edf8f1d64ef6, 0x56e99d30c1e3c78f, 0xd9810c6891bd5c04, 0xa3597ca0a188d57d,
    0xec09088b6997f879, 0x96d1784359a27100, 0x19b9e91b09fcea8b, 0x636199d339c963f2,
    0xdf7adabd7a6e2d6f, 0xa5a2aa754a5ba416, 0x2aca3b2d1a053f9d, 0x50124be52a30b6e4,
    0x1f423fcee22f9be0, 0x659a4f06d21a1299, 0xeaf2de5e82448912, 0x902aae96b271006b,
    0x74523609127ad31a, 0x0e8a46c1224f5a63, 0x81e2d7997211c1e8, 0xfb3aa75142244891,
    0xb46ad37a8a3b6595, 0xceb2a3b2ba0eecec, 0x41da32eaea507767, 0x3b024222da65fe1e,
    0xa2722586f2d042ee, 0xd8aa554ec2e5cb97, 0x57c2c41692bb501c, 0x2d1ab4dea28ed965,
    0x624ac0f56a91f461, 0x1892b03d5aa47d18, 0x97fa21650afae693, 0xed2251ad3acf6fea,
    0x095ac9329ac4bc9b, 0x7382b9faaaf135e2, 0xfcea28a2faafae69, 0x8632586aca9a2710,
    0xc9622c4102850a14, 0xb3ba5c8932b0836d, 0x3cd2cdd162ee18e6, 0x460abd1952db919f,
    0x256b24ca6b12f26d, 0x5fb354025b277b14, 0xd0dbc55a0b79e09f, 0xaa03b5923b4c69e6,
    0xe553c1b9f35344e2, 0x9f8bb171c366cd9b, 0x10e3202993385610, 0x6a3b50e1a30ddf69,
    0x8e43c87e03060c18, 0xf49bb8b633338561, 0x7bf329ee636d1eea, 0x012b592653589793,
    0x4e7b2d0d9b47ba97, 0x34a35dc5ab7233ee, 0xbbcbcc9dfb2ca865, 0xc113bc55cb19211c,
    0x5863dbf1e3ac9dec, 0x22bbab39d3991495, 0xadd33a6183c78f1e, 0xd70b4aa9b3f20667,
    0x985b3e827bed2b63, 0xe2834e4a4bd8a21a, 0x6debdf121b863991, 0x1733afda2bb3b0e8,
    0xf34b37458bb86399, 0x8993478dbb8deae0, 0x06fbd6d5ebd3716b, 0x7c23a61ddbe6f812,
    0x3373d23613f9d516, 0x49aba2fe23cc5c6f, 0xc6c333a67392c7e4, 0xbc1b436e43a74e9d,
    0x95ac9329ac4bc9b5, 0xef74e3e19c7e40cc, 0x601c72b9cc20db47, 0x1ac40271fc15523e,
    0x5594765a340a7f3a, 0x2f4c0692043ff643, 0xa02497ca54616dc8, 0xdafce7026454e4b1,
    0x3e847f9dc45f37c0, 0x445c0f55f46abeb9, 0xcb349e0da4342532, 0xb1eceec59401ac4b,
    0xfebc9aee5c1e814f, 0x8464ea266c2b0836, 0x0b0c7b7e3c7593bd, 0x71d40bb60c401ac4,
    0xe8a46c1224f5a634, 0x927c1cda14c02f4d, 0x1d148d82449eb4c6, 0x67ccfd4a74ab3dbf,
    0x289c8961bcb410bb, 0x5244f9a98c8199c2, 0xdd2c68f1dcdf0249, 0xa7f41839ecea8b30,
    0x438c80a64ce15841, 0x3954f06e7cd4d138, 0xb63c61362c8a4ab3, 0xcce411fe1cbfc3ca,
    0x83b465d5d4a0eece, 0xf96c151de49567b7, 0x76048445b4cbfc3c, 0x0cdcf48d84fe7545,
    0x6fbd6d5ebd3716b7, 0x15651d968d029fce, 0x9a0d8ccedd5c0445, 0xe0d5fc06ed698d3c,
    0xaf85882d2576a038, 0xd55df8e515432941, 0x5a3569bd451db2ca, 0x20ed197575283bb3,
    0xc49581ead523e8c2, 0xbe4df122e51661bb, 0x3125607ab548fa30, 0x4bfd10b2857d7349,
    0x04ad64994d625e4d, 0x7e7514517d57d734, 0xf11d85092d094cbf, 0x8bc5f5c11d3cc5c6,
    0x12b5926535897936, 0x686de2ad05bcf04f, 0xe70573f555e26bc4, 0x9ddd033d65d7e2bd,
    0xd28d7716adc8cfb9, 0xa85507de9dfd46c0, 0x273d9686cda3dd4b, 0x5de5e64efd965432,
    0xb99d7ed15d9d8743, 0xc3450e196da80e3a, 0x4c2d9f413df695b1, 0x36f5ef890dc31cc8,
    0x79a59ba2c5dc31cc, 0x037deb6af5e9b8b5, 0x8c157a32a5b7233e, 0xf6cd0afa9582aa47,
    0x4ad64994d625e4da, 0x300e395ce6106da3, 0xbf66a804b64ef628, 0xc5bed8cc867b7f51,
    0x8aeeace74e645255, 0xf036dc2f7e51db2c, 0x7f5e4d772e0f40a7, 0x05863dbf1e3ac9de,
    0xe1fea520be311aaf, 0x9b26d5e88e0493d6, 0x144e44b0de5a085d, 0x6e963478ee6f8124,
    0x21c640532670ac20, 0x5b1e309b16452559, 0xd476a1c3461bbed2, 0xaeaed10b762e37ab,
    0x37deb6af5e9b8b5b, 0x4d06c6676eae0222, 0xc26e573f3ef099a9, 0xb8b627f70ec510d0,
    0xf7e653dcc6da3dd4, 0x8d3e2314f6efb4ad, 0x0256b24ca6b12f26, 0x788ec2849684a65f,
    0x9cf65a1b368f752e, 0xe62e2ad306bafc57, 0x6946bb8b56e467dc, 0x139ecb4366d1eea5,
    0x5ccebf68aecec3a1, 0x2616cfa09efb4ad8, 0xa97e5ef8cea5d153, 0xd3a62e30fe90582a,
    0xb0c7b7e3c7593bd8, 0xca1fc72bf76cb2a1, 0x45775673a732292a, 0x3faf26bb9707a053,
    0x70ff52905f188d57, 0x0a2722586f2d042e, 0x854fb3003f739fa5, 0xff97c3c80f4616dc,
    0x1bef5b57af4dc5ad, 0x61372b9f9f784cd4, 0xee5fbac7cf26d75f, 0x9487ca0fff135e26,
    0xdbd7be24370c7322, 0xa10fceec0739fa5b, 0x2e675fb4576761d0, 0x54bf2f7c6752e8a9,
    0xcdcf48d84fe75459, 0xb71738107fd2dd20, 0x387fa9482f8c46ab, 0x42a7d9801fb9cfd2,
    0x0df7adabd7a6e2d6, 0x772fdd63e7936baf, 0xf8474c3bb7cdf024, 0x829f3cf387f8795d,
    0x66e7a46c27f3aa2c, 0x1c3fd4a417c62355, 0x935745fc4798b8de, 0xe98f353477ad31a7,
    0xa6df411fbfb21ca3, 0xdc0731d78f8795da, 0x536fa08fdfd90e51, 0x29b7d047efec8728]"

definition crc64_step :: "u64 \<Rightarrow> u8 \<Rightarrow> u64" where
  "crc64_step crc byte = crc64_tab ! unat ((ucast crc :: u8) XOR byte) XOR drop_bit 8 crc"

fun crc64 :: "u64 \<Rightarrow> u8 list \<Rightarrow> u64" where
  "crc64 crc [] = crc"
| "crc64 crc (byte # s) = crc64 (crc64_step crc byte) s"

section \<open>Bitwise reference\<close>

text \<open>
  The polynomial \<open>0xad93d23594c935a9\<close> of the comment, with its bits in reverse order since
  the variant is reflected, and one bit of the polynomial division.
\<close>

definition crc64_poly :: u64 where
  "crc64_poly = 0x95ac9329ac4bc9b5"

definition crc64_bit :: "u64 \<Rightarrow> u64" where
  "crc64_bit c = (if bit c 0 then drop_bit 1 c XOR crc64_poly else drop_bit 1 c)"

definition crc64_byte_ref :: "u64 \<Rightarrow> u8 \<Rightarrow> u64" where
  "crc64_byte_ref crc byte = (crc64_bit ^^ 8) (crc XOR ucast byte)"

fun crc64_ref :: "u64 \<Rightarrow> u8 list \<Rightarrow> u64" where
  "crc64_ref crc [] = crc"
| "crc64_ref crc (byte # s) = crc64_ref (crc64_byte_ref crc byte) s"

section \<open>The table holds the polynomial remainders\<close>

text \<open>\<open>xspan bs\<close> lists the XOR of every subset of \<open>bs\<close>, in the order of binary counting.\<close>

fun xspan :: "u64 list \<Rightarrow> u64 list" where
  "xspan [] = [0]"
| "xspan (b # bs) = xspan bs @ map (\<lambda>x. b XOR x) (xspan bs)"

definition crc64_basis :: "u64 list" where
  "crc64_basis = map (crc64_bit ^^ 8) [128, 64, 32, 16, 8, 4, 2, 1]"

lemma funpow_8: "(f ^^ 8) x = f (f (f (f (f (f (f (f x)))))))"
  by (simp add: eval_nat_numeral)

lemma crc64_basis_val:
  "crc64_basis =
     [0x95ac9329ac4bc9b5, 0xdf7adabd7a6e2d6f, 0xfa11fe77117cdf02, 0x7d08ff3b88be6f81,
      0xab28ecb46814fe75, 0xc038e5739841b68f, 0xf5b0e190606b12f2, 0x7ad870c830358979]"
  by (simp add: crc64_basis_def funpow_8 crc64_bit_def crc64_poly_def)

lemma crc64_tab_xspan: "crc64_tab = xspan crc64_basis"
  by (simp add: crc64_basis_val crc64_tab_def)

lemma length_xspan [simp]: "length (xspan bs) = 2 ^ length bs"
  by (induction bs rule: xspan.induct) simp_all

lemma crc64_bit_zero [simp]: "crc64_bit 0 = 0"
  by (simp add: crc64_bit_def)

lemma crc64_bit_xor: "crc64_bit (a XOR b) = crc64_bit a XOR crc64_bit b"
  by (simp add: crc64_bit_def bit_xor_iff drop_bit_xor xor.assoc xor.left_commute xor.commute)

lemma crc64_bits_xor: "(crc64_bit ^^ n) (a XOR b) = (crc64_bit ^^ n) a XOR (crc64_bit ^^ n) b"
  by (induction n) (simp_all add: crc64_bit_xor)

lemma crc64_bits_zero [simp]: "(crc64_bit ^^ n) 0 = 0"
  by (induction n) simp_all

lemma word_of_nat_top_bit:
  assumes "j < 2 ^ n"
  shows "(word_of_nat (2 ^ n + j) :: u64) = 2 ^ n XOR word_of_nat j"
proof -
  have "take_bit n j = j" using assms by (simp add: take_bit_nat_eq_self_iff)
  then have "\<not> bit j n" by (metis bit_take_bit_iff less_irrefl)
  then have "2 ^ n AND j = 0" by (auto intro!: bit_eqI simp: bit_and_iff bit_exp_iff)
  then have "2 ^ n + j = 2 ^ n XOR j" by (rule disjunctive_add_eq_xor)
  then show ?thesis by (simp add: of_nat_xor_eq)
qed

lemma nth_xspan:
  fixes f :: "u64 \<Rightarrow> u64"
  assumes lin: "\<And>a b. f (a XOR b) = f a XOR f b"
    and bs: "bs = map (\<lambda>k. f (2 ^ k)) (rev [0..<n])" and "i < 2 ^ n"
  shows "xspan bs ! i = f (word_of_nat i)"
  using assms(2,3)
proof (induction n arbitrary: bs i)
  case 0
  have "f (0 XOR 0) = f 0 XOR f 0" by (rule lin)
  with 0 show ?case by simp
next
  case (Suc n)
  let ?bs = "map (\<lambda>k. f (2 ^ k)) (rev [0..<n])"
  have bs: "bs = f (2 ^ n) # ?bs" using Suc.prems(1) by simp
  show ?case
  proof (cases "i < 2 ^ n")
    case True
    with Suc.IH [OF refl True] bs show ?thesis by (simp add: nth_append)
  next
    case False
    define j where "j = i - 2 ^ n"
    with False Suc.prems(2) have j: "j < 2 ^ n" "i = 2 ^ n + j" by auto
    have "xspan bs ! i = f (2 ^ n) XOR xspan ?bs ! j"
      using bs j by (simp add: nth_append)
    also have "\<dots> = f (2 ^ n XOR word_of_nat j)"
      using Suc.IH [OF refl j(1)] by (simp add: lin)
    finally show ?thesis by (simp only: word_of_nat_top_bit [OF j(1)] j(2))
  qed
qed

lemma crc64_tab_nth: "i < 256 \<Longrightarrow> crc64_tab ! i = (crc64_bit ^^ 8) (word_of_nat i)"
  unfolding crc64_tab_xspan
  by (rule nth_xspan [where n = 8, OF crc64_bits_xor])
    (simp_all add: crc64_basis_def eval_nat_numeral del: funpow.simps)

section \<open>The table-driven step is the polynomial division\<close>

lemma u64_bit_lt: "bit (w :: u64) i \<Longrightarrow> i < 64"
  using bit_imp_le_length [of w i] by simp

lemma u8_bit_lt: "bit (w :: u8) i \<Longrightarrow> i < 8"
  using bit_imp_le_length [of w i] by simp

lemma crc64_bit_shifted: "\<not> bit x 63 \<Longrightarrow> crc64_bit (push_bit 1 x) = x"
proof -
  assume top: "\<not> bit x 63"
  have "drop_bit 1 (push_bit 1 x) = x"
  proof (rule bit_word_eqI)
    fix i assume "i < LENGTH(64)"
    then have "i < 63 \<or> i = 63" by auto
    with top show "bit (drop_bit 1 (push_bit 1 x)) i \<longleftrightarrow> bit x i"
      unfolding bit_drop_bit_eq bit_push_bit_iff o_def by (auto dest: u64_bit_lt)
  qed
  moreover have "\<not> bit (push_bit 1 x) 0" unfolding bit_push_bit_iff by simp
  ultimately show ?thesis by (simp add: crc64_bit_def)
qed

lemma crc64_bits_shifted:
  "n \<le> 64 \<Longrightarrow> take_bit (64 - n) x = x \<Longrightarrow> (crc64_bit ^^ n) (push_bit n x) = x"
proof (induction n arbitrary: x)
  case 0
  then show ?case by simp
next
  case (Suc n)
  have nb: "\<not> bit x i" if "63 - n \<le> i" for i
  proof
    assume "bit x i"
    then have "bit (take_bit (64 - Suc n) x) i" by (simp only: Suc.prems(2))
    with that show False by (simp add: bit_take_bit_iff)
  qed
  have "\<not> bit (push_bit n x) 63"
    using nb [of "63 - n"] by (auto simp: bit_push_bit_iff)
  then have step: "crc64_bit (push_bit 1 (push_bit n x)) = push_bit n x"
    by (rule crc64_bit_shifted)
  have "take_bit (64 - n) (take_bit (64 - Suc n) x) = take_bit (64 - Suc n) x"
    by (simp add: min_def)
  then have "take_bit (64 - n) x = x" by (simp only: Suc.prems(2))
  with Suc.IH [of x] Suc.prems(1) have IH: "(crc64_bit ^^ n) (push_bit n x) = x" by linarith
  have "push_bit (Suc n) x = push_bit 1 (push_bit n x)"
    unfolding push_bit_push_bit by simp
  then have "(crc64_bit ^^ Suc n) (push_bit (Suc n) x) = (crc64_bit ^^ n) (push_bit n x)"
    by (simp only: funpow_Suc_right o_def step)
  with IH show ?case by (simp only:)
qed

lemma word_split_low_byte: "c = ucast (ucast c :: u8) XOR push_bit 8 (drop_bit 8 (c :: u64))"
  by (auto intro!: bit_word_eqI simp: bit_xor_iff bit_ucast_iff bit_push_bit_iff bit_drop_bit_eq)

lemma crc64_bits_low_byte:
  "(crc64_bit ^^ 8) c = crc64_tab ! unat (ucast c :: u8) XOR drop_bit 8 c"
proof -
  have high: "(crc64_bit ^^ 8) (push_bit 8 (drop_bit 8 c)) = drop_bit 8 c"
  proof (rule crc64_bits_shifted)
    show "take_bit (64 - 8) (drop_bit 8 c) = drop_bit 8 c"
      using u64_bit_lt [of c] by (intro bit_word_eqI) (fastforce simp: bit_take_bit_iff bit_drop_bit_eq)
  qed simp
  have low: "(crc64_bit ^^ 8) (ucast (ucast c :: u8)) = crc64_tab ! unat (ucast c :: u8)"
    using unat_u8_lt [of "ucast c"] crc64_tab_nth [of "unat (ucast c :: u8)"] by simp
  have "(crc64_bit ^^ 8) c
      = (crc64_bit ^^ 8) (ucast (ucast c :: u8) XOR push_bit 8 (drop_bit 8 c))"
    using word_split_low_byte [of c] by simp
  then show ?thesis by (simp only: crc64_bits_xor high low)
qed

lemma crc64_step_ref: "crc64_step crc byte = crc64_byte_ref crc byte"
proof -
  have "ucast (crc XOR ucast byte) = (ucast crc :: u8) XOR byte"
    by (rule bit_word_eqI) (simp add: bit_xor_iff bit_ucast_iff)
  moreover have "drop_bit 8 (crc XOR ucast byte) = drop_bit 8 crc"
    by (rule bit_word_eqI)
      (auto simp: bit_xor_iff bit_ucast_iff bit_drop_bit_eq dest: u8_bit_lt)
  ultimately show ?thesis
    using crc64_bits_low_byte [of "crc XOR ucast byte"]
    by (simp add: crc64_step_def crc64_byte_ref_def)
qed

section \<open>Consequences\<close>

lemma crc64_append: "crc64 c (s @ t) = crc64 (crc64 c s) t"
  by (induction c s rule: crc64.induct) simp_all

lemma crc64_step_xor:
  "crc64_step (a XOR b) (x XOR y) = crc64_step a x XOR crc64_step b y"
proof -
  have "(a XOR b) XOR ucast (x XOR y) = (a XOR ucast x) XOR (b XOR ucast y)"
    by (simp add: unsigned_xor_eq xor.assoc xor.left_commute)
  then show ?thesis by (simp add: crc64_step_ref crc64_byte_ref_def crc64_bits_xor)
qed

lemma crc64_xor:
  "length s = length t \<Longrightarrow>
     crc64 (a XOR b) (map2 (XOR) s t) = crc64 a s XOR crc64 b t"
  by (induction s t arbitrary: a b rule: list_induct2) (simp_all add: crc64_step_xor)

lemma inj_crc64_bit: "inj crc64_bit"
proof (rule injI)
  fix a b assume "crc64_bit a = crc64_bit b"
  then have z: "crc64_bit (a XOR b) = 0" by (simp add: crc64_bit_xor)
  have top: "bit crc64_poly 63" by (simp add: crc64_poly_def)
  have b0: "\<not> bit (a XOR b) 0"
  proof
    assume "bit (a XOR b) 0"
    with z have "bit (drop_bit 1 (a XOR b) XOR crc64_poly) 63 = bit (0 :: u64) 63"
      by (simp add: crc64_bit_def)
    with top show False by (auto simp: bit_xor_iff bit_drop_bit_eq dest: u64_bit_lt)
  qed
  with z have d: "drop_bit 1 (a XOR b) = 0" by (simp add: crc64_bit_def)
  have "a XOR b = 0"
  proof (rule bit_word_eqI)
    fix i
    have "bit (drop_bit 1 (a XOR b)) j \<longleftrightarrow> bit (a XOR b) (Suc j)" for j
      unfolding bit_drop_bit_eq by simp
    with d b0 show "bit (a XOR b) i \<longleftrightarrow> bit (0 :: u64) i" by (cases i) simp_all
  qed
  then have "(a XOR b) XOR b = 0 XOR b" by simp
  then show "a = b" by (simp only: xor.assoc xor_self_eq xor.right_neutral xor.left_neutral)
qed

lemma inj_crc64_bits: "inj (crc64_bit ^^ n)"
  by (simp add: inj_crc64_bit inj_fn)

lemma take_bit_le_word: "take_bit (8 * length s) (le_word s :: u64) = le_word s"
proof (induction s)
  case Nil
  then show ?case by simp
next
  case (Cons b s)
  have r: "bit (le_word s :: u64) i \<Longrightarrow> i < 8 * length s" for i
    using Cons by (metis bit_take_bit_iff)
  show ?case
  proof (rule bit_word_eqI)
    fix i assume "i < LENGTH(64)"
    show "bit (take_bit (8 * length (b # s)) (le_word (b # s) :: u64)) i
        \<longleftrightarrow> bit (le_word (b # s) :: u64) i"
      using r [of "i - 8"] u8_bit_lt [of b i]
      by (auto simp: bit_take_bit_iff bit_or_iff bit_push_bit_iff bit_ucast_iff)
  qed
qed

text \<open>On at most eight bytes the loop is one polynomial division of the bytes read as a word.\<close>

lemma crc64_short:
  "length s \<le> 8 \<Longrightarrow> crc64 c s = (crc64_bit ^^ (8 * length s)) (c XOR le_word s)"
proof (induction s arbitrary: c)
  case Nil
  then show ?case by simp
next
  case (Cons b s)
  let ?w = "le_word s :: u64"
  have "take_bit (64 - 8) (take_bit (8 * length s) ?w) = take_bit (8 * length s) ?w"
    using Cons.prems by (simp add: min_def)
  then have t: "take_bit (64 - 8) ?w = ?w" by (simp only: take_bit_le_word)
  have "(crc64_bit ^^ 8) (push_bit 8 ?w) = ?w"
    by (rule crc64_bits_shifted [OF _ t]) simp
  then have w: "?w = (crc64_bit ^^ 8) (push_bit 8 ?w)" ..
  have disj: "ucast b OR push_bit 8 ?w = ucast b XOR push_bit 8 ?w"
    using u8_bit_lt [of b]
    by (intro bit_word_eqI) (force simp: bit_or_iff bit_xor_iff bit_push_bit_iff bit_ucast_iff)
  have "crc64 c (b # s) = (crc64_bit ^^ (8 * length s)) (crc64_byte_ref c b XOR ?w)"
    using Cons by (simp add: crc64_step_ref)
  also have "crc64_byte_ref c b XOR ?w = (crc64_bit ^^ 8) ((c XOR ucast b) XOR push_bit 8 ?w)"
    by (subst w) (simp only: crc64_byte_ref_def crc64_bits_xor)
  also have "(c XOR ucast b) XOR push_bit 8 ?w = c XOR le_word (b # s)"
    by (simp only: le_word.simps disj xor.assoc)
  also have "(crc64_bit ^^ (8 * length s)) ((crc64_bit ^^ 8) (c XOR le_word (b # s)))
      = (crc64_bit ^^ (8 * length s + 8)) (c XOR le_word (b # s))"
    by (simp only: funpow_add o_def)
  finally show ?case by (simp add: add.commute)
qed

lemma word_le_le_word: "length s \<le> 8 \<Longrightarrow> word_le (length s) (le_word s :: u64) = s"
proof (induction s)
  case Nil
  then show ?case by simp
next
  case (Cons b s)
  let ?w = "le_word s :: u64"
  have lo: "ucast (ucast b OR push_bit 8 ?w) = b"
    by (rule bit_word_eqI) (auto simp: bit_ucast_iff bit_or_iff bit_push_bit_iff)
  have r: "bit ?w i \<Longrightarrow> i < 56" for i
  proof -
    assume "bit ?w i"
    then have "bit (take_bit (8 * length s) ?w) i" by (simp only: take_bit_le_word)
    with Cons.prems show "i < 56" by (simp add: bit_take_bit_iff)
  qed
  have hi: "drop_bit 8 (ucast b OR push_bit 8 ?w) = ?w"
    using u8_bit_lt [of b] r
    by (intro bit_word_eqI) (force simp: bit_drop_bit_eq bit_ucast_iff bit_or_iff bit_push_bit_iff)
  from Cons lo hi show ?case by simp
qed

lemma inj_crc64_start: "crc64 a s = crc64 b s \<Longrightarrow> a = b"
proof (induction s arbitrary: a b)
  case Nil
  then show ?case by simp
next
  case (Cons x s)
  then have "crc64_step a x = crc64_step b x" by simp
  then have "a XOR ucast x = b XOR ucast x"
    using inj_crc64_bits [of 8] by (simp add: crc64_step_ref crc64_byte_ref_def inj_eq)
  then have "(a XOR ucast x) XOR ucast x = (b XOR ucast x) XOR ucast x" by simp
  then show "a = b" by (simp only: xor.assoc xor_self_eq xor.right_neutral)
qed

section \<open>Properties\<close>

text \<open>
  C22: the table-driven checksum computes, for every start value and every buffer, the
  bitwise division by the polynomial that the comment of \<open>crc64.c\<close> specifies.\<close>

theorem crc64_is_polynomial_division: "crc64 crc s = crc64_ref crc s"
  by (induction crc s rule: crc64.induct) (simp_all add: crc64_step_ref)

text \<open>
  C34: two outputs of equal length that differ only inside a window of at most eight bytes
  never get the same checksum: with equal checksums the windows are equal.\<close>

theorem crc64_detects_burst:
  assumes len: "length u = length v" "length u \<le> 8"
    and same: "crc64 c (p @ u @ q) = crc64 c (p @ v @ q)"
  shows "u = v"
proof -
  let ?c = "crc64 c p"
  from same have "crc64 ?c u = crc64 ?c v"
    by (auto simp: crc64_append dest: inj_crc64_start)
  with len have "?c XOR le_word u = ?c XOR le_word v"
    using inj_crc64_bits [of "8 * length v"] by (simp add: crc64_short inj_eq)
  then have "?c XOR (?c XOR le_word u) = ?c XOR (?c XOR le_word v)" by simp
  then have "(le_word u :: u64) = le_word v"
    by (simp only: xor.assoc [symmetric] xor_self_eq xor.left_neutral)
  then have "word_le (length u) (le_word u :: u64) = word_le (length v) (le_word v :: u64)"
    using len by simp
  moreover have "word_le (length u) (le_word u :: u64) = u"
    "word_le (length v) (le_word v :: u64) = v"
    using len word_le_le_word [of u] word_le_le_word [of v] by simp_all
  ultimately show "u = v" by (simp only:)
qed

theorem crc64_detects_burst_witness:
  "crc64 0 ([7] @ [1, 2, 3] @ [9]) \<noteq> crc64 0 ([7] @ [1, 0, 3] @ [9])"
  using crc64_detects_burst [of "[1, 2, 3]" "[1, 0, 3]" 0 "[7]" "[9]"] by auto

text \<open>
  the check value printed by the file's test program: the checksum of the nine ASCII
  digits \<open>123456789\<close> is \<open>0xe9c6d914c4b8d9ca\<close>.\<close>

theorem crc64_check_value:
  "crc64 0 [0x31, 0x32, 0x33, 0x34, 0x35, 0x36, 0x37, 0x38, 0x39] = 0xe9c6d914c4b8d9ca"
  by (simp add: crc64_step_ref crc64_byte_ref_def funpow_8 crc64_bit_def crc64_poly_def)

lemma crc64_zeros: "crc64 0 (replicate n 0) = 0"
  by (induction n) (simp_all add: crc64_step_ref crc64_byte_ref_def)

end
