(* ===== verification/Output.thy ===== *)
theory Output
  imports Adlist Crc64
begin

text \<open>
  The output log of \<open>output/output.c\<close>: per connection (file descriptor) a 1024 byte buffer and a
  list of hash values. Every byte a server writes to a connection goes through \<open>store_output\<close>;
  whenever the buffer is full, its CRC is chained into the running hash and the hash is appended
  to the list. The state is the manager singleton, with its table of handlers, and the heap of
  \<open>Adlist\<close> the hash lists live on. \<open>None\<close> is a memory fault or a loop that does not end.

  \<open>out_rel\<close> relates a state to the byte stream written so far to every connection; the operations
  refine the obvious ones on streams, so that the hash values depend on the stream alone.
\<close>

section \<open>State\<close>

definition CHECK_PERIOD :: int where "CHECK_PERIOD = 10"
definition CHECK_GOBACK :: int where "CHECK_GOBACK = 5"
definition HASH_BUFFER_SIZE :: nat where "HASH_BUFFER_SIZE = 1024"
definition MAX_FD_SIZE :: nat where "MAX_FD_SIZE = 65536"

record output_handler =
  oh_fd :: int
  oh_count :: int
  output_list :: "(u64, unit) alist option"
  oh_hash :: u64
  hash_buffer :: "u8 list"
  hash_buffer_curr :: nat
  called_cnt :: int

type_synonym fd_table = "int \<Rightarrow> output_handler option"

text \<open>The static pointer of the singleton: not yet allocated, allocated, or freed.\<close>

datatype mgr_ptr = MNull | MLive fd_table | MFreed

record out_state =
  inner_output_mgr :: mgr_ptr
  oheap :: "u64 heap"

section \<open>Manager and handlers\<close>

definition get_output_mgr :: "out_state \<Rightarrow> out_state" where
  "get_output_mgr st =
     (case inner_output_mgr st of
        MNull \<Rightarrow>
          (case alloc_hdr (oheap st) of (h, p) \<Rightarrow>
             if p = 0 then st\<lparr>oheap := h\<rparr>
             else st\<lparr>inner_output_mgr := MLive (\<lambda>_. None), oheap := h\<rparr>)
      | _ \<Rightarrow> st)"

definition init_output_mgr :: "out_state \<Rightarrow> out_state" where
  "init_output_mgr st = get_output_mgr st"

definition new_output_handler :: "u64 heap \<Rightarrow> int \<Rightarrow> (u64 heap \<times> output_handler) option" where
  "new_output_handler h fd =
     (case alloc_hdr h of (h1, p) \<Rightarrow>
        if p = 0 then None
        else (case listCreate h1 of
            (h2, None) \<Rightarrow> None
          | (h2, Some l) \<Rightarrow>
              Some (h2, \<lparr>oh_fd = fd, oh_count = 0, output_list = Some (l\<lparr>l_free := True\<rparr>), oh_hash = 0,
                         hash_buffer = replicate HASH_BUFFER_SIZE 0, hash_buffer_curr = 0,
                         called_cnt = 0\<rparr>)))"

text \<open>\<open>listRelease\<close> reads the header, so a handler whose list is null faults.\<close>

definition delete_output_handler :: "u64 heap \<Rightarrow> output_handler \<Rightarrow> u64 heap option" where
  "delete_output_handler h oh =
     (case output_list oh of None \<Rightarrow> None | Some l \<Rightarrow> listRelease h l)"

fun deinit_fd_loop :: "nat list \<Rightarrow> u64 heap \<Rightarrow> fd_table \<Rightarrow> int \<Rightarrow> (u64 heap \<times> fd_table \<times> int) option" where
  "deinit_fd_loop [] h t cnt = Some (h, t, cnt)"
| "deinit_fd_loop (i # is) h t cnt =
     (case t (int i) of
        None \<Rightarrow> deinit_fd_loop is h t cnt
      | Some oh \<Rightarrow> do {
          h' \<leftarrow> delete_output_handler h oh;
          deinit_fd_loop is h' (t(int i := None)) (cnt + 1)
        })"

definition deinit_fd_handler :: "u64 heap \<Rightarrow> fd_table \<Rightarrow> (u64 heap \<times> fd_table \<times> int) option" where
  "deinit_fd_handler h t = deinit_fd_loop [0..<MAX_FD_SIZE] h t 0"

text \<open>
  Only the local copy of the pointer is reset after the manager is freed: the static one keeps
  pointing to the freed block.
\<close>

definition deinit_output_mgr :: "out_state \<Rightarrow> out_state option" where
  "deinit_output_mgr st0 =
     (let st = get_output_mgr st0
      in case inner_output_mgr st of
           MNull \<Rightarrow> Some st
         | MFreed \<Rightarrow> None
         | MLive t \<Rightarrow> do {
             (h, t', num) \<leftarrow> deinit_fd_handler (oheap st) t;
             Some (st\<lparr>inner_output_mgr := MFreed, oheap := h\<rparr>)
           })"

definition get_output_handler_by_fd ::
    "out_state \<Rightarrow> int \<Rightarrow> (out_state \<times> output_handler option) option" where
  "get_output_handler_by_fd st0 fd =
     (let st = get_output_mgr st0
      in case inner_output_mgr st of
           MNull \<Rightarrow> Some (st, None)
         | MFreed \<Rightarrow> if fd \<ge> int MAX_FD_SIZE then Some (st, None) else None
         | MLive t \<Rightarrow>
             if fd \<ge> int MAX_FD_SIZE then Some (st, None)
             else if fd < 0 then None
             else (case t fd of
                 Some oh \<Rightarrow> Some (st, Some oh)
               | None \<Rightarrow> do {
                   (h, oh) \<leftarrow> new_output_handler (oheap st) fd;
                   Some (st\<lparr>inner_output_mgr := MLive (t(fd \<mapsto> oh)), oheap := h\<rparr>, Some oh)
                 }))"

text \<open>Writing a handler back, as the code does through the pointer.\<close>

definition put_handler :: "out_state \<Rightarrow> int \<Rightarrow> output_handler \<Rightarrow> out_state" where
  "put_handler st fd oh =
     (case inner_output_mgr st of
        MLive t \<Rightarrow> st\<lparr>inner_output_mgr := MLive (t(fd \<mapsto> oh))\<rparr>
      | _ \<Rightarrow> st)"

definition del_output_handler_by_fd :: "out_state \<Rightarrow> int \<Rightarrow> (out_state \<times> int) option" where
  "del_output_handler_by_fd st0 fd =
     (let st = get_output_mgr st0
      in case inner_output_mgr st of
           MNull \<Rightarrow> Some (st, - 1)
         | MFreed \<Rightarrow> if fd \<ge> int MAX_FD_SIZE then Some (st, - 1) else None
         | MLive t \<Rightarrow>
             if fd \<ge> int MAX_FD_SIZE then Some (st, - 1)
             else if fd < 0 then None
             else (case t fd of
                 None \<Rightarrow> Some (st, 0)
               | Some oh \<Rightarrow> do {
                   h \<leftarrow> (case output_list oh of None \<Rightarrow> Some (oheap st) | Some l \<Rightarrow> listRelease (oheap st) l);
                   Some (st\<lparr>inner_output_mgr := MLive (t(fd := None)), oheap := h\<rparr>, 0)
                 }))"

definition del_output :: "out_state \<Rightarrow> int \<Rightarrow> (out_state \<times> int) option" where
  "del_output st fd = del_output_handler_by_fd st fd"

section \<open>Storing output\<close>

text \<open>Conversion of a \<open>ssize_t\<close> to \<open>int\<close>; \<open>memcpy\<close> with a negative size is a fault.\<close>

definition to_int32 :: "int \<Rightarrow> int" where
  "to_int32 n = sint (word_of_int n :: 32 word)"

definition memcpy_list :: "u8 list \<Rightarrow> nat \<Rightarrow> u8 list \<Rightarrow> u8 list" where
  "memcpy_list dst off xs = take off dst @ xs @ drop (off + length xs) dst"

text \<open>
  A full buffer: chain its CRC, empty it, box the hash and append it to the list. The result of
  \<open>listAddNodeTail\<close> is not looked at, the count goes up in any case.
\<close>

definition flush_buffer ::
    "u64 heap \<Rightarrow> output_handler \<Rightarrow> int \<Rightarrow> (u64 heap \<times> output_handler \<times> int) option" where
  "flush_buffer h oh retval =
     (let oh1 = oh\<lparr>oh_hash := crc64 (oh_hash oh) (hash_buffer oh), hash_buffer_curr := 0\<rparr>
      in case output_list oh1 of
           None \<Rightarrow> Some (h, oh1, retval)
         | Some l \<Rightarrow>
             (case alloc_hdr h of (h1, p) \<Rightarrow>
                if p = 0 then None
                else do {
                  (h2, l', ok) \<leftarrow> listAddNodeTail h1 l (oh_hash oh1);
                  Some (h2, oh1\<lparr>output_list := Some l', oh_count := oh_count oh1 + 1\<rparr>, retval + 1)
                }))"

partial_function (option) store_loop ::
    "u64 heap \<Rightarrow> output_handler \<Rightarrow> u8 list \<Rightarrow> nat \<Rightarrow> int \<Rightarrow> (u64 heap \<times> output_handler \<times> int) option" where
  "store_loop h oh buff push_size retval =
     (if push_size < length buff then
        (let left_space = int HASH_BUFFER_SIZE - int (hash_buffer_curr oh);
             wait_size = to_int32 (int (length buff) - int push_size);
             actual_size = min left_space wait_size
         in if actual_size < 0 then None
            else
              let n = nat actual_size;
                  oh1 = oh\<lparr>hash_buffer :=
                             memcpy_list (hash_buffer oh) (hash_buffer_curr oh) (take n (drop push_size buff)),
                           hash_buffer_curr := hash_buffer_curr oh + n\<rparr>
              in if hash_buffer_curr oh1 = HASH_BUFFER_SIZE then do {
                   (h2, oh2, retval') \<leftarrow> flush_buffer h oh1 retval;
                   store_loop h2 oh2 buff (push_size + n) retval'
                 } else store_loop h oh1 buff (push_size + n) retval)
      else Some (h, oh, retval))"

definition store_output :: "out_state \<Rightarrow> int \<Rightarrow> u8 list \<Rightarrow> (out_state \<times> int) option" where
  "store_output st fd buff =
     (if buff = [] then Some (st, 0)
      else do {
        (st1, oh) \<leftarrow> get_output_handler_by_fd st fd;
        (case oh of
           None \<Rightarrow> Some (st1, - 1)
         | Some oh \<Rightarrow> do {
             (h, oh', retval) \<leftarrow> store_loop (oheap st1) oh buff 0 0;
             Some (put_handler (st1\<lparr>oheap := h\<rparr>) fd oh', retval)
           })
      })"

section \<open>Queries\<close>

definition determine_output :: "out_state \<Rightarrow> int \<Rightarrow> (out_state \<times> int) option" where
  "determine_output st fd = do {
     (st1, oh) \<leftarrow> get_output_handler_by_fd st fd;
     (case oh of
        None \<Rightarrow> Some (st1, - 1)
      | Some oh \<Rightarrow>
          (let oh' = oh\<lparr>called_cnt := called_cnt oh + 1\<rparr>;
               st2 = put_handler st1 fd oh'
           in if called_cnt oh' mod CHECK_PERIOD = 0
              then (let round_goback = oh_count oh' - CHECK_GOBACK
                    in if round_goback \<ge> 0 then Some (st2, round_goback) else Some (st2, - 1))
              else Some (st2, - 1)))
   }"

partial_function (option) get_val_loop :: "u64 heap \<Rightarrow> listIter \<Rightarrow> int \<Rightarrow> int \<Rightarrow> u64 option" where
  "get_val_loop h li index cnt = do {
     (li', ln) \<leftarrow> listNext h li;
     if ln = 0 then Some 0
     else do {
       n \<leftarrow> cells h ln;
       if index = cnt then Some (n_value n) else get_val_loop h li' index (cnt + 1)
     }
   }"

definition get_val_by_index :: "u64 heap \<Rightarrow> (u64, unit) alist \<Rightarrow> int \<Rightarrow> u64 option" where
  "get_val_by_index h l index = get_val_loop h (listRewind l) index 0"

definition get_output_hash :: "out_state \<Rightarrow> int \<Rightarrow> int \<Rightarrow> (out_state \<times> u64) option" where
  "get_output_hash st fd hash_index = do {
     (st1, oh) \<leftarrow> get_output_handler_by_fd st fd;
     (case oh of
        None \<Rightarrow> Some (st1, 0)
      | Some oh \<Rightarrow>
          if hash_index < oh_count oh then
            (case output_list oh of
               None \<Rightarrow> None
             | Some l \<Rightarrow> do { v \<leftarrow> get_val_by_index (oheap st1) l hash_index; Some (st1, v) })
          else Some (st1, 0))
   }"


section \<open>Streams and the refinement relation\<close>

text \<open>The hash values of a stream: entry \<open>i\<close> is the CRC of its first \<open>i + 1\<close> blocks.\<close>

definition stream_hashes :: "u8 list \<Rightarrow> u64 list" where
  "stream_hashes s = map (\<lambda>i. crc64 0 (take (HASH_BUFFER_SIZE * Suc i) s)) [0..<length s div HASH_BUFFER_SIZE]"

lemma HBS_pos [simp]: "0 < HASH_BUFFER_SIZE" "HASH_BUFFER_SIZE \<noteq> 0"
  by (simp_all add: HASH_BUFFER_SIZE_def)

lemma length_stream_hashes [simp]: "length (stream_hashes s) = length s div HASH_BUFFER_SIZE"
  by (simp add: stream_hashes_def)

lemma take_block:
  assumes "i < length s div HASH_BUFFER_SIZE"
  shows "take (HASH_BUFFER_SIZE * Suc i) (s @ t) = take (HASH_BUFFER_SIZE * Suc i) s"
proof -
  have "HASH_BUFFER_SIZE * Suc i \<le> HASH_BUFFER_SIZE * (length s div HASH_BUFFER_SIZE)"
    using assms by (intro mult_le_mono2) simp
  also have "\<dots> \<le> length s" by simp
  finally show ?thesis by simp
qed

lemma stream_hashes_prefix:
  "map (\<lambda>i. crc64 0 (take (HASH_BUFFER_SIZE * Suc i) (s @ t))) [0..<length s div HASH_BUFFER_SIZE]
     = stream_hashes s"
  unfolding stream_hashes_def
  by (intro map_cong refl) (simp only: take_block atLeastLessThan_iff set_upt)

lemma stream_hashes_no_flush:
  assumes "length s mod HASH_BUFFER_SIZE + length t < HASH_BUFFER_SIZE"
  shows "stream_hashes (s @ t) = stream_hashes s"
    and "length (s @ t) div HASH_BUFFER_SIZE = length s div HASH_BUFFER_SIZE"
    and "length (s @ t) mod HASH_BUFFER_SIZE = length s mod HASH_BUFFER_SIZE + length t"
proof -
  let ?B = HASH_BUFFER_SIZE
  have s: "length s = length s div ?B * ?B + length s mod ?B" by simp
  then have e: "length (s @ t) = (length s mod ?B + length t) + length s div ?B * ?B" by simp
  show d: "length (s @ t) div ?B = length s div ?B"
    unfolding e using assms by (subst div_mult_self1) simp_all
  show "length (s @ t) mod ?B = length s mod ?B + length t"
    unfolding e using assms by (subst mod_mult_self1) simp
  show "stream_hashes (s @ t) = stream_hashes s"
    using stream_hashes_prefix [of s t] by (simp only: stream_hashes_def d)
qed

lemma stream_hashes_flush:
  assumes "length s mod HASH_BUFFER_SIZE + length t = HASH_BUFFER_SIZE"
  shows "stream_hashes (s @ t) = stream_hashes s @ [crc64 0 (s @ t)]"
    and "length (s @ t) div HASH_BUFFER_SIZE = Suc (length s div HASH_BUFFER_SIZE)"
    and "length (s @ t) mod HASH_BUFFER_SIZE = 0"
proof -
  let ?B = HASH_BUFFER_SIZE
  have e: "length (s @ t) = ?B * Suc (length s div ?B)"
    using assms by (simp add: algebra_simps) (metis add.assoc add.commute div_mult_mod_eq mult.commute)
  show d: "length (s @ t) div ?B = Suc (length s div ?B)"
    unfolding e by (rule nonzero_mult_div_cancel_left) simp
  show "length (s @ t) mod ?B = 0" unfolding e by simp
  have "take (?B * Suc (length s div ?B)) (s @ t) = s @ t" using e by (intro take_all) simp
  then show "stream_hashes (s @ t) = stream_hashes s @ [crc64 0 (s @ t)]"
    using stream_hashes_prefix [of s t]
    by (simp only: stream_hashes_def d upt_Suc_append [OF le0] map_append list.map)
qed

text \<open>
  A handler that has seen the stream \<open>s\<close>; \<open>xs\<close> are the nodes of its list. The bytes after the
  last full block are at the start of the buffer.
\<close>

definition hrel :: "u64 heap \<Rightarrow> output_handler \<Rightarrow> u8 list \<Rightarrow> (ptr \<times> u64) list \<Rightarrow> bool" where
  "hrel h oh s xs \<longleftrightarrow>
     (\<exists>l. output_list oh = Some l \<and> dll h l xs \<and> l_free l) \<and>
     map snd xs = stream_hashes s \<and>
     oh_count oh = int (length s div HASH_BUFFER_SIZE) \<and>
     hash_buffer_curr oh = length s mod HASH_BUFFER_SIZE \<and>
     length (hash_buffer oh) = HASH_BUFFER_SIZE \<and>
     take (hash_buffer_curr oh) (hash_buffer oh) = drop (HASH_BUFFER_SIZE * (length s div HASH_BUFFER_SIZE)) s \<and>
     oh_hash oh = crc64 0 (take (HASH_BUFFER_SIZE * (length s div HASH_BUFFER_SIZE)) s)"

lemma hrel_length: "hrel h oh s xs \<Longrightarrow> length xs = length s div HASH_BUFFER_SIZE"
  by (metis hrel_def length_map length_stream_hashes)

text \<open>What a change of one list leaves of every other one.\<close>

definition frames :: "u64 heap \<Rightarrow> (ptr \<times> u64) list \<Rightarrow> u64 heap \<Rightarrow> (ptr \<times> u64) list \<Rightarrow> bool" where
  "frames h xs h' xs' \<longleftrightarrow> heap_ok h' \<and>
     (\<forall>(l :: (u64, unit) alist) ys. dll h l ys \<longrightarrow> ptrs ys \<inter> ptrs xs = {} \<longrightarrow>
        dll h' l ys \<and> ptrs ys \<inter> ptrs xs' = {})"

lemma framesD: "frames h xs h' xs' \<Longrightarrow> dll h (l :: (u64, unit) alist) ys \<Longrightarrow> ptrs ys \<inter> ptrs xs = {} \<Longrightarrow>
    dll h' l ys \<and> ptrs ys \<inter> ptrs xs' = {}"
  by (simp add: frames_def)

lemma frames_refl: "heap_ok h \<Longrightarrow> frames h xs h xs"
  by (simp add: frames_def)

lemma frames_trans: "frames h xs h1 xs1 \<Longrightarrow> frames h1 xs1 h2 xs2 \<Longrightarrow> frames h xs h2 xs2"
  unfolding frames_def by blast

lemma heap_ok_grant [simp]: "heap_ok h \<Longrightarrow> heap_ok (h\<lparr>brk := Suc (brk h), avail := a\<rparr>)"
  by (auto simp: heap_ok_def intro: less_SucI)

lemma frames_alloc: "heap_ok h \<Longrightarrow> frames h xs (h\<lparr>brk := Suc (brk h), avail := a\<rparr>) xs"
  by (simp add: frames_def dll_brk_avail)

lemma frames_added:
  fixes l :: "(u64, unit) alist"
  assumes "added h l xs (xs @ [(brk h, v)]) h' l'"
  shows "frames h xs h' (xs @ [(brk h, v)])"
  unfolding frames_def
proof (intro conjI allI impI)
  show "heap_ok h'" using assms by (simp add: added_def dll_def)
next
  fix m :: "(u64, unit) alist" and ys
  assume d: "dll h m ys" and dis: "ptrs ys \<inter> ptrs xs = {}"
  show "dll h' m ys" by (rule dll_added [OF d assms dis])
  show "ptrs ys \<inter> ptrs (xs @ [(brk h, v)]) = {}" using dis dll_fresh [OF d] by auto
qed

section \<open>The store loop\<close>

lemma memcpy_list_length [simp]:
  "off + length xs \<le> length dst \<Longrightarrow> length (memcpy_list dst off xs) = length dst"
  by (simp add: memcpy_list_def)

lemma memcpy_list_take:
  "off + length xs \<le> length dst \<Longrightarrow> take (off + length xs) (memcpy_list dst off xs) = take off dst @ xs"
  by (simp add: memcpy_list_def)

lemma to_int32_id: "0 \<le> n \<Longrightarrow> n < 2 ^ 31 \<Longrightarrow> to_int32 n = n"
  by (simp add: to_int32_def signed_of_int signed_take_bit_int_eq_self)

text \<open>Copying a piece that leaves the buffer short of full.\<close>

lemma hrel_copy:
  assumes r: "hrel h oh s xs" and lt: "hash_buffer_curr oh + length t < HASH_BUFFER_SIZE"
  shows "hrel h (oh\<lparr>hash_buffer := memcpy_list (hash_buffer oh) (hash_buffer_curr oh) t,
                    hash_buffer_curr := hash_buffer_curr oh + length t\<rparr>) (s @ t) xs"
proof -
  let ?B = HASH_BUFFER_SIZE
  have c: "hash_buffer_curr oh = length s mod ?B" using r by (simp add: hrel_def)
  note nf = stream_hashes_no_flush [OF lt [unfolded c]]
  have le: "?B * (length s div ?B) \<le> length s" by simp
  show ?thesis
    using r lt nf c unfolding hrel_def by (auto simp: memcpy_list_take)
qed

text \<open>Copying a piece that fills the buffer, and flushing it.\<close>

lemma hrel_flush:
  assumes r: "hrel h oh s xs" and eq: "hash_buffer_curr oh + length t = HASH_BUFFER_SIZE"
    and av: "2 \<le> avail h" and lt: "Suc (length s) < 2 ^ 64"
  shows "\<exists>h' oh' xs'. flush_buffer h
      (oh\<lparr>hash_buffer := memcpy_list (hash_buffer oh) (hash_buffer_curr oh) t,
          hash_buffer_curr := HASH_BUFFER_SIZE\<rparr>) retval = Some (h', oh', retval + 1) \<and>
    hrel h' oh' (s @ t) xs' \<and> frames h xs h' xs' \<and> avail h' + 2 = avail h"
proof -
  let ?B = HASH_BUFFER_SIZE
  let ?m = "?B * (length s div ?B)"
  let ?h1 = "h\<lparr>brk := Suc (brk h), avail := avail h - 1\<rparr>"
  obtain l where l: "output_list oh = Some l" "dll h l xs" "l_free l" using r by (auto simp: hrel_def)
  have c: "hash_buffer_curr oh = length s mod ?B" using r by (simp add: hrel_def)
  note fl = stream_hashes_flush [OF eq [unfolded c]]
  have buf: "memcpy_list (hash_buffer oh) (hash_buffer_curr oh) t = drop ?m s @ t"
    using r eq memcpy_list_take [of "hash_buffer_curr oh" t "hash_buffer oh"]
      memcpy_list_length [of "hash_buffer_curr oh" t "hash_buffer oh"]
    unfolding hrel_def by (metis nle_le take_all)
  have hash: "crc64 (oh_hash oh) (drop ?m s @ t) = crc64 0 (s @ t)"
    using r crc64_append [of 0 "take ?m s" "drop ?m s @ t"] unfolding hrel_def
    by (metis append.assoc append_take_drop_id)
  have "length xs \<le> length s" using hrel_length [OF r] by simp
  then obtain h2 l2 where a: "listAddNodeTail ?h1 l (crc64 0 (s @ t)) = Some (h2, l2, True)"
      "added ?h1 l xs (xs @ [(brk ?h1, crc64 0 (s @ t))]) h2 l2"
    using listAddNodeTail_ok [OF dll_brk_avail [OF l(2)], of "avail h - 1" "crc64 0 (s @ t)"] av lt by auto
  have ok: "heap_ok h" using l(2) by (simp add: dll_def)
  have fr: "frames h xs h2 (xs @ [(brk ?h1, crc64 0 (s @ t))])"
    by (rule frames_trans [OF frames_alloc [OF ok] frames_added [OF a(2)]])
  have len: "length (drop ?m s @ t) = ?B"
    using eq c by (simp add: minus_mult_div_eq_mod)
  have m': "?B * Suc (length s div ?B) = length (s @ t)" using fl(2,3) by (metis div_mult_mod_eq add_0_right mult.commute)
  have l2: "dll h2 l2 (xs @ [(brk ?h1, crc64 0 (s @ t))])" "l_free l2" "avail h2 + 2 = avail h"
    using a(2) l(3) av by (simp_all add: added_def methods_eq_def)
  let ?oh = "oh\<lparr>hash_buffer := drop ?m s @ t, hash_buffer_curr := 0, oh_hash := crc64 0 (s @ t),
    output_list := Some l2, oh_count := oh_count oh + 1\<rparr>"
  have fb: "flush_buffer h (oh\<lparr>hash_buffer := memcpy_list (hash_buffer oh) (hash_buffer_curr oh) t,
          hash_buffer_curr := HASH_BUFFER_SIZE\<rparr>) retval = Some (h2, ?oh, retval + 1)"
    using ok av l(1) a(1) unfolding buf by (simp add: flush_buffer_def alloc_hdr_def heap_ok_def hash)
  have "hrel h2 ?oh (s @ t) (xs @ [(brk ?h1, crc64 0 (s @ t))])"
    using r l2 len fl m' unfolding hrel_def by simp
  with fb fr l2(3) show ?thesis by blast
qed

lemma store_loop_done: "length buff \<le> push \<Longrightarrow> store_loop h oh buff push r = Some (h, oh, r)"
  by (subst store_loop.simps) simp

lemma store_loop_step:
  fixes oh :: output_handler
  assumes "push < length buff" and "length buff < 2 ^ 31" and "hash_buffer_curr oh < HASH_BUFFER_SIZE"
    and n: "n = min (HASH_BUFFER_SIZE - hash_buffer_curr oh) (length buff - push)"
    and oh1: "oh1 = oh\<lparr>hash_buffer :=
        memcpy_list (hash_buffer oh) (hash_buffer_curr oh) (take n (drop push buff)),
      hash_buffer_curr := hash_buffer_curr oh + n\<rparr>"
  shows "store_loop h oh buff push r =
    (if hash_buffer_curr oh1 = HASH_BUFFER_SIZE
     then do { (h2, oh2, r') \<leftarrow> flush_buffer h oh1 r; store_loop h2 oh2 buff (push + n) r' }
     else store_loop h oh1 buff (push + n) r)"
proof -
  have "to_int32 (int (length buff) - int push) = int (length buff - push)"
    using assms(1,2) to_int32_id [of "int (length buff - push)"] by (simp add: of_nat_diff)
  then have m: "min (int HASH_BUFFER_SIZE - int (hash_buffer_curr oh)) (to_int32 (int (length buff) - int push)) = int n"
    using assms(3) by (simp add: n of_nat_diff [symmetric] of_nat_min [symmetric] del: of_nat_diff)
  show ?thesis
    by (subst store_loop.simps) (simp only: assms(1) if_True Let_def m oh1 nat_int, simp)
qed

text \<open>One iteration of the loop, whether it fills the buffer or not.\<close>

lemma store_loop_iter:
  assumes r: "hrel h oh s xs" and len: "length buff < 2 ^ 31" and lt: "push < length buff"
    and av: "2 \<le> avail h" and sz: "Suc (length s) < 2 ^ 64"
  shows "\<exists>t h1 oh1 xs1. store_loop h oh buff push r = store_loop h1 oh1 buff (push + length t) (r +
      (int (length (s @ t) div HASH_BUFFER_SIZE) - int (length s div HASH_BUFFER_SIZE))) \<and>
    hrel h1 oh1 (s @ t) xs1 \<and> frames h xs h1 xs1 \<and> avail h \<le> avail h1 + 2 \<and>
    drop push buff = t @ drop (push + length t) buff \<and> 0 < length t \<and> push + length t \<le> length buff"
proof -
  define n where "n = min (HASH_BUFFER_SIZE - hash_buffer_curr oh) (length buff - push)"
  define t where "t = take n (drop push buff)"
  have cur: "hash_buffer_curr oh < HASH_BUFFER_SIZE" "hash_buffer_curr oh = length s mod HASH_BUFFER_SIZE"
    using r by (simp_all add: hrel_def)
  have n: "0 < n" "push + n \<le> length buff" "length t = n" "hash_buffer_curr oh + n \<le> HASH_BUFFER_SIZE"
    using lt cur(1) by (auto simp: n_def t_def)
  have dr: "drop push buff = t @ drop (push + n) buff"
    by (simp add: t_def add.commute [of push n] flip: drop_drop)
  let ?oh = "oh\<lparr>hash_buffer := memcpy_list (hash_buffer oh) (hash_buffer_curr oh) t,
                hash_buffer_curr := hash_buffer_curr oh + length t\<rparr>"
  note step = store_loop_step [OF lt len cur(1) n_def refl, of h r]
  show ?thesis
  proof (cases "hash_buffer_curr oh + length t = HASH_BUFFER_SIZE")
    case True
    then obtain h1 oh1 xs1 where f: "flush_buffer h ?oh r = Some (h1, oh1, r + 1)"
        "hrel h1 oh1 (s @ t) xs1" "frames h xs h1 xs1" "avail h1 + 2 = avail h"
      using hrel_flush [OF r True av sz, of r] unfolding True by blast
    have d: "int (length (s @ t) div HASH_BUFFER_SIZE) - int (length s div HASH_BUFFER_SIZE) = 1"
      using stream_hashes_flush(2) [of s t] True cur(2) by simp
    have "store_loop h oh buff push r = store_loop h1 oh1 buff (push + length t) (r + 1)"
      using step f(1) True n(3) unfolding t_def [symmetric] by simp
    then show ?thesis
      using f(2-4) dr n
      by (intro exI [of _ t] exI [of _ h1] exI [of _ oh1] exI [of _ xs1]) (simp only: d, simp)
  next
    case False
    then have sm: "hash_buffer_curr oh + length t < HASH_BUFFER_SIZE" using n by simp
    have "heap_ok h" using r by (auto simp: hrel_def dll_def)
    moreover have "length (s @ t) div HASH_BUFFER_SIZE = length s div HASH_BUFFER_SIZE"
      using stream_hashes_no_flush(2) [of s t] sm cur(2) by simp
    moreover have "store_loop h oh buff push r = store_loop h ?oh buff (push + length t) r"
      using step False n(3) unfolding t_def [symmetric] by simp
    ultimately show ?thesis
      using hrel_copy [OF r sm] frames_refl [of h xs] dr n
      by (intro exI [of _ t] exI [of _ h] exI [of _ ?oh] exI [of _ xs]) (simp only: diff_self add_0_right le_add1)
  qed
qed

lemma store_loop_ok:
  assumes "hrel h oh s xs" and "length buff < 2 ^ 31" and "push \<le> length buff"
    and "2 * (length buff - push) \<le> avail h" and "Suc (length s + (length buff - push)) < 2 ^ 64"
  shows "\<exists>h' oh' xs'. store_loop h oh buff push r = Some (h', oh', r +
      (int (length (s @ drop push buff) div HASH_BUFFER_SIZE) - int (length s div HASH_BUFFER_SIZE))) \<and>
    hrel h' oh' (s @ drop push buff) xs' \<and> frames h xs h' xs' \<and>
    avail h \<le> avail h' + 2 * (length buff - push)"
  using assms
proof (induction "length buff - push" arbitrary: h oh s xs push r rule: less_induct)
  case less
  note r = less.prems(1)
  show ?case
  proof (cases "push < length buff")
    case False
    have "heap_ok h" using r by (auto simp: hrel_def dll_def)
    then show ?thesis
      using less.prems frames_refl [of h xs] False by (auto simp: store_loop_done)
  next
    case True
    then have av: "2 \<le> avail h" and sz: "Suc (length s) < 2 ^ 64" using less.prems(4,5) by linarith+
    from store_loop_iter [OF r less.prems(2) True av sz, of r] obtain t h1 oh1 xs1 where it:
        "store_loop h oh buff push r = store_loop h1 oh1 buff (push + length t) (r +
          (int (length (s @ t) div HASH_BUFFER_SIZE) - int (length s div HASH_BUFFER_SIZE)))"
        "hrel h1 oh1 (s @ t) xs1" "frames h xs h1 xs1" "avail h \<le> avail h1 + 2"
        "drop push buff = t @ drop (push + length t) buff" "0 < length t" "push + length t \<le> length buff"
      by blast
    let ?p = "push + length t"
    have side: "length buff - ?p < length buff - push" "2 * (length buff - ?p) \<le> avail h1"
        "Suc (length (s @ t) + (length buff - ?p)) < 2 ^ 64"
      using it(4,6,7) less.prems(4,5) True by (linarith, linarith, simp)
    let ?r = "r + (int (length (s @ t) div HASH_BUFFER_SIZE) - int (length s div HASH_BUFFER_SIZE))"
    from less.hyps [OF side(1) it(2) less.prems(2) it(7) side(2,3), of ?r] obtain h2 oh2 xs2 where ih:
        "store_loop h1 oh1 buff ?p ?r = Some (h2, oh2, ?r +
          (int (length ((s @ t) @ drop ?p buff) div HASH_BUFFER_SIZE) - int (length (s @ t) div HASH_BUFFER_SIZE)))"
        "hrel h2 oh2 ((s @ t) @ drop ?p buff) xs2" "frames h1 xs1 h2 xs2"
        "avail h1 \<le> avail h2 + 2 * (length buff - ?p)"
      by blast
    have "avail h \<le> avail h2 + 2 * (length buff - push)" using ih(4) it(4,6,7) by linarith
    then show ?thesis
      using it(1,5) ih(1,2) frames_trans [OF it(3) ih(3)] by auto
  qed
qed

section \<open>The refinement\<close>

text \<open>
  \<open>out_rel st S\<close>: the manager is not freed, every valid descriptor without a handler has the
  empty stream, every handler has seen the stream of its descriptor, and the hash lists of
  different descriptors do not share nodes.
\<close>

definition valid_fd :: "int \<Rightarrow> bool" where
  "valid_fd fd \<longleftrightarrow> 0 \<le> fd \<and> fd < int MAX_FD_SIZE"

definition table :: "out_state \<Rightarrow> fd_table" where
  "table st = (case inner_output_mgr st of MLive t \<Rightarrow> t | _ \<Rightarrow> (\<lambda>_. None))"

definition handler_rel :: "u64 heap \<Rightarrow> output_handler option \<Rightarrow> u8 list \<Rightarrow> (ptr \<times> u64) list \<Rightarrow> bool" where
  "handler_rel h oh s xs \<longleftrightarrow> (case oh of None \<Rightarrow> s = [] \<and> xs = [] | Some oh \<Rightarrow> hrel h oh s xs)"

definition out_nodes :: "out_state \<Rightarrow> (int \<Rightarrow> u8 list) \<Rightarrow> (int \<Rightarrow> (ptr \<times> u64) list) \<Rightarrow> bool" where
  "out_nodes st S N \<longleftrightarrow> inner_output_mgr st \<noteq> MFreed \<and> heap_ok (oheap st) \<and>
     (\<forall>fd. valid_fd fd \<longrightarrow> handler_rel (oheap st) (table st fd) (S fd) (N fd)) \<and>
     (\<forall>fd fd'. valid_fd fd \<longrightarrow> valid_fd fd' \<longrightarrow> fd \<noteq> fd' \<longrightarrow> ptrs (N fd) \<inter> ptrs (N fd') = {})"

definition out_rel :: "out_state \<Rightarrow> (int \<Rightarrow> u8 list) \<Rightarrow> bool" where
  "out_rel st S \<longleftrightarrow> (\<exists>N. out_nodes st S N)"

lemma hrel_frames:
  "hrel h oh s ys \<Longrightarrow> frames h xs h' xs' \<Longrightarrow> ptrs ys \<inter> ptrs xs = {} \<Longrightarrow>
     hrel h' oh s ys \<and> ptrs ys \<inter> ptrs xs' = {}"
  unfolding hrel_def using framesD by blast

lemma handler_rel_frames:
  "handler_rel h oh s ys \<Longrightarrow> frames h xs h' xs' \<Longrightarrow> ptrs ys \<inter> ptrs xs = {} \<Longrightarrow>
     handler_rel h' oh s ys \<and> ptrs ys \<inter> ptrs xs' = {}"
  by (cases oh) (auto simp: handler_rel_def dest: hrel_frames)

text \<open>Changing the handler of one descriptor: the others are framed.\<close>

lemma out_nodes_update:
  assumes "out_nodes st S N" and v: "valid_fd fd" and fr: "frames (oheap st) (N fd) h' xs'"
    and new: "handler_rel h' oh s xs'"
    and st': "inner_output_mgr st' = MLive ((table st)(fd := oh))" "oheap st' = h'"
  shows "out_nodes st' (S(fd := s)) (N(fd := xs'))"
proof -
  have "handler_rel h' (table st g) (S g) (N g) \<and> ptrs (N g) \<inter> ptrs xs' = {}" if "g \<noteq> fd" "valid_fd g" for g
    using assms(1) that v by (intro handler_rel_frames [OF _ fr]) (auto simp: out_nodes_def)
  moreover have "heap_ok h'" using fr by (simp add: frames_def)
  moreover have "table st' = (table st)(fd := oh)" using st' by (simp add: table_def)
  ultimately show ?thesis
    using assms(1) new st' unfolding out_nodes_def
    by (auto simp: Int_commute)
qed

lemma hrel_empty:
  "heap_ok h \<Longrightarrow> hrel h \<lparr>oh_fd = fd, oh_count = 0, output_list = Some \<lparr>l_head = 0, l_tail = 0, l_dup = None,
      l_free = True, l_match = None, l_len = 0\<rparr>, oh_hash = 0, hash_buffer = replicate HASH_BUFFER_SIZE 0,
      hash_buffer_curr = 0, called_cnt = 0\<rparr> [] []"
  by (simp add: hrel_def dll_def stream_hashes_def)

lemma get_output_mgr_ok:
  assumes "out_nodes st S N" and "0 < avail (oheap st)"
  shows "\<exists>t. inner_output_mgr (get_output_mgr st) = MLive t \<and> t = table st \<and>
    out_nodes (get_output_mgr st) S N \<and> avail (oheap st) \<le> avail (oheap (get_output_mgr st)) + 1"
proof (cases "inner_output_mgr st")
  case MNull
  let ?h = "(oheap st)\<lparr>brk := Suc (brk (oheap st)), avail := avail (oheap st) - 1\<rparr>"
  have ok: "heap_ok (oheap st)" using assms by (simp add: out_nodes_def)
  then have g: "get_output_mgr st = st\<lparr>inner_output_mgr := MLive (\<lambda>_. None), oheap := ?h\<rparr>"
    using MNull assms(2) by (simp add: get_output_mgr_def alloc_hdr_def heap_ok_def)
  have "handler_rel ?h None s xs \<longleftrightarrow> handler_rel (oheap st) None s xs" for s xs
    by (simp add: handler_rel_def)
  then show ?thesis
    using assms MNull ok unfolding g out_nodes_def by (auto simp: table_def)
next
  case (MLive t)
  then show ?thesis using assms by (simp add: get_output_mgr_def table_def)
next
  case MFreed
  then show ?thesis using assms by (simp add: out_nodes_def)
qed

lemma new_output_handler_ok:
  assumes ok: "heap_ok h" and av: "2 \<le> avail h"
  shows "\<exists>h' oh. new_output_handler h fd = Some (h', oh) \<and> hrel h' oh [] [] \<and>
    frames h [] h' [] \<and> avail h = avail h' + 2 \<and> called_cnt oh = 0"
proof -
  let ?h1 = "h\<lparr>brk := Suc (brk h), avail := avail h - 1\<rparr>"
  let ?h2 = "?h1\<lparr>brk := Suc (brk ?h1), avail := avail ?h1 - 1\<rparr>"
  have ok1: "heap_ok ?h1" by (rule heap_ok_grant [OF ok])
  have fr: "frames h [] ?h2 []"
    by (rule frames_trans [OF frames_alloc [OF ok] frames_alloc [OF ok1]])
  have a: "alloc_hdr h = (?h1, brk h)" "alloc_hdr ?h1 = (?h2, brk ?h1)" "brk h \<noteq> 0" "brk ?h1 \<noteq> 0"
    using ok av by (simp_all add: alloc_hdr_def heap_ok_def)
  show ?thesis
    using fr hrel_empty [OF heap_ok_grant [OF ok1]] av
    by (simp only: new_output_handler_def listCreate_def a prod.case if_False option.case)
      (intro exI conjI, rule refl, simp_all)
qed

definition calls :: "out_state \<Rightarrow> int \<Rightarrow> int" where
  "calls st fd = (case table st fd of None \<Rightarrow> 0 | Some oh \<Rightarrow> called_cnt oh)"

lemma get_output_handler_ok:
  assumes o: "out_nodes st S N" and v: "valid_fd fd" and av: "3 \<le> avail (oheap st)"
  shows "\<exists>st1 oh. get_output_handler_by_fd st fd = Some (st1, Some oh) \<and>
    inner_output_mgr st1 = MLive (table st1) \<and> table st1 fd = Some oh \<and>
    out_nodes st1 S N \<and> hrel (oheap st1) oh (S fd) (N fd) \<and> avail (oheap st) \<le> avail (oheap st1) + 3 \<and>
    called_cnt oh = calls st fd"
proof -
  let ?g = "get_output_mgr st"
  from get_output_mgr_ok [OF o] av obtain t where t: "inner_output_mgr ?g = MLive t"
      "out_nodes ?g S N" "avail (oheap st) \<le> avail (oheap ?g) + 1" "t = table st"
    by fastforce
  have tg: "table ?g = t" using t(1) by (simp add: table_def)
  have fd: "\<not> fd \<ge> int MAX_FD_SIZE" "\<not> fd < 0" using v by (auto simp: valid_fd_def)
  have hr: "handler_rel (oheap ?g) (t fd) (S fd) (N fd)" and ok: "heap_ok (oheap ?g)"
    using t(2) v by (simp_all add: out_nodes_def flip: tg)
  show ?thesis
  proof (cases "t fd")
    case (Some oh)
    then have "get_output_handler_by_fd st fd = Some (?g, Some oh)"
      using t(1) fd by (simp add: get_output_handler_by_fd_def)
    moreover have "called_cnt oh = calls st fd" using Some by (simp add: calls_def flip: t(4))
    ultimately show ?thesis
      using t(1,2,3) hr Some
      by (intro exI [of _ ?g] exI [of _ oh]) (simp add: handler_rel_def tg)
  next
    case None
    have e: "S fd = []" "N fd = []" using hr None by (simp_all add: handler_rel_def)
    obtain h2 oh where n: "new_output_handler (oheap ?g) fd = Some (h2, oh)" "hrel h2 oh [] []"
        "frames (oheap ?g) [] h2 []" "avail (oheap ?g) = avail h2 + 2" "called_cnt oh = 0"
      using new_output_handler_ok [OF ok, of fd] av t(3) by auto
    let ?st = "?g\<lparr>inner_output_mgr := MLive (t(fd \<mapsto> oh)), oheap := h2\<rparr>"
    have "out_nodes ?st (S(fd := [])) (N(fd := []))"
      using tg n e(2) by (intro out_nodes_update [OF t(2) v]) (simp_all add: handler_rel_def)
    then have "out_nodes ?st S N" using e by (simp add: fun_upd_idem)
    moreover have "get_output_handler_by_fd st fd = Some (?st, Some oh)"
      using t(1) fd None n(1) by (simp add: get_output_handler_by_fd_def)
    ultimately show ?thesis
      using n(2,4,5) e t(3,4) None by (intro exI [of _ ?st] exI [of _ oh]) (simp add: table_def calls_def)
  qed
qed

lemma put_handler_ok:
  assumes o: "out_nodes st S N" and v: "valid_fd fd" and t: "inner_output_mgr st = MLive (table st)"
    and fr: "frames (oheap st) (N fd) h xs" and r: "hrel h oh s xs"
  shows "out_nodes (put_handler (st\<lparr>oheap := h\<rparr>) fd oh) (S(fd := s)) (N(fd := xs)) \<and>
    oheap (put_handler (st\<lparr>oheap := h\<rparr>) fd oh) = h \<and>
    table (put_handler (st\<lparr>oheap := h\<rparr>) fd oh) = (table st)(fd \<mapsto> oh)"
proof -
  have p: "put_handler (st\<lparr>oheap := h\<rparr>) fd oh
      = st\<lparr>oheap := h, inner_output_mgr := MLive ((table st)(fd \<mapsto> oh))\<rparr>"
    using t by (simp add: put_handler_def)
  have "out_nodes (st\<lparr>oheap := h, inner_output_mgr := MLive ((table st)(fd \<mapsto> oh))\<rparr>)
      (S(fd := s)) (N(fd := xs))"
    by (rule out_nodes_update [OF o v fr, where oh = "Some oh"]) (simp_all add: handler_rel_def r)
  then show ?thesis unfolding p by (simp add: table_def)
qed

lemma store_output_ok:
  assumes "out_rel st S" and v: "valid_fd fd" and len: "length buff < 2 ^ 31"
    and av: "3 + 2 * length buff \<le> avail (oheap st)" and sz: "Suc (length (S fd) + length buff) < 2 ^ 64"
  shows "\<exists>st'. store_output st fd buff = Some (st',
      int (length (S fd @ buff) div HASH_BUFFER_SIZE) - int (length (S fd) div HASH_BUFFER_SIZE)) \<and>
    out_rel st' (S(fd := S fd @ buff)) \<and> avail (oheap st) \<le> avail (oheap st') + (3 + 2 * length buff)"
proof (cases "buff = []")
  case True
  then show ?thesis using assms by (simp add: store_output_def)
next
  case False
  obtain N where o: "out_nodes st S N" using assms(1) by (auto simp: out_rel_def)
  have "3 \<le> avail (oheap st)" using av by simp
  from get_output_handler_ok [OF o v this] obtain st1 oh where g:
      "get_output_handler_by_fd st fd = Some (st1, Some oh)" "inner_output_mgr st1 = MLive (table st1)"
      "out_nodes st1 S N" "hrel (oheap st1) oh (S fd) (N fd)" "avail (oheap st) \<le> avail (oheap st1) + 3"
    by blast
  from store_loop_ok [OF g(4) len le0, of 0] obtain h oh' xs where l:
      "store_loop (oheap st1) oh buff 0 0 = Some (h, oh', 0 +
        (int (length (S fd @ drop 0 buff) div HASH_BUFFER_SIZE) - int (length (S fd) div HASH_BUFFER_SIZE)))"
      "hrel h oh' (S fd @ drop 0 buff) xs" "frames (oheap st1) (N fd) h xs"
      "avail (oheap st1) \<le> avail h + 2 * (length buff - 0)"
    using av g(5) sz by auto
  note p = put_handler_ok [OF g(3) v g(2) l(3) l(2)]
  show ?thesis
    using p l(1,4) g(1,5) False by (auto simp: store_output_def out_rel_def)
qed

lemma get_val_loop_ok:
  "dseg (cells h) b xs 0 \<Longrightarrow> get_val_loop h (forward (first_ptr xs 0)) index cnt =
     Some (if cnt \<le> index \<and> index < cnt + int (length xs) then snd (xs ! nat (index - cnt)) else 0)"
proof (induction xs arbitrary: b cnt)
  case Nil
  then show ?case by (subst get_val_loop.simps) auto
next
  case (Cons x xs)
  obtain p v where x: "x = (p, v)" by (cases x)
  have ih: "get_val_loop h (forward (first_ptr xs 0)) index (cnt + 1) = Some
      (if cnt + 1 \<le> index \<and> index < cnt + 1 + int (length xs) then snd (xs ! nat (index - (cnt + 1))) else 0)"
    using Cons x by auto
  have "nat (index - cnt) = Suc (nat (index - (cnt + 1)))" if "cnt + 1 \<le> index" using that by simp
  with Cons.prems x ih show ?case
    by (subst get_val_loop.simps) (auto simp: listNext_node)
qed

lemma get_output_hash_ok:
  assumes "out_rel st S" and v: "valid_fd fd" and av: "3 \<le> avail (oheap st)"
  shows "\<exists>st'. get_output_hash st fd i = Some (st',
      if 0 \<le> i \<and> i < int (length (S fd) div HASH_BUFFER_SIZE) then stream_hashes (S fd) ! nat i else 0) \<and>
    out_rel st' S \<and> avail (oheap st) \<le> avail (oheap st') + 3"
proof -
  obtain N where o: "out_nodes st S N" using assms(1) by (auto simp: out_rel_def)
  from get_output_handler_ok [OF o v av] obtain st1 oh where g:
      "get_output_handler_by_fd st fd = Some (st1, Some oh)"
      "out_nodes st1 S N" "hrel (oheap st1) oh (S fd) (N fd)" "avail (oheap st) \<le> avail (oheap st1) + 3"
    by blast
  obtain l where l: "output_list oh = Some l" "dll (oheap st1) l (N fd)" using g(3) by (auto simp: hrel_def)
  have len: "length (N fd) = length (S fd) div HASH_BUFFER_SIZE" by (rule hrel_length [OF g(3)])
  have "get_val_by_index (oheap st1) l i =
      Some (if 0 \<le> i \<and> i < int (length (N fd)) then snd (N fd ! nat i) else 0)"
    using get_val_loop_ok [of "oheap st1" 0 "N fd" i 0] l(2)
    by (simp add: get_val_by_index_def listRewind_forward dll_def)
  moreover have "snd (N fd ! nat i) = stream_hashes (S fd) ! nat i" if "0 \<le> i" "i < int (length (N fd))"
    using g(3) that by (metis hrel_def nat_less_iff nth_map)
  moreover have "oh_count oh = int (length (N fd))" using g(3) len by (simp add: hrel_def)
  ultimately show ?thesis
    using g l(1) len by (auto simp: get_output_hash_def out_rel_def)
qed

lemma frames_all_freed:
  fixes l :: "(u64, unit) alist"
  assumes "all_freed h l xs h'" and "heap_ok h"
  shows "frames h xs h' []"
  unfolding frames_def
proof (intro conjI allI impI)
  show "heap_ok h'" by (rule all_freed_heap_ok [OF assms(2,1)])
next
  fix m :: "(u64, unit) alist" and ys
  assume "dll h m ys" "ptrs ys \<inter> ptrs xs = {}"
  then show "dll h' m ys" by (rule dll_all_freed [OF _ assms(1)])
qed simp

lemma release_handler_ok:
  assumes "hrel h oh s xs"
  shows "\<exists>l h'. output_list oh = Some l \<and> listRelease h l = Some h' \<and> frames h xs h' [] \<and> avail h' = avail h \<and>
    released h' = released h @ stream_hashes s"
proof -
  obtain l where l: "output_list oh = Some l" "dll h l xs" "l_free l" "map snd xs = stream_hashes s"
    using assms by (auto simp: hrel_def)
  from listRelease_ok [OF l(2)] obtain h' where h: "listRelease h l = Some h'" "all_freed h l xs h'" by blast
  moreover have "frames h xs h' []" using frames_all_freed [OF h(2)] l(2) by (simp add: dll_def)
  ultimately show ?thesis using l by (auto simp: all_freed_def)
qed

lemma del_output_ok:
  assumes "out_rel st S" and v: "valid_fd fd" and av: "0 < avail (oheap st)"
  shows "\<exists>st'. del_output st fd = Some (st', 0) \<and> out_rel st' (S(fd := [])) \<and> table st' fd = None"
proof -
  obtain N where o: "out_nodes st S N" using assms(1) by (auto simp: out_rel_def)
  let ?g = "get_output_mgr st"
  from get_output_mgr_ok [OF o av] obtain t where t: "inner_output_mgr ?g = MLive t" "t = table ?g"
      "out_nodes ?g S N"
    by (auto simp: table_def)
  have fd: "\<not> fd \<ge> int MAX_FD_SIZE" "\<not> fd < 0" using v by (auto simp: valid_fd_def)
  have hr: "handler_rel (oheap ?g) (t fd) (S fd) (N fd)" using t v by (simp add: out_nodes_def)
  show ?thesis
  proof (cases "t fd")
    case None
    then have "S(fd := []) = S" using hr by (simp add: handler_rel_def fun_upd_idem)
    then show ?thesis
      using t fd None by (auto simp: del_output_def del_output_handler_by_fd_def out_rel_def)
  next
    case (Some oh)
    then obtain l h where h: "output_list oh = Some l" "listRelease (oheap ?g) l = Some h"
        "frames (oheap ?g) (N fd) h []"
      using hr release_handler_ok [of "oheap ?g" oh "S fd" "N fd"] by (auto simp: handler_rel_def)
    let ?st = "?g\<lparr>inner_output_mgr := MLive (t(fd := None)), oheap := h\<rparr>"
    have "out_nodes ?st (S(fd := [])) (N(fd := []))"
      by (rule out_nodes_update [OF t(3) v h(3), where oh = None]) (simp_all add: handler_rel_def t(2))
    moreover have "del_output st fd = Some (?st, 0)"
      using t(1) fd Some h by (simp add: del_output_def del_output_handler_by_fd_def)
    ultimately show ?thesis by (auto simp: out_rel_def table_def)
  qed
qed

lemma hrel_called: "hrel h (oh\<lparr>called_cnt := c\<rparr>) s xs = hrel h oh s xs"
  by (simp add: hrel_def)

lemma determine_output_ok:
  assumes "out_rel st S" and v: "valid_fd fd" and av: "3 \<le> avail (oheap st)"
  shows "\<exists>st'. determine_output st fd = Some (st',
      if (calls st fd + 1) mod CHECK_PERIOD = 0 \<and> CHECK_GOBACK \<le> int (length (S fd) div HASH_BUFFER_SIZE)
      then int (length (S fd) div HASH_BUFFER_SIZE) - CHECK_GOBACK else - 1) \<and>
    out_rel st' S \<and> calls st' fd = calls st fd + 1 \<and> avail (oheap st) \<le> avail (oheap st') + 3"
proof -
  obtain N where o: "out_nodes st S N" using assms(1) by (auto simp: out_rel_def)
  from get_output_handler_ok [OF o v av] obtain st1 oh where g:
      "get_output_handler_by_fd st fd = Some (st1, Some oh)" "inner_output_mgr st1 = MLive (table st1)"
      "out_nodes st1 S N" "hrel (oheap st1) oh (S fd) (N fd)" "avail (oheap st) \<le> avail (oheap st1) + 3"
      and c: "called_cnt oh = calls st fd"
    by blast
  let ?oh = "oh\<lparr>called_cnt := called_cnt oh + 1\<rparr>"
  have "hrel (oheap st1) ?oh (S fd) (N fd)" using g(4) by (simp only: hrel_called)
  moreover have "frames (oheap st1) (N fd) (oheap st1) (N fd)" using g(3) by (simp add: frames_refl out_nodes_def)
  ultimately have p: "out_nodes (put_handler st1 fd ?oh) S N" "table (put_handler st1 fd ?oh) fd = Some ?oh"
      "oheap (put_handler st1 fd ?oh) = oheap st1"
    using put_handler_ok [OF g(3) v g(2), of "oheap st1" "N fd" ?oh "S fd"] by (simp_all add: fun_upd_idem)
  have "oh_count oh = int (length (S fd) div HASH_BUFFER_SIZE)" using g(4) by (simp add: hrel_def)
  then show ?thesis
    using p g(1,5) c by (auto simp: determine_output_def out_rel_def calls_def Let_def)
qed

section \<open>Shutting down\<close>

lemma deinit_fd_loop_ok:
  assumes "out_nodes st S N" and "inner_output_mgr st = MLive t"
    and "\<forall>i \<in> set is. i < MAX_FD_SIZE" and "distinct is"
  shows "\<exists>h. deinit_fd_loop is (oheap st) t cnt =
    Some (h, \<lambda>fd. if fd \<in> int ` set is then None else t fd,
          cnt + int (length (filter (\<lambda>i. t (int i) \<noteq> None) is)))"
  using assms
proof (induction "is" arbitrary: st S N t cnt)
  case Nil
  then show ?case by simp
next
  case (Cons i "is")
  have v: "valid_fd (int i)" using Cons.prems(3) by (simp add: valid_fd_def)
  have tb: "table st = t" using Cons.prems(2) by (simp add: table_def)
  have hr: "handler_rel (oheap st) (t (int i)) (S (int i)) (N (int i))"
    using Cons.prems(1) v by (simp add: out_nodes_def flip: tb)
  show ?case
  proof (cases "t (int i)")
    case None
    then have "(\<lambda>fd. if fd \<in> int ` set is then None else t fd)
        = (\<lambda>fd. if fd \<in> int ` set (i # is) then None else t fd)" by auto
    with Cons.IH [OF Cons.prems(1,2), of cnt] Cons.prems(3,4) None show ?thesis by simp
  next
    case (Some oh)
    then obtain l h where h: "output_list oh = Some l" "listRelease (oheap st) l = Some h"
        "frames (oheap st) (N (int i)) h []"
      using hr release_handler_ok [of "oheap st" oh "S (int i)" "N (int i)"] by (auto simp: handler_rel_def)
    let ?t = "t(int i := None)"
    let ?st = "st\<lparr>inner_output_mgr := MLive ?t, oheap := h\<rparr>"
    have nodes: "out_nodes ?st (S(int i := [])) (N(int i := []))"
      by (rule out_nodes_update [OF Cons.prems(1) v h(3), where oh = None])
        (simp_all add: handler_rel_def tb)
    have heap: "oheap ?st = h" by simp
    have "inner_output_mgr ?st = MLive ?t" "\<forall>i \<in> set is. i < MAX_FD_SIZE" "distinct is"
      using Cons.prems(3,4) by simp_all
    from Cons.IH [OF nodes this, of "cnt + 1"] obtain h' where
        "deinit_fd_loop is h ?t (cnt + 1) = Some (h', \<lambda>fd. if fd \<in> int ` set is then None else ?t fd,
           cnt + 1 + int (length (filter (\<lambda>j. ?t (int j) \<noteq> None) is)))"
      unfolding heap by blast
    moreover have "filter (\<lambda>j. ?t (int j) \<noteq> None) is = filter (\<lambda>j. t (int j) \<noteq> None) is"
      using Cons.prems(4) by (intro filter_cong) auto
    moreover have "(\<lambda>fd. if fd \<in> int ` set is then None else ?t fd)
        = (\<lambda>fd. if fd \<in> int ` set (i # is) then None else t fd)" by auto
    ultimately show ?thesis using h Some by (simp add: delete_output_handler_def)
  qed
qed

lemma deinit_output_mgr_ok:
  assumes "out_rel st S" and "0 < avail (oheap st)"
  shows "\<exists>st'. deinit_output_mgr st = Some st' \<and> inner_output_mgr st' = MFreed"
proof -
  obtain N where o: "out_nodes st S N" using assms(1) by (auto simp: out_rel_def)
  let ?g = "get_output_mgr st"
  from get_output_mgr_ok [OF o assms(2)] obtain t where t: "inner_output_mgr ?g = MLive t" "out_nodes ?g S N"
    by blast
  have "\<exists>h t' n. deinit_fd_handler (oheap ?g) t = Some (h, t', n)"
    using deinit_fd_loop_ok [OF t(2,1), of "[0..<MAX_FD_SIZE]" 0] by (auto simp: deinit_fd_handler_def)
  with t(1) show ?thesis by (auto simp: deinit_output_mgr_def)
qed

section \<open>The interface to the consensus component\<close>

text \<open>
  What the other components rely on: output of a connection is a stream, storing appends to it,
  and the hash at an index is a function of the stream.
\<close>

locale output_log =
  fixes rel :: "'s \<Rightarrow> (int \<Rightarrow> 'b list) \<Rightarrow> bool"
    and valid :: "int \<Rightarrow> bool"
    and budget :: "'s \<Rightarrow> nat"
    and cost :: "'b list \<Rightarrow> nat"
    and limit :: nat
    and store :: "'s \<Rightarrow> int \<Rightarrow> 'b list \<Rightarrow> ('s \<times> int) option"
    and fetch :: "'s \<Rightarrow> int \<Rightarrow> int \<Rightarrow> ('s \<times> 'h) option"
    and hash_of :: "'b list \<Rightarrow> int \<Rightarrow> 'h"
  assumes store_rel: "rel s S \<Longrightarrow> valid fd \<Longrightarrow> length b < 2 ^ 31 \<Longrightarrow> cost b \<le> budget s \<Longrightarrow>
      length (S fd) + length b < limit \<Longrightarrow>
      \<exists>s' n. store s fd b = Some (s', n) \<and> rel s' (S(fd := S fd @ b)) \<and> budget s \<le> budget s' + cost b"
    and fetch_rel: "rel s S \<Longrightarrow> valid fd \<Longrightarrow> cost [] \<le> budget s \<Longrightarrow>
      \<exists>s'. fetch s fd i = Some (s', hash_of (S fd) i) \<and> rel s' S"
begin

fun store_all :: "'s \<Rightarrow> int \<Rightarrow> 'b list list \<Rightarrow> 's option" where
  "store_all s fd [] = Some s"
| "store_all s fd (b # bs) = (case store s fd b of None \<Rightarrow> None | Some (s', n) \<Rightarrow> store_all s' fd bs)"

lemma store_all_rel:
  "rel s S \<Longrightarrow> valid fd \<Longrightarrow> \<forall>b \<in> set bs. length b < 2 ^ 31 \<Longrightarrow> sum_list (map cost bs) + c \<le> budget s \<Longrightarrow>
     length (S fd) + length (concat bs) < limit \<Longrightarrow>
     \<exists>s'. store_all s fd bs = Some s' \<and> rel s' (S(fd := S fd @ concat bs)) \<and> c \<le> budget s'"
proof (induction bs arbitrary: s S)
  case Nil
  then show ?case by simp
next
  case (Cons b bs)
  have "length b < 2 ^ 31" "cost b \<le> budget s" "length (S fd) + length b < limit"
    using Cons.prems(3-5) by auto
  from store_rel [OF Cons.prems(1,2) this] obtain s1 n where s1: "store s fd b = Some (s1, n)"
      "rel s1 (S(fd := S fd @ b))" "budget s \<le> budget s1 + cost b"
    by blast
  have "sum_list (map cost bs) + c \<le> budget s1" using Cons.prems(4) s1(3) by simp
  moreover have "\<forall>b \<in> set bs. length b < 2 ^ 31"
      "length ((S(fd := S fd @ b)) fd) + length (concat bs) < limit"
    using Cons.prems(3,5) by simp_all
  ultimately obtain s' where
      "store_all s1 fd bs = Some s'" "rel s' (S(fd := S fd @ b @ concat bs))" "c \<le> budget s'"
    using Cons.IH [OF s1(2) Cons.prems(2)] unfolding fun_upd_upd fun_upd_same append_assoc by blast
  with s1(1) show ?case by (simp del: fun_upd_apply)
qed

text \<open>The hashes do not depend on how the stream was cut into writes.\<close>

lemma chunking:
  assumes "rel s S" "rel t T" and v: "valid fd" "valid fd'" and eq: "S fd @ concat bs = T fd' @ concat cs"
    and len: "\<forall>b \<in> set bs. length b < 2 ^ 31" "\<forall>b \<in> set cs. length b < 2 ^ 31"
    and bud: "sum_list (map cost bs) + cost [] \<le> budget s" "sum_list (map cost cs) + cost [] \<le> budget t"
    and lim: "length (S fd @ concat bs) < limit"
  shows "\<exists>s1 s2 t1 t2 x. store_all s fd bs = Some s1 \<and> fetch s1 fd i = Some (s2, x) \<and>
    store_all t fd' cs = Some t1 \<and> fetch t1 fd' i = Some (t2, x) \<and> x = hash_of (S fd @ concat bs) i"
proof -
  have lim': "length (T fd') + length (concat cs) < limit" using lim unfolding eq by simp
  obtain s1 where s1: "store_all s fd bs = Some s1" "rel s1 (S(fd := S fd @ concat bs))" "cost [] \<le> budget s1"
    using store_all_rel [OF assms(1) v(1) len(1) bud(1)] lim by auto
  obtain t1 where t1: "store_all t fd' cs = Some t1" "rel t1 (T(fd' := T fd' @ concat cs))" "cost [] \<le> budget t1"
    using store_all_rel [OF assms(2) v(2) len(2) bud(2) lim'] by auto
  show ?thesis
    using fetch_rel [OF s1(2) v(1) s1(3), of i] fetch_rel [OF t1(2) v(2) t1(3), of i] s1(1) t1(1) eq
    by auto
qed

end

definition stream_hash :: "u8 list \<Rightarrow> int \<Rightarrow> u64" where
  "stream_hash s i =
     (if 0 \<le> i \<and> i < int (length s div HASH_BUFFER_SIZE)
      then crc64 0 (take (HASH_BUFFER_SIZE * Suc (nat i)) s) else 0)"

lemma stream_hash_nth:
  "stream_hash s i =
     (if 0 \<le> i \<and> i < int (length s div HASH_BUFFER_SIZE) then stream_hashes s ! nat i else 0)"
proof -
  have "nat i < length s div HASH_BUFFER_SIZE" if "0 \<le> i" "i < int (length s div HASH_BUFFER_SIZE)"
    using that by linarith
  then show ?thesis by (simp add: stream_hash_def stream_hashes_def del: mult_Suc_right)
qed

interpretation ol: output_log out_rel valid_fd "\<lambda>st. avail (oheap st)" "\<lambda>b. 3 + 2 * length b" "2 ^ 64 - 1"
  store_output get_output_hash stream_hash
proof
  fix st S fd and b :: "u8 list"
  assume "out_rel st S" "valid_fd fd" "length b < 2 ^ 31" "3 + 2 * length b \<le> avail (oheap st)"
    "length (S fd) + length b < 2 ^ 64 - 1"
  with store_output_ok [of st S fd b]
  show "\<exists>s' n. store_output st fd b = Some (s', n) \<and> out_rel s' (S(fd := S fd @ b)) \<and>
      avail (oheap st) \<le> avail (oheap s') + (3 + 2 * length b)" by auto
next
  fix st S fd i
  assume "out_rel st S" "valid_fd fd" "3 + 2 * length ([] :: u8 list) \<le> avail (oheap st)"
  with get_output_hash_ok [of st S fd i]
  show "\<exists>s'. get_output_hash st fd i = Some (s', stream_hash (S fd) i) \<and> out_rel s' S"
    unfolding stream_hash_nth by auto
qed

section \<open>What the output log guarantees\<close>

definition out_init :: "nat \<Rightarrow> out_state" where
  "out_init a = \<lparr>inner_output_mgr = MNull, oheap = \<lparr>cells = Map.empty, brk = 1, avail = a, released = []\<rparr>\<rparr>"

lemma out_init_rel [simp]: "out_rel (out_init a) (\<lambda>_. [])" "avail (oheap (out_init a)) = a"
  by (auto simp: out_rel_def out_nodes_def out_init_def table_def handler_rel_def heap_ok_def intro!: exI [of _ "\<lambda>_. []"])

lemma out_init_calls: "calls (out_init a) fd = 0"
  by (simp add: calls_def table_def out_init_def)

text \<open>
  C7: Two output logs that were given the same byte stream on a connection hold the same hash
  values for it, however each of them received the stream cut into writes: the hash at index
  \<open>i\<close> is the CRC of the first \<open>i + 1\<close> blocks of 1024 bytes, and 0 when there are not so many.
  This is what makes the hash values of different replicas comparable.
\<close>

theorem output_hash_chunking:
  assumes "out_rel s S" and "out_rel t T" and "valid_fd fd" and "valid_fd fd'"
    and "S fd @ concat bs = T fd' @ concat cs"
    and "\<forall>b \<in> set bs. length b < 2 ^ 31" and "\<forall>b \<in> set cs. length b < 2 ^ 31"
    and "sum_list (map (\<lambda>b. 3 + 2 * length b) bs) + 3 \<le> avail (oheap s)"
    and "sum_list (map (\<lambda>b. 3 + 2 * length b) cs) + 3 \<le> avail (oheap t)"
    and "length (S fd @ concat bs) < 2 ^ 64 - 1"
  shows "\<exists>s1 s2 t1 t2 x. ol.store_all s fd bs = Some s1 \<and> get_output_hash s1 fd i = Some (s2, x) \<and>
    ol.store_all t fd' cs = Some t1 \<and> get_output_hash t1 fd' i = Some (t2, x) \<and>
    x = stream_hash (S fd @ concat bs) i"
  using assms by (intro ol.chunking) simp_all

theorem output_hash_chunking_witness:
  "\<exists>s1 s2 t1 t2 x.
     ol.store_all (out_init 4000) 7 [replicate 500 9, replicate 524 9] = Some s1 \<and>
     get_output_hash s1 7 0 = Some (s2, x) \<and>
     ol.store_all (out_init 4000) 8 [replicate 1024 9] = Some t1 \<and>
     get_output_hash t1 8 0 = Some (t2, x) \<and> x = crc64 0 (replicate 1024 9)"
proof -
  have e: "replicate 500 9 @ replicate 524 9 = (replicate 1024 9 :: u8 list)"
    by (simp flip: replicate_add)
  show ?thesis
    using output_hash_chunking [of "out_init 4000" "\<lambda>_. []" "out_init 4000" "\<lambda>_. []" 7 8
        "[replicate 500 9, replicate 524 9]" "[replicate 1024 9]" 0]
    by (simp add: e valid_fd_def MAX_FD_SIZE_def stream_hash_def HASH_BUFFER_SIZE_def)
qed

text \<open>
  C11: \<open>store_output\<close> with memory at hand ends without a fault, appends the bytes to the stream of
  the connection and of no other one, and returns how many blocks it completed.
\<close>

theorem store_output_correct:
  assumes "out_rel st S" and "valid_fd fd" and "length buff < 2 ^ 31"
    and "3 + 2 * length buff \<le> avail (oheap st)" and "Suc (length (S fd) + length buff) < 2 ^ 64"
  shows "\<exists>st'. store_output st fd buff = Some (st',
      int (length (S fd @ buff) div HASH_BUFFER_SIZE) - int (length (S fd) div HASH_BUFFER_SIZE)) \<and>
    out_rel st' (S(fd := S fd @ buff))"
  using store_output_ok [OF assms] by blast

theorem store_output_correct_witness:
  "\<exists>st'. store_output (out_init 9000) 3 (replicate 3000 1) = Some (st', 2) \<and>
     out_rel st' ((\<lambda>_. [])(3 := replicate 3000 1))"
  using store_output_correct [of "out_init 9000" "\<lambda>_. []" 3 "replicate 3000 1"]
  by (simp add: valid_fd_def MAX_FD_SIZE_def HASH_BUFFER_SIZE_def)

text \<open>
  C25: \<open>determine_output\<close> proposes a hash index on every tenth call for a connection that has at
  least five hash values, and the index it proposes is five behind the number of hash values,
  so \<open>get_output_hash\<close> at that index returns the CRC of the corresponding prefix of the stream.
\<close>

theorem determine_output_correct:
  assumes "out_rel st S" and "valid_fd fd" and "6 \<le> avail (oheap st)"
    and "n = int (length (S fd) div HASH_BUFFER_SIZE)"
  shows "\<exists>st' st'' r. determine_output st fd = Some (st', r) \<and> calls st' fd = calls st fd + 1 \<and>
    out_rel st' S \<and>
    (if (calls st fd + 1) mod 10 = 0 \<and> 5 \<le> n
     then r = n - 5 \<and> get_output_hash st' fd r
       = Some (st'', crc64 0 (take (HASH_BUFFER_SIZE * nat (n - 4)) (S fd)))
     else r = - 1)"
proof -
  let ?r = "if (calls st fd + 1) mod 10 = 0 \<and> 5 \<le> n then n - 5 else - 1"
  have "3 \<le> avail (oheap st)" using assms(3) by simp
  from determine_output_ok [OF assms(1,2) this] obtain st' where d: "determine_output st fd = Some (st', ?r)"
      "out_rel st' S" "calls st' fd = calls st fd + 1" "avail (oheap st) \<le> avail (oheap st') + 3"
    unfolding CHECK_PERIOD_def CHECK_GOBACK_def assms(4) [symmetric] by blast
  obtain st'' where "get_output_hash st' fd ?r = Some (st'', stream_hash (S fd) ?r)"
    using ol.fetch_rel [OF d(2) assms(2), of ?r] d(4) assms(3) by auto
  moreover have "Suc (nat (n - 5)) = nat (n - 4)" if "5 \<le> n" using that by simp
  ultimately show ?thesis
    using d assms(4)
    by (intro exI [of _ st'] exI [of _ st''] exI [of _ ?r]) (auto simp: stream_hash_def simp del: mult_Suc_right)
qed

theorem determine_output_correct_witness:
  "\<exists>st' st'' r. determine_output (out_init 6) 3 = Some (st', r) \<and> calls st' 3 = 1 \<and> r = - 1"
  using determine_output_correct [of "out_init 6" "\<lambda>_. []" 3 0]
  by (simp add: valid_fd_def MAX_FD_SIZE_def out_init_calls) blast



text \<open>
  C38: \<open>deinit_output_mgr\<close> releases every handler, but the singleton keeps pointing to the freed
  manager: every later \<open>store_output\<close> of a non-empty buffer on a descriptor below the limit is an
  access to freed memory.
\<close>

theorem deinit_output_mgr_dangles:
  assumes "out_rel st S" and "0 < avail (oheap st)" and "buff \<noteq> []" and "fd < int MAX_FD_SIZE"
  shows "\<exists>st'. deinit_output_mgr st = Some st' \<and> store_output st' fd buff = None"
proof -
  obtain st' where "deinit_output_mgr st = Some st'" "inner_output_mgr st' = MFreed"
    using deinit_output_mgr_ok [OF assms(1,2)] by blast
  then show ?thesis
    using assms(3,4) by (simp add: store_output_def get_output_handler_by_fd_def get_output_mgr_def)
qed

theorem deinit_output_mgr_dangles_witness:
  "\<exists>st'. deinit_output_mgr (out_init 4) = Some st' \<and> store_output st' 3 [1] = None"
  using deinit_output_mgr_dangles [of "out_init 4" "\<lambda>_. []" "[1]" 3] by (simp add: MAX_FD_SIZE_def)

end
