(* ===== verification/Decision.thy ===== *)
theory Decision
  imports Output
begin

text \<open>
  The decision of \<open>output/decision.c\<close>: given the hash values the replicas report for the same
  output index, decide which of them have to be restored, and send a restore command for each.
  The state is the log file of the decisions and the commands handed to threads. Whether the log
  file can be opened, whether a thread can be created, and how the guard's socket answers are
  parameters.
\<close>

record output_peer =
  p_leader_id :: u32
  p_node_id :: u32
  p_hash :: u64
  p_hash_index :: int
  p_fd :: int

datatype log_line =
    PeerLine u32 u32 u64 int
  | ZeroLine
  | D0Line
  | D1Line
  | D2Line u64
  | D3Line

record dec_state =
  fp :: bool
  fp_lines :: "log_line list"
  started :: "(u32 \<times> int) list"

section \<open>Counting\<close>

fun count_hash :: "output_peer list \<Rightarrow> u64 \<Rightarrow> nat" where
  "count_hash [] aim_hash = 0"
| "count_hash (p # ps) aim_hash = (if p_hash p = aim_hash then 1 else 0) + count_hash ps aim_hash"

fun major_count_loop :: "output_peer list \<Rightarrow> output_peer list \<Rightarrow> nat \<Rightarrow> u64 \<Rightarrow> nat \<times> u64" where
  "major_count_loop all [] max_cnt hash_ptr = (max_cnt, hash_ptr)"
| "major_count_loop all (p # ps) max_cnt hash_ptr =
     (let aim_hash = p_hash p;
          ret = count_hash all aim_hash
      in if ret > max_cnt then major_count_loop all ps ret aim_hash
         else major_count_loop all ps max_cnt hash_ptr)"

definition major_count_hash :: "output_peer list \<Rightarrow> u64 \<Rightarrow> nat \<times> u64" where
  "major_count_hash output_peers hash_ptr = major_count_loop output_peers output_peers 0 hash_ptr"

fun get_master_hash :: "output_peer list \<Rightarrow> u64" where
  "get_master_hash [] = 0"
| "get_master_hash (p # ps) =
     (if p_leader_id p = p_node_id p then p_hash p else get_master_hash ps)"

section \<open>Restoring\<close>

text \<open>Decimal output of \<open>sprintf\<close>.\<close>

fun dec_digits :: "nat \<Rightarrow> string" where
  "dec_digits n = (if n < 10 then [char_of (48 + n)] else dec_digits (n div 10) @ [char_of (48 + n mod 10)])"

declare dec_digits.simps [simp del]

definition dec_long :: "int \<Rightarrow> string" where
  "dec_long i = (if i < 0 then ''-'' @ dec_digits (nat (- i)) else dec_digits (nat i))"

definition restore_cmd :: "u32 \<Rightarrow> int \<Rightarrow> string" where
  "restore_cmd node_id hash_index =
     ''restore '' @ dec_digits (unat node_id) @ '' '' @ dec_long hash_index @ [char_of (10 :: nat)]"

record guard_sock =
  sock_exists :: bool
  sock_created :: bool
  sock_connects :: bool

text \<open>What the thread writes to the guard's socket; \<open>None\<close> when it gives up before that.\<close>

definition call_send_restore_cmd_start :: "guard_sock \<Rightarrow> (u32 \<times> int) option \<Rightarrow> string option" where
  "call_send_restore_cmd_start g para =
     (case para of
        None \<Rightarrow> None
      | Some (node_id, hash_index) \<Rightarrow>
          if \<not> sock_exists g then None
          else if \<not> sock_created g then None
          else if \<not> sock_connects g then None
          else Some (restore_cmd node_id hash_index))"

definition send_restore_cmd ::
    "(u32 \<Rightarrow> int \<Rightarrow> bool) \<Rightarrow> dec_state \<Rightarrow> u32 \<Rightarrow> int \<Rightarrow> dec_state \<times> int" where
  "send_restore_cmd creates st node_id hash_index =
     (if creates node_id hash_index
      then (st\<lparr>started := started st @ [(node_id, hash_index)]\<rparr>, 0)
      else (st, - 1))"

fun do_restore_loop ::
    "(u32 \<Rightarrow> int \<Rightarrow> bool) \<Rightarrow> dec_state \<Rightarrow> output_peer list \<Rightarrow> u64 \<Rightarrow> dec_state" where
  "do_restore_loop creates st [] aim_hash = st"
| "do_restore_loop creates st (p # ps) aim_hash =
     (if aim_hash = 0 \<or> p_hash p \<noteq> aim_hash
      then do_restore_loop creates (fst (send_restore_cmd creates st (p_node_id p) (p_hash_index p))) ps aim_hash
      else do_restore_loop creates st ps aim_hash)"

definition do_restore ::
    "(u32 \<Rightarrow> int \<Rightarrow> bool) \<Rightarrow> dec_state \<Rightarrow> output_peer list option \<Rightarrow> u64 \<Rightarrow> dec_state \<times> int" where
  "do_restore creates st output_peers aim_hash =
     (case output_peers of
        None \<Rightarrow> (st, - 1)
      | Some ps \<Rightarrow> if ps = [] then (st, - 1) else (do_restore_loop creates st ps aim_hash, 0))"

section \<open>The decision\<close>

definition fprintf :: "dec_state \<Rightarrow> log_line \<Rightarrow> dec_state" where
  "fprintf st line = st\<lparr>fp_lines := fp_lines st @ [line]\<rparr>"

fun zero_count_loop :: "dec_state \<Rightarrow> output_peer list \<Rightarrow> nat \<Rightarrow> dec_state \<times> nat" where
  "zero_count_loop st [] zero_count = (st, zero_count)"
| "zero_count_loop st (p # ps) zero_count =
     zero_count_loop (fprintf st (PeerLine (p_leader_id p) (p_node_id p) (p_hash p) (p_hash_index p))) ps
       (if p_hash p = 0 then zero_count + 1 else zero_count)"

definition do_decision ::
    "bool \<Rightarrow> (u32 \<Rightarrow> int \<Rightarrow> bool) \<Rightarrow> dec_state \<Rightarrow> output_peer list option \<Rightarrow> dec_state \<times> int" where
  "do_decision opens creates st output_peers =
     (case output_peers of
        None \<Rightarrow> (st, - 1)
      | Some ps \<Rightarrow>
          if ps = [] then (st, - 1)
          else if \<not> fp st \<and> \<not> opens then (st, - 1)
          else
            let st1 = st\<lparr>fp := True\<rparr>;
                group_size = length ps;
                master_hash = get_master_hash ps;
                (st2, zero_count) = zero_count_loop st1 ps 0
            in if zero_count \<noteq> 0 then (fprintf st2 ZeroLine, 0)
               else
                 let threshold = group_size div 2 + 1;
                     con_num = count_hash ps master_hash
                 in if con_num = group_size then (fprintf st2 D0Line, 0)
                    else if con_num \<ge> threshold
                    then (fst (do_restore creates (fprintf st2 D1Line) output_peers master_hash), 1)
                    else
                      let (major_cnt, major_hash) = major_count_hash ps 0
                      in if major_cnt \<ge> threshold
                         then (fst (do_restore creates (fprintf st2 (D2Line major_hash)) output_peers major_hash), 2)
                         else (fst (do_restore creates (fprintf st2 D3Line) output_peers 0), 3))"

section \<open>Lemmas\<close>

lemma count_hash_filter: "count_hash ps h = length (filter (\<lambda>p. p_hash p = h) ps)"
  by (induction ps) auto

lemma count_hash_le: "count_hash ps h \<le> length ps"
  by (simp add: count_hash_filter)

lemma count_hash_all: "count_hash ps h = length ps \<longleftrightarrow> (\<forall>p \<in> set ps. p_hash p = h)"
proof (induction ps)
  case (Cons p ps)
  then show ?case using count_hash_le [of ps h] by (simp; linarith)
qed simp

text \<open>Two hash values cannot both have a majority.\<close>

lemma count_hash_disjoint: "h \<noteq> h' \<Longrightarrow> count_hash ps h + count_hash ps h' \<le> length ps"
  by (induction ps) auto

lemma majority_unique:
  "length ps div 2 + 1 \<le> count_hash ps h \<Longrightarrow> length ps div 2 + 1 \<le> count_hash ps h' \<Longrightarrow> h = h'"
  using count_hash_disjoint [of h h' ps] by (cases "h = h'") auto

lemma major_count_loop_max:
  assumes "max_cnt = 0 \<or> max_cnt = count_hash all hash_ptr"
  shows "case major_count_loop all ps max_cnt hash_ptr of (m, h) \<Rightarrow>
    (m = 0 \<or> m = count_hash all h) \<and> max_cnt \<le> m \<and> (\<forall>p \<in> set ps. count_hash all (p_hash p) \<le> m)"
  using assms
proof (induction ps arbitrary: max_cnt hash_ptr)
  case Nil
  then show ?case by simp
next
  case (Cons p ps)
  show ?case
    using Cons.IH [of "count_hash all (p_hash p)" "p_hash p"] Cons.IH [OF Cons.prems]
    by (auto simp: Let_def split: prod.splits)
qed

lemma major_count_hash_max:
  assumes "major_count_hash ps h0 = (m, h)"
  shows "(m = 0 \<or> m = count_hash ps h) \<and> (\<forall>h'. count_hash ps h' \<le> m)"
proof -
  have m: "m = 0 \<or> m = count_hash ps h" "\<forall>p \<in> set ps. count_hash ps (p_hash p) \<le> m"
    using major_count_loop_max [of 0 ps h0 ps] assms by (auto simp: major_count_hash_def)
  have "count_hash ps h' \<le> m" for h'
  proof (cases "\<exists>p \<in> set ps. p_hash p = h'")
    case False
    then show ?thesis by (simp add: count_hash_filter)
  qed (use m(2) in blast)
  with m show ?thesis by blast
qed

lemma do_restore_loop_ok:
  "do_restore_loop creates st ps aim_hash = st\<lparr>started := started st @
     filter (\<lambda>(n, i). creates n i)
       (map (\<lambda>p. (p_node_id p, p_hash_index p)) (filter (\<lambda>p. aim_hash = 0 \<or> p_hash p \<noteq> aim_hash) ps))\<rparr>"
  by (induction ps arbitrary: st) (auto simp: send_restore_cmd_def)

lemma zero_count_loop_ok:
  "zero_count_loop st ps n = (st\<lparr>fp_lines := fp_lines st @
      map (\<lambda>p. PeerLine (p_leader_id p) (p_node_id p) (p_hash p) (p_hash_index p)) ps\<rparr>, n + count_hash ps 0)"
  by (induction ps arbitrary: st n) (auto simp: fprintf_def)

text \<open>
  The specification: the peers to restore are those that disagree with the hash of the majority,
  all of them when no hash has a majority, and none when a hash is missing.
\<close>

definition has_majority :: "output_peer list \<Rightarrow> u64 \<Rightarrow> bool" where
  "has_majority ps h \<longleftrightarrow> length ps < 2 * count_hash ps h"

definition to_restore :: "output_peer list \<Rightarrow> output_peer list" where
  "to_restore ps =
     (if \<exists>p \<in> set ps. p_hash p = 0 then []
      else filter (\<lambda>p. \<not> has_majority ps (p_hash p)) ps)"

lemma has_majority_threshold: "has_majority ps h \<longleftrightarrow> length ps div 2 + 1 \<le> count_hash ps h"
  by (auto simp: has_majority_def)

lemma filter_majority:
  assumes "has_majority ps h" and "h \<noteq> 0"
  shows "filter (\<lambda>p. h = 0 \<or> p_hash p \<noteq> h) ps = filter (\<lambda>p. \<not> has_majority ps (p_hash p)) ps"
  using assms majority_unique [of ps] by (intro filter_cong) (auto simp: has_majority_threshold)

lemma no_majority:
  assumes "major_count_hash ps h0 = (m, h)" and "\<not> length ps div 2 + 1 \<le> m"
  shows "\<not> has_majority ps h'"
  using major_count_hash_max [OF assms(1)] assms(2) le_trans unfolding has_majority_threshold by blast

lemma count_zero_iff: "count_hash ps 0 = 0 \<longleftrightarrow> (\<forall>p \<in> set ps. p_hash p \<noteq> 0)"
  by (auto simp: count_hash_filter filter_empty_conv)

lemma majority_nonzero: "has_majority ps h \<Longrightarrow> count_hash ps 0 = 0 \<Longrightarrow> h \<noteq> 0"
  by (auto simp: has_majority_def)

lemma do_decision_started:
  assumes "ps \<noteq> []" and "fp st \<or> opens"
  shows "started (fst (do_decision opens creates st (Some ps))) = started st @
    filter (\<lambda>(n, i). creates n i) (map (\<lambda>p. (p_node_id p, p_hash_index p)) (to_restore ps))"
proof -
  let ?m = "get_master_hash ps"
  obtain mc mh where mj: "major_count_hash ps 0 = (mc, mh)" by (cases "major_count_hash ps 0")
  note defs = do_decision_def do_restore_def do_restore_loop_ok zero_count_loop_ok fprintf_def mj Let_def
  show ?thesis
  proof (cases "count_hash ps 0 = 0")
    case False
    then show ?thesis using assms by (auto simp: defs to_restore_def count_zero_iff)
  next
    case True
    then have tr: "to_restore ps = filter (\<lambda>p. \<not> has_majority ps (p_hash p)) ps"
      by (auto simp: to_restore_def count_zero_iff)
    consider (d0) "count_hash ps ?m = length ps"
      | (d1) "count_hash ps ?m \<noteq> length ps" "length ps div 2 + 1 \<le> count_hash ps ?m"
      | (d2) "count_hash ps ?m \<noteq> length ps" "\<not> length ps div 2 + 1 \<le> count_hash ps ?m" "length ps div 2 + 1 \<le> mc"
      | (d3) "count_hash ps ?m \<noteq> length ps" "\<not> length ps div 2 + 1 \<le> count_hash ps ?m" "\<not> length ps div 2 + 1 \<le> mc"
      by blast
    then show ?thesis
    proof cases
      case d0
      then have "has_majority ps ?m" "\<forall>p \<in> set ps. p_hash p = ?m"
        using assms(1) by (simp_all add: has_majority_def flip: count_hash_all)
      then have "to_restore ps = []" by (simp add: tr filter_empty_conv)
      with d0 True assms show ?thesis by (auto simp: defs)
    next
      case d1
      then have "has_majority ps ?m" by (simp add: has_majority_threshold)
      then have "?m \<noteq> 0" "filter (\<lambda>p. p_hash p \<noteq> ?m) ps = to_restore ps"
        using majority_nonzero [OF _ True] filter_majority [of ps ?m] by (auto simp: tr)
      with d1 True assms show ?thesis by (auto simp: defs)
    next
      case d2
      then have "has_majority ps mh"
        using major_count_hash_max [OF mj] by (auto simp: has_majority_threshold)
      then have "mh \<noteq> 0" "filter (\<lambda>p. p_hash p \<noteq> mh) ps = to_restore ps"
        using majority_nonzero [OF _ True] filter_majority [of ps mh] by (auto simp: tr)
      with d2 True assms show ?thesis by (auto simp: defs)
    next
      case d3
      then have "\<not> has_majority ps h" for h using no_majority [OF mj] by blast
      with d3 True assms show ?thesis by (auto simp: defs tr)
    qed
  qed
qed

section \<open>What the decision guarantees\<close>

definition ex_peers :: "u64 list \<Rightarrow> output_peer list" where
  "ex_peers hs = map (\<lambda>(i, h). \<lparr>p_leader_id = 0, p_node_id = word_of_nat i, p_hash = h, p_hash_index = 4,
      p_fd = 9\<rparr>) (zip [0..<length hs] hs)"

definition dec_init :: dec_state where
  "dec_init = \<lparr>fp = False, fp_lines = [], started = []\<rparr>"

text \<open>
  C12: \<open>do_decision\<close> on a non-empty group starts a restore exactly for the replicas that disagree
  with the hash value of the majority, in order; for all replicas when no value has a majority;
  and for none when one of the values is missing. A restore is lost only when its thread cannot
  be created.
\<close>

theorem do_decision_restores:
  assumes "ps \<noteq> []" and "fp st \<or> opens"
  shows "started (fst (do_decision opens creates st (Some ps))) = started st @
    filter (\<lambda>(n, i). creates n i) (map (\<lambda>p. (p_node_id p, p_hash_index p)) (to_restore ps))"
  by (rule do_decision_started [OF assms])

theorem do_decision_restores_witness:
  "started (fst (do_decision True (\<lambda>_ _. True) dec_init (Some (ex_peers [5, 6, 6])))) = [(0, 4)]"
  using do_decision_restores [of "ex_peers [5, 6, 6]" dec_init True "\<lambda>_ _. True"]
  by (simp add: ex_peers_def dec_init_def to_restore_def has_majority_def upt_rec)

text \<open>
  The code \<open>do_decision\<close> returns tells which case applied: \<open>-1\<close> for a missing group or log
  file, 1 when the leader's value has the majority and some replica disagrees, 2 when another
  value has it, 3 when none has, and 0 when all agree or a value is missing.
\<close>

theorem do_decision_code:
  "snd (do_decision opens creates st peers) =
     (case peers of
        None \<Rightarrow> - 1
      | Some ps \<Rightarrow>
          if ps = [] \<or> (\<not> fp st \<and> \<not> opens) then - 1
          else if (\<exists>p \<in> set ps. p_hash p = 0) \<or> (\<forall>p \<in> set ps. p_hash p = get_master_hash ps) then 0
          else if has_majority ps (get_master_hash ps) then 1
          else if \<exists>h. has_majority ps h then 2 else 3)"
proof (cases peers)
  case None
  then show ?thesis by (simp add: do_decision_def)
next
  case (Some ps)
  obtain mc mh where mj: "major_count_hash ps 0 = (mc, mh)" by (cases "major_count_hash ps 0")
  have ex: "(\<exists>h. has_majority ps h) \<longleftrightarrow> length ps div 2 + 1 \<le> mc"
    using major_count_hash_max [OF mj] no_majority [OF mj] by (auto simp: has_majority_threshold)
  have z: "(\<exists>p \<in> set ps. p_hash p = 0) \<longleftrightarrow> count_hash ps 0 \<noteq> 0" using count_zero_iff [of ps] by auto
  show ?thesis
    unfolding Some option.case ex z count_hash_all [symmetric]
    by (simp add: do_decision_def zero_count_loop_ok mj Let_def has_majority_threshold)
qed

theorem do_decision_code_witness:
  "snd (do_decision True (\<lambda>_ _. True) dec_init (Some (ex_peers [5, 6, 6]))) = 2"
proof -
  have "has_majority (ex_peers [5, 6, 6]) 6" "\<not> has_majority (ex_peers [5, 6, 6]) 5"
      "get_master_hash (ex_peers [5, 6, 6]) = 5"
    by (simp_all add: ex_peers_def has_majority_def upt_rec)
  then show ?thesis
    unfolding do_decision_code by (auto simp: ex_peers_def upt_rec)
qed

text \<open>
  The value \<open>major_count_hash\<close> returns is the size of a largest set of replicas with the same
  hash value, and the hash it stores is a value of such a set.
\<close>

theorem major_count_hash_correct:
  assumes "ps \<noteq> []" and "major_count_hash ps h0 = (m, h)"
  shows "m = Max ((\<lambda>p. count_hash ps (p_hash p)) ` set ps) \<and> m = length (filter (\<lambda>p. p_hash p = h) ps) \<and> 0 < m"
proof -
  note mx = major_count_hash_max [OF assms(2)]
  have pos: "0 < count_hash ps (p_hash (hd ps))" using assms(1) by (cases ps) auto
  then have m: "0 < m" "m = count_hash ps h" using mx by (metis less_le_trans neq0_conv)+
  then have "filter (\<lambda>p. p_hash p = h) ps \<noteq> []" by (auto simp: count_hash_filter)
  then obtain p where p: "p \<in> set ps" "p_hash p = h" by (auto simp: filter_empty_conv)
  have "m = Max ((\<lambda>p. count_hash ps (p_hash p)) ` set ps)"
    using mx m(2) p by (intro Max_eqI [symmetric]) auto
  with m show ?thesis by (simp add: count_hash_filter)
qed

theorem major_count_hash_correct_witness:
  "major_count_hash (ex_peers [1, 1, 2, 2, 2]) 0 = (3, 2) \<and>
   3 = Max ((\<lambda>p. count_hash (ex_peers [1, 1, 2, 2, 2]) (p_hash p)) ` set (ex_peers [1, 1, 2, 2, 2]))"
proof -
  have m: "major_count_hash (ex_peers [1, 1, 2, 2, 2]) 0 = (3, 2)" "ex_peers [1, 1, 2, 2, 2] \<noteq> []"
    by (simp_all add: ex_peers_def major_count_hash_def upt_rec)
  show ?thesis using major_count_hash_correct [OF m(2,1)] m(1) by blast
qed

text \<open>
  C36: A replica whose first blocks of output are all zero bytes reports the hash 0, which
  \<open>do_decision\<close> takes for a missing value: it restores nobody and returns 0, whatever the other
  replicas report.
\<close>

theorem zero_output_blocks_decision:
  assumes "stream_hash s i = p_hash p" and "p \<in> set ps" and "fp st \<or> opens"
    and "0 \<le> i" and "HASH_BUFFER_SIZE * Suc (nat i) \<le> length s"
    and "\<forall>b \<in> set (take (HASH_BUFFER_SIZE * Suc (nat i)) s). b = 0"
  shows "started (fst (do_decision opens creates st (Some ps))) = started st \<and>
    snd (do_decision opens creates st (Some ps)) = 0"
proof -
  have ne: "ps \<noteq> []" using assms(2) by auto
  have tk: "take (HASH_BUFFER_SIZE * Suc (nat i)) s = replicate (HASH_BUFFER_SIZE * Suc (nat i)) 0"
    using assms(5,6) by (intro replicate_eqI) auto
  have "stream_hash s i = 0" unfolding stream_hash_def by (simp only: tk crc64_zeros if_cancel)
  then have z: "\<exists>p \<in> set ps. p_hash p = 0" using assms(1,2) by auto
  then have "to_restore ps = []" by (simp add: to_restore_def)
  moreover have "count_hash ps 0 \<noteq> 0" using z count_zero_iff [of ps] by auto
  ultimately show ?thesis
    using do_decision_started [OF ne assms(3), of creates] ne assms(3)
    by (auto simp: do_decision_def zero_count_loop_ok Let_def)
qed

theorem zero_output_blocks_decision_witness:
  "started (fst (do_decision True (\<lambda>_ _. True) dec_init (Some (ex_peers [0, 6, 6])))) = [] \<and>
   snd (do_decision True (\<lambda>_ _. True) dec_init (Some (ex_peers [0, 6, 6]))) = 0"
proof -
  have z: "take (HASH_BUFFER_SIZE * Suc (nat 0)) (replicate 1024 0) = (replicate 1024 0 :: u8 list)"
    by (simp add: HASH_BUFFER_SIZE_def)
  have "stream_hash (replicate 1024 0) 0 = p_hash (ex_peers [0, 6, 6] ! 0)"
    using z crc64_zeros [of 1024] by (simp add: stream_hash_def ex_peers_def HASH_BUFFER_SIZE_def)
  moreover have "ex_peers [0, 6, 6] ! 0 \<in> set (ex_peers [0, 6, 6])" by (simp add: ex_peers_def)
  ultimately show ?thesis
    using zero_output_blocks_decision [of "replicate 1024 0" 0 "ex_peers [0, 6, 6] ! 0" "ex_peers [0, 6, 6]"
        dec_init True "\<lambda>_ _. True"] z
    by (simp add: dec_init_def HASH_BUFFER_SIZE_def)
qed

end
