(* ===== verification/Db_Interface.thy ===== *)
theory Db_Interface
  imports Prelude "HOL-Library.Monad_Syntax"
begin

text \<open>
  The record store of \<open>db/db-interface.c\<close>, a thin layer over Berkeley DB. The library itself is
  not part of the repository: it is the parameter \<open>B\<close>, a record of the calls the code makes, each
  with its return code. The locale \<open>berkeley_db\<close> states what its documentation says of them, and
  gives the locale \<open>record_store\<close>, the contract the other components use.
\<close>

section \<open>The library calls\<close>

record 'd bdb =
  b_create :: "u32 \<Rightarrow> int \<times> 'd"
  b_set_pagesize :: "'d \<Rightarrow> u32 \<Rightarrow> int \<times> 'd"
  b_set_cachesize :: "'d \<Rightarrow> u32 \<Rightarrow> int \<times> 'd"
  b_open :: "'d \<Rightarrow> string \<Rightarrow> int \<times> 'd"
  b_close :: "'d \<Rightarrow> u32 \<Rightarrow> unit"
  b_put :: "'d \<Rightarrow> u8 list \<Rightarrow> u8 list \<Rightarrow> int \<times> 'd"
  b_get :: "'d \<Rightarrow> u8 list \<Rightarrow> int \<times> u8 list"

section \<open>Operations\<close>

record 'd db =
  bdb_ptr :: "'d option"

definition pagesize :: u32 where "pagesize = 32 * 1024"
definition cachesize :: u32 where "cachesize = 32 * 1024 * 1024"

text \<open>The destination buffer after the call, which must have room for both names and two bytes.\<close>

definition mk_path :: "string \<Rightarrow> string \<Rightarrow> string \<Rightarrow> string option" where
  "mk_path dest prefix db_name =
     (if length prefix + length db_name + 2 \<le> length dest
      then Some (prefix @ ''/'' @ db_name @ [char_of (0 :: nat)] @ drop (length prefix + length db_name + 2) dest)
      else None)"

text \<open>
  \<open>mem_ok\<close> says whether the handle can be allocated: the result of \<open>malloc\<close> is used unchecked, so
  the outer option is the fault, the inner one the null pointer returned on an error.
\<close>

definition initialize_db :: "'d bdb \<Rightarrow> bool \<Rightarrow> string \<Rightarrow> u32 \<Rightarrow> 'd db option option" where
  "initialize_db B mem_ok db_name flag =
     (case b_create B flag of (r, d) \<Rightarrow>
        if r \<noteq> 0 then Some None
        else case b_set_pagesize B d pagesize of (r, d) \<Rightarrow>
        if r \<noteq> 0 then Some None
        else case b_set_cachesize B d cachesize of (r, d) \<Rightarrow>
        if r \<noteq> 0 then Some None
        else case b_open B d db_name of (r, d) \<Rightarrow>
        if r \<noteq> 0 then Some None
        else if mem_ok then Some (Some \<lparr>bdb_ptr = Some d\<rparr>) else None)"

text \<open>The handle that is closed, if any; the struct itself is freed.\<close>

definition close_db :: "'d db option \<Rightarrow> 'd option" where
  "close_db db_p = (case db_p of None \<Rightarrow> None | Some p \<Rightarrow> bdb_ptr p)"

text \<open>The output parameters are the given ones when nothing was found or the record is empty.\<close>

definition retrieve_record ::
    "'d bdb \<Rightarrow> 'd db option \<Rightarrow> u8 list \<Rightarrow> u8 list option \<Rightarrow> int \<times> u8 list option" where
  "retrieve_record B db_p key_data data =
     (case db_p of
        None \<Rightarrow> (1, data)
      | Some p \<Rightarrow>
          (case bdb_ptr p of
             None \<Rightarrow> (1, data)
           | Some b_db \<Rightarrow>
               (case b_get B b_db key_data of (ret, db_data) \<Rightarrow>
                  if ret \<noteq> 0 then (ret, data)
                  else if length db_data = 0 then (ret, data)
                  else (ret, Some db_data))))"

definition store_record ::
    "'d bdb \<Rightarrow> 'd db option \<Rightarrow> u8 list \<Rightarrow> u8 list \<Rightarrow> int \<times> 'd db option" where
  "store_record B db_p key_data data =
     (case db_p of
        None \<Rightarrow> (1, db_p)
      | Some p \<Rightarrow>
          (case bdb_ptr p of
             None \<Rightarrow> (1, db_p)
           | Some b_db \<Rightarrow>
               (case b_put B b_db key_data data of (ret, b_db') \<Rightarrow>
                  (ret, Some (p\<lparr>bdb_ptr := Some b_db'\<rparr>)))))"

section \<open>The contract\<close>

text \<open>What a client of the store relies on: a finite view \<open>view_of\<close> of a store as a map.\<close>

locale record_store =
  fixes store :: "'s \<Rightarrow> 'k \<Rightarrow> 'v list \<Rightarrow> int \<times> 's"
    and retrieve :: "'s \<Rightarrow> 'k \<Rightarrow> 'v list option \<Rightarrow> int \<times> 'v list option"
    and view_of :: "'s \<Rightarrow> 'k \<rightharpoonup> 'v list"
  assumes store_ok: "store s k v = (0, s') \<Longrightarrow> view_of s' = (view_of s)(k \<mapsto> v)"
    and store_err: "store s k v = (r, s') \<Longrightarrow> r \<noteq> 0 \<Longrightarrow> view_of s' = view_of s"
    and retrieve_some: "view_of s k = Some v \<Longrightarrow> v \<noteq> [] \<Longrightarrow> retrieve s k d = (0, Some v)"
    and retrieve_none: "view_of s k = None \<Longrightarrow> \<exists>r. r \<noteq> 0 \<and> retrieve s k d = (r, d)"
begin

fun stores :: "'s \<Rightarrow> ('k \<times> 'v list) list \<Rightarrow> 's" where
  "stores s [] = s"
| "stores s ((k, v) # kvs) = stores (snd (store s k v)) kvs"

lemma retrieve_stored:
  "store s k v = (0, s') \<Longrightarrow> v \<noteq> [] \<Longrightarrow> retrieve s' k d = (0, Some v)"
  by (rule retrieve_some) (simp_all add: store_ok)

lemma view_stores:
  "(\<And>s k v. fst (store s k v) = 0) \<Longrightarrow> view_of (stores s kvs) = view_of s ++ map_of (rev kvs)"
proof (induction s kvs rule: stores.induct)
  case (2 s k v kvs)
  have "view_of (snd (store s k v)) = (view_of s)(k \<mapsto> v)"
    using "2.prems" [of s k v] store_ok [of s k v] by (metis prod.collapse)
  with 2 show ?case by (simp del: fun_upd_apply)
qed simp

end

text \<open>
  The documented behaviour of the library: a successful \<open>put\<close> overwrites one key, a failed one
  changes nothing, and \<open>get\<close> returns the value stored under the key or an error code.
\<close>

locale berkeley_db =
  fixes B :: "'d bdb"
    and contents :: "'d \<Rightarrow> u8 list \<rightharpoonup> u8 list"
  assumes put_ok: "b_put B d k v = (0, d') \<Longrightarrow> contents d' = (contents d)(k \<mapsto> v)"
    and put_err: "b_put B d k v = (r, d') \<Longrightarrow> r \<noteq> 0 \<Longrightarrow> contents d' = contents d"
    and get_some: "contents d k = Some v \<Longrightarrow> b_get B d k = (0, v)"
    and get_none: "contents d k = None \<Longrightarrow> fst (b_get B d k) \<noteq> 0"

definition db_view :: "('d \<Rightarrow> u8 list \<rightharpoonup> u8 list) \<Rightarrow> 'd db option \<Rightarrow> u8 list \<rightharpoonup> u8 list" where
  "db_view contents db_p = (case db_p of None \<Rightarrow> Map.empty
     | Some p \<Rightarrow> (case bdb_ptr p of None \<Rightarrow> Map.empty | Some d \<Rightarrow> contents d))"

sublocale berkeley_db \<subseteq> record_store "store_record B" "retrieve_record B" "db_view contents"
proof
  fix s k v s'
  assume "store_record B s k v = (0, s')"
  then show "db_view contents s' = (db_view contents s)(k \<mapsto> v)"
    by (auto simp: store_record_def db_view_def dest: put_ok split: option.splits prod.splits)
next
  fix s k v r s'
  assume "store_record B s k v = (r, s')" "r \<noteq> 0"
  then show "db_view contents s' = db_view contents s"
    by (auto simp: store_record_def db_view_def dest: put_err split: option.splits prod.splits)
next
  fix s k v d
  assume "db_view contents s k = Some v" "v \<noteq> []"
  then show "retrieve_record B s k d = (0, Some v)"
    by (auto simp: retrieve_record_def db_view_def dest: get_some split: option.splits)
next
  fix s k d
  assume "db_view contents s k = None"
  then show "\<exists>r. r \<noteq> 0 \<and> retrieve_record B s k d = (r, d)"
    by (auto simp: retrieve_record_def db_view_def dest: get_none split: option.splits prod.splits)
qed

context berkeley_db
begin

lemma store_retrieve_law:
  assumes "store_record B s k v = (r, s')" and "v \<noteq> []"
  shows "(if r = 0 then retrieve_record B s' k d = (0, Some v) \<and>
            (k' \<noteq> k \<longrightarrow> db_view contents s' k' = db_view contents s k')
          else db_view contents s' = db_view contents s)"
  using assms retrieve_stored [of s k v s' d] store_ok [of s k v s'] store_err [of s k v r s'] by auto

lemma store_view:
  "fst (store_record B s k v) = 0 \<Longrightarrow> db_view contents (snd (store_record B s k v)) = (db_view contents s)(k \<mapsto> v)"
  using store_ok [of s k v "snd (store_record B s k v)"] by (metis prod.collapse)

lemma retrieve_view:
  "db_view contents s k = Some v \<Longrightarrow> v \<noteq> [] \<Longrightarrow> retrieve_record B s k d = (0, Some v)"
  by (rule retrieve_some)

end

section \<open>An instance of the library\<close>

text \<open>A database that keeps its records in a map, to show that the documented behaviour is consistent.\<close>

definition map_bdb :: "(u8 list \<rightharpoonup> u8 list) bdb" where
  "map_bdb = \<lparr>b_create = \<lambda>flag. (0, Map.empty), b_set_pagesize = \<lambda>d n. (0, d),
     b_set_cachesize = \<lambda>d n. (0, d), b_open = \<lambda>d s. (0, d), b_close = \<lambda>d f. (),
     b_put = \<lambda>d k v. (0, d(k \<mapsto> v)),
     b_get = \<lambda>d k. (case d k of None \<Rightarrow> (- 30988, []) | Some v \<Rightarrow> (0, v))\<rparr>"

interpretation mapdb: berkeley_db map_bdb "\<lambda>d. d"
  by unfold_locales (auto simp: map_bdb_def)

lemma map_bdb_put: "b_put map_bdb d k v = (0, d(k \<mapsto> v))"
  by (simp add: map_bdb_def)

section \<open>What the store guarantees\<close>



end
