(* ===== verification/Dare_Log.thy ===== *)
theory Dare_Log
  imports View_Stamp "HOL-Library.Monad_Syntax"
begin

text \<open>
  The replicated log of \<open>rdma/dare_log.h\<close>: one block of memory, registered with the network card
  so that the other servers write into it. The model keeps it as bytes, with the offsets the
  compiler gives the fields of \<open>dare_log_t\<close>, \<open>ctrl_data_t\<close>, \<open>dare_log_entry_t\<close> and \<open>accept_ack\<close>,
  because remote writes address it by offsets and because a reader may see an entry that has
  arrived only in part. An entry is named by its offset in the region.
\<close>

section \<open>Layout\<close>

definition MAX_SERVER_COUNT :: nat where "MAX_SERVER_COUNT = 7"
definition LOG_SIZE :: u64 where "LOG_SIZE = 16384 * 4 * 4096"

text \<open>Fields of \<open>dare_log_t\<close> and of its \<open>ctrl_data\<close>.\<close>

definition OFF_HEAD :: nat where "OFF_HEAD = 0"
definition OFF_READ :: nat where "OFF_READ = 8"
definition OFF_WRITE :: nat where "OFF_WRITE = 16"
definition OFF_END :: nat where "OFF_END = 24"
definition OFF_TAIL :: nat where "OFF_TAIL = 32"
definition OFF_LEN :: nat where "OFF_LEN = 40"
definition OFF_SID :: nat where "OFF_SID = 48"
definition OFF_VOTE_REQ :: nat where "OFF_VOTE_REQ = 56"
definition VOTE_REQ_SIZE :: nat where "VOTE_REQ_SIZE = 24"
definition OFF_HB :: nat where "OFF_HB = OFF_VOTE_REQ + VOTE_REQ_SIZE * MAX_SERVER_COUNT"
definition OFF_VOTE_ACK :: nat where "OFF_VOTE_ACK = OFF_HB + 8 * MAX_SERVER_COUNT"
definition OFF_ENTRIES :: nat where "OFF_ENTRIES = OFF_VOTE_ACK + 8 * MAX_SERVER_COUNT"
definition REGION_SIZE :: nat where "REGION_SIZE = OFF_ENTRIES + unat LOG_SIZE"

text \<open>Fields of \<open>accept_ack\<close> and of \<open>dare_log_entry_t\<close>.\<close>

definition ACCEPT_ACK_SIZE :: nat where "ACCEPT_ACK_SIZE = 24"
definition ACK_MSG_VS :: nat where "ACK_MSG_VS = 0"
definition ACK_NODE_ID :: nat where "ACK_NODE_ID = 8"
definition ACK_HASH :: nat where "ACK_HASH = 16"
definition E_MSG_VS :: nat where "E_MSG_VS = ACCEPT_ACK_SIZE * MAX_SERVER_COUNT"
definition E_CANBE :: nat where "E_CANBE = E_MSG_VS + 8"
definition E_NODE_ID :: nat where "E_NODE_ID = E_CANBE + 8"
definition E_DATA_SIZE :: nat where "E_DATA_SIZE = E_NODE_ID + 8"
definition E_TYPE :: nat where "E_TYPE = E_DATA_SIZE + 8"
definition E_CLT_ID :: nat where "E_CLT_ID = E_TYPE + 4"
definition E_DATA :: nat where "E_DATA = E_CLT_ID + 8"
definition ENTRY_SIZE :: nat where "ENTRY_SIZE = 216"

lemmas layout_defs = MAX_SERVER_COUNT_def OFF_HEAD_def OFF_READ_def OFF_WRITE_def OFF_END_def
  OFF_TAIL_def OFF_LEN_def OFF_SID_def OFF_VOTE_REQ_def VOTE_REQ_SIZE_def OFF_HB_def
  OFF_VOTE_ACK_def OFF_ENTRIES_def ACCEPT_ACK_SIZE_def ACK_MSG_VS_def ACK_NODE_ID_def ACK_HASH_def
  E_MSG_VS_def E_CANBE_def E_NODE_ID_def E_DATA_SIZE_def E_TYPE_def E_CLT_ID_def E_DATA_def
  ENTRY_SIZE_def

declare layout_defs [layout_simps]

lemma unat_LOG_SIZE [layout_simps]: "unat LOG_SIZE = 268435456"
  by (simp add: LOG_SIZE_def)

lemma REGION_SIZE_eq [layout_simps]: "REGION_SIZE = 268435792"
  by (simp add: REGION_SIZE_def layout_simps)

section \<open>Fields\<close>

definition get_vs :: "mem \<Rightarrow> nat \<Rightarrow> view_stamp" where
  "get_vs m a = \<lparr>view_id = get_u32 m a, req_id = get_u32 m (a + 4)\<rparr>"

definition put_vs :: "mem \<Rightarrow> nat \<Rightarrow> view_stamp \<Rightarrow> mem" where
  "put_vs m a vs = put_u32 (put_u32 m a (view_id vs)) (a + 4) (req_id vs)"

definition log_end :: "mem \<Rightarrow> u64" where "log_end m = get_u64 m OFF_END"
definition log_tail :: "mem \<Rightarrow> u64" where "log_tail m = get_u64 m OFF_TAIL"
definition log_len :: "mem \<Rightarrow> u64" where "log_len m = get_u64 m OFF_LEN"
definition log_sid :: "mem \<Rightarrow> u64" where "log_sid m = get_u64 m OFF_SID"

definition set_end :: "mem \<Rightarrow> u64 \<Rightarrow> mem" where "set_end m v = put_u64 m OFF_END v"
definition set_tail :: "mem \<Rightarrow> u64 \<Rightarrow> mem" where "set_tail m v = put_u64 m OFF_TAIL v"
definition set_len :: "mem \<Rightarrow> u64 \<Rightarrow> mem" where "set_len m v = put_u64 m OFF_LEN v"
definition set_sid :: "mem \<Rightarrow> u64 \<Rightarrow> mem" where "set_sid m v = put_u64 m OFF_SID v"

definition e_msg_vs :: "mem \<Rightarrow> nat \<Rightarrow> view_stamp" where "e_msg_vs m e = get_vs m (e + E_MSG_VS)"
definition e_canbe :: "mem \<Rightarrow> nat \<Rightarrow> view_stamp" where "e_canbe m e = get_vs m (e + E_CANBE)"
definition e_node_id :: "mem \<Rightarrow> nat \<Rightarrow> u32" where "e_node_id m e = get_u32 m (e + E_NODE_ID)"
definition e_data_size :: "mem \<Rightarrow> nat \<Rightarrow> u64" where "e_data_size m e = get_u64 m (e + E_DATA_SIZE)"
definition e_type :: "mem \<Rightarrow> nat \<Rightarrow> u8" where "e_type m e = get_u8 m (e + E_TYPE)"
definition e_clt_id :: "mem \<Rightarrow> nat \<Rightarrow> view_stamp" where "e_clt_id m e = get_vs m (e + E_CLT_ID)"

definition ack_off :: "nat \<Rightarrow> nat \<Rightarrow> nat" where "ack_off e i = e + ACCEPT_ACK_SIZE * i"
definition ack_msg_vs :: "mem \<Rightarrow> nat \<Rightarrow> nat \<Rightarrow> view_stamp" where
  "ack_msg_vs m e i = get_vs m (ack_off e i + ACK_MSG_VS)"
definition ack_node_id :: "mem \<Rightarrow> nat \<Rightarrow> nat \<Rightarrow> u32" where
  "ack_node_id m e i = get_u32 m (ack_off e i + ACK_NODE_ID)"
definition ack_hash :: "mem \<Rightarrow> nat \<Rightarrow> nat \<Rightarrow> u64" where
  "ack_hash m e i = get_u64 m (ack_off e i + ACK_HASH)"

section \<open>Operations\<close>

definition log_new :: "bool \<Rightarrow> mem option" where
  "log_new mem_ok =
     (if mem_ok then Some (set_tail (set_end (set_len (\<lambda>_. 0) LOG_SIZE) LOG_SIZE) LOG_SIZE) else None)"

definition is_log_empty :: "mem \<Rightarrow> bool" where
  "is_log_empty m \<longleftrightarrow> log_end m = log_len m"

definition log_fit_entry_header :: "mem \<Rightarrow> u64 \<Rightarrow> bool" where
  "log_fit_entry_header m offset \<longleftrightarrow> log_len m - offset \<ge> of_nat ENTRY_SIZE"

definition log_add_new_entry :: "mem \<Rightarrow> nat" where
  "log_add_new_entry m = (if is_log_empty m then OFF_ENTRIES else OFF_ENTRIES + unat (log_end m))"

definition log_entry_len :: "mem \<Rightarrow> nat \<Rightarrow> u32" where
  "log_entry_len m e = ucast (of_nat ENTRY_SIZE + e_data_size m e)"

definition log_get_entry :: "mem \<Rightarrow> u64 \<Rightarrow> u64 \<times> nat" where
  "log_get_entry m offset =
     (let offset' = (if log_fit_entry_header m offset then offset else 0)
      in (offset', OFF_ENTRIES + unat offset'))"

section \<open>Lemmas\<close>

text \<open>The header fields are independent of each other and of the entries.\<close>

lemma header_simps [simp, mem_simps]:
  "log_end (set_end m v) = v" "log_tail (set_end m v) = log_tail m" "log_len (set_end m v) = log_len m"
  "log_end (set_tail m v) = log_end m" "log_tail (set_tail m v) = v" "log_len (set_tail m v) = log_len m"
  "log_end (set_len m v) = log_end m" "log_tail (set_len m v) = log_tail m" "log_len (set_len m v) = v"
  "log_end (set_sid m v) = log_end m" "log_tail (set_sid m v) = log_tail m" "log_len (set_sid m v) = log_len m"
  "log_sid (set_sid m v) = v" "log_sid (set_end m v) = log_sid m" "log_sid (set_tail m v) = log_sid m"
  by (simp_all add: log_end_def log_tail_def log_len_def log_sid_def set_end_def set_tail_def
      set_len_def set_sid_def layout_simps mem_simps)

text \<open>\<open>same_header\<close> and \<open>same_on\<close>: what a write outside the header, or outside a range, preserves.\<close>

definition same_on :: "nat \<Rightarrow> nat \<Rightarrow> mem \<Rightarrow> mem \<Rightarrow> bool" where
  "same_on a n m m' \<longleftrightarrow> (\<forall>x. a \<le> x \<and> x < a + n \<longrightarrow> m' x = m x)"

lemma same_on_refl [simp]: "same_on a n m m"
  by (simp add: same_on_def)

lemma same_on_trans: "same_on a n m m1 \<Longrightarrow> same_on a n m1 m2 \<Longrightarrow> same_on a n m m2"
  by (simp add: same_on_def)

lemma same_on_sub: "same_on a n m m' \<Longrightarrow> a \<le> b \<Longrightarrow> b + k \<le> a + n \<Longrightarrow> same_on b k m m'"
  by (auto simp: same_on_def)

lemma same_on_get_bytes: "same_on a n m m' \<Longrightarrow> get_bytes m' a n = get_bytes m a n"
  by (rule get_bytes_cong) (simp add: same_on_def)

lemma same_on_put: "a + n \<le> b \<or> b + length bs \<le> a \<Longrightarrow> same_on a n m (put_bytes m b bs)"
  by (auto simp: same_on_def put_bytes_def)

lemma same_on_get_u32: "same_on a 4 m m' \<Longrightarrow> get_u32 m' a = get_u32 m a"
  by (simp add: get_u32_def same_on_get_bytes)

lemma same_on_get_u64: "same_on a 8 m m' \<Longrightarrow> get_u64 m' a = get_u64 m a"
  by (simp add: get_u64_def same_on_get_bytes)

lemma same_on_get_u8: "same_on a 1 m m' \<Longrightarrow> get_u8 m' a = get_u8 m a"
  by (simp add: get_u8_def same_on_def)

lemma same_on_get_vs: "same_on a 8 m m' \<Longrightarrow> get_vs m' a = get_vs m a"
  using same_on_get_u32 [OF same_on_sub [of a 8 m m' a 4]]
    same_on_get_u32 [OF same_on_sub [of a 8 m m' "a + 4" 4]] by (simp add: get_vs_def)

lemma same_on_header:
  assumes "same_on 0 OFF_ENTRIES m m'"
  shows "log_end m' = log_end m" "log_tail m' = log_tail m" "log_len m' = log_len m" "log_sid m' = log_sid m"
  unfolding log_end_def log_tail_def log_len_def log_sid_def
  by (rule same_on_get_u64 [OF same_on_sub [OF assms]]; simp add: layout_simps)+

lemma get_put_vs [mem_simps]: "get_vs (put_vs m a vs) a = vs"
  by (cases vs) (simp add: get_vs_def put_vs_def mem_simps)

text \<open>The part of an entry after the acknowledgements, which the leader writes and nobody changes later.\<close>

lemma same_on_body:
  assumes "same_on (e + E_MSG_VS) (ENTRY_SIZE - E_MSG_VS) m m'"
  shows "e_msg_vs m' e = e_msg_vs m e" "e_canbe m' e = e_canbe m e" "e_node_id m' e = e_node_id m e"
    "e_data_size m' e = e_data_size m e" "e_type m' e = e_type m e" "e_clt_id m' e = e_clt_id m e"
    "log_entry_len m' e = log_entry_len m e"
proof -
  note sub = same_on_sub [OF assms]
  show "e_msg_vs m' e = e_msg_vs m e" "e_canbe m' e = e_canbe m e" "e_clt_id m' e = e_clt_id m e"
    unfolding e_msg_vs_def e_canbe_def e_clt_id_def
    by (rule same_on_get_vs [OF sub]; simp add: layout_simps)+
  show "e_node_id m' e = e_node_id m e"
    unfolding e_node_id_def by (rule same_on_get_u32 [OF sub]; simp add: layout_simps)
  show "e_type m' e = e_type m e"
    unfolding e_type_def by (rule same_on_get_u8 [OF sub]; simp add: layout_simps)
  show d: "e_data_size m' e = e_data_size m e"
    unfolding e_data_size_def by (rule same_on_get_u64 [OF sub]; simp add: layout_simps)
  show "log_entry_len m' e = log_entry_len m e" by (simp add: log_entry_len_def d)
qed

lemma unat_log_entry_len:
  assumes "unat (e_data_size m e) < 2 ^ 32 - ENTRY_SIZE"
  shows "unat (log_entry_len m e) = ENTRY_SIZE + unat (e_data_size m e)"
proof -
  have "unat (of_nat ENTRY_SIZE + e_data_size m e) = ENTRY_SIZE + unat (e_data_size m e)"
    using assms by (simp add: unat_word_ariths layout_simps)
  then show ?thesis
    using assms by (simp add: log_entry_len_def unsigned_ucast_eq take_bit_nat_eq_self layout_simps)
qed

lemma log_fit_iff:
  assumes "log_len m = LOG_SIZE" and "unat offset \<le> unat LOG_SIZE"
  shows "log_fit_entry_header m offset \<longleftrightarrow> unat offset + ENTRY_SIZE \<le> unat LOG_SIZE"
proof -
  have "unat (LOG_SIZE - offset) = unat LOG_SIZE - unat offset"
    using assms(2) by (simp add: unat_sub word_le_nat_alt)
  then show ?thesis
    using assms by (simp add: log_fit_entry_header_def word_le_nat_alt layout_simps) linarith
qed

lemma log_new_fields:
  assumes "log_new True = Some m"
  shows "log_len m = LOG_SIZE" "log_end m = LOG_SIZE" "log_tail m = LOG_SIZE" "is_log_empty m"
    "\<And>x. OFF_ENTRIES \<le> x \<Longrightarrow> m x = 0"
proof -
  have m: "m = set_tail (set_end (set_len (\<lambda>_. 0) LOG_SIZE) LOG_SIZE) LOG_SIZE"
    using assms by (simp add: log_new_def)
  show "log_len m = LOG_SIZE" "log_end m = LOG_SIZE" "log_tail m = LOG_SIZE" "is_log_empty m"
    by (simp_all add: m is_log_empty_def)
  show "\<And>x. OFF_ENTRIES \<le> x \<Longrightarrow> m x = 0"
    by (simp add: m set_end_def set_tail_def set_len_def put_u64_def put_bytes_def layout_simps)
qed

end
