(* ===== verification/Rdma_Types.thy ===== *)
theory Rdma_Types
  imports Dare_Log
begin

text \<open>
  The data of \<open>rdma/dare_ibv.h\<close>, \<open>rdma/dare_config.h\<close> and \<open>rdma/dare_server.h\<close> the components
  above the network share: the endpoint of a peer, the own configuration with the registered log,
  and the arguments of \<open>post_send\<close>, the call by which a server writes into the log of a peer.
  Queue pairs and completion queues are named by numbers, \<open>None\<close> is the null pointer.
\<close>

definition Q_DEPTH :: nat where "Q_DEPTH = 8192"
definition S_DEPTH_MASK :: u32 where "S_DEPTH_MASK = 4095"

text \<open>Flags of a work request as the verbs library numbers them.\<close>

definition IBV_SEND_FENCE :: u32 where "IBV_SEND_FENCE = 1"
definition IBV_SEND_SIGNALED :: u32 where "IBV_SEND_SIGNALED = 2"
definition IBV_SEND_INLINE :: u32 where "IBV_SEND_INLINE = 8"

text \<open>
  How the sends of a connection are counted: every 4096th send is signaled, and the one before the
  next signaled send first waits for its completion.
\<close>

definition send_flags :: "u32 \<Rightarrow> u32" where
  "send_flags count = (if count AND S_DEPTH_MASK = 0 then IBV_SEND_SIGNALED else 0)"

definition send_polls :: "u32 \<Rightarrow> bool" where
  "send_polls count \<longleftrightarrow> count AND S_DEPTH_MASK = S_DEPTH_MASK"

record rem_mem =
  raddr :: u64
  rkey :: u32

record dare_ib_ep =
  rmt_mr :: rem_mem
  qp :: "nat option"
  qpn :: u32
  send_count :: u32
  cq :: "nat option"
  rc_connected :: bool

record server_data =
  srv_log :: mem
  srv_idx :: u32
  srv_cid_size :: u32
  servers :: "dare_ib_ep list"

record post_args =
  pa_server :: nat
  pa_buf :: "u8 list"
  pa_rm :: rem_mem
  pa_flags :: u32
  pa_poll :: bool

definition in_region :: "nat \<Rightarrow> nat \<Rightarrow> bool" where
  "in_region a n \<longleftrightarrow> a + n \<le> REGION_SIZE"

end
