(* ===== verification/Sid.thy ===== *)
theory Sid
  imports Prelude
begin

text \<open>
  The state identifier of \<open>rdma/dare_server.h\<close>: a 64-bit word \<open>[TERM|L|IDX]\<close> with 55 bits of term, the
  leader flag and 8 bits of server index. The macros that assign to their first argument are
  functions that return its new value. Identifiers are compared as numbers in the election,
  which is the lexicographic comparison of their parts.
\<close>

definition SID_GET_IDX :: "u64 \<Rightarrow> u8" where
  "SID_GET_IDX sid = ucast (sid AND 0xFF)"

definition SID_SET_IDX :: "u64 \<Rightarrow> u64 \<Rightarrow> u64" where
  "SID_SET_IDX sid idx = idx OR push_bit 8 (drop_bit 8 sid)"

definition SID_GET_L :: "u64 \<Rightarrow> u64" where
  "SID_GET_L sid = sid AND push_bit 8 1"

definition SID_SET_L :: "u64 \<Rightarrow> u64" where
  "SID_SET_L sid = sid OR push_bit 8 1"

definition SID_UNSET_L :: "u64 \<Rightarrow> u64" where
  "SID_UNSET_L sid = sid AND NOT (push_bit 8 1)"

definition SID_GET_TERM :: "u64 \<Rightarrow> u64" where
  "SID_GET_TERM sid = drop_bit 9 sid"

definition SID_SET_TERM :: "u64 \<Rightarrow> u64 \<Rightarrow> u64" where
  "SID_SET_TERM sid term = push_bit 9 term OR (sid AND 0x1FF)"

section \<open>The parts of an identifier\<close>

lemma mask_bits: "bit (0xFF :: int) i \<longleftrightarrow> i < 8" "bit (0x1FF :: int) i \<longleftrightarrow> i < 9" "bit (0x100 :: int) i \<longleftrightarrow> i = 8"
proof -
  have e: "(0xFF :: int) = mask 8" "(0x1FF :: int) = mask 9" "(0x100 :: int) = 2 ^ 8" by (simp_all add: mask_eq_exp_minus_1)
  show "bit (0xFF :: int) i \<longleftrightarrow> i < 8" "bit (0x1FF :: int) i \<longleftrightarrow> i < 9" unfolding e by (auto simp only: bit_mask_iff) auto
  show "bit (0x100 :: int) i \<longleftrightarrow> i = 8" unfolding e by (auto simp only: bit_exp_iff) auto
qed

lemma flag_word: "(push_bit 8 1 :: u64) = 0x100" "NOT (push_bit 8 1) = (NOT 0x100 :: u64)"
  by simp_all

lemmas sid_defs = SID_GET_IDX_def SID_SET_IDX_def SID_GET_L_def SID_SET_L_def SID_UNSET_L_def
  SID_GET_TERM_def SID_SET_TERM_def

lemma get_L_iff: "SID_GET_L sid \<noteq> 0 \<longleftrightarrow> bit sid 8"
proof -
  have "SID_GET_L sid = (if bit sid 8 then 256 else 0)"
    by (rule bit_word_eqI) (auto simp: SID_GET_L_def bit_and_iff mask_bits)
  then show ?thesis by simp
qed

lemma bit_SET_L: "i < 64 \<Longrightarrow> bit (SID_SET_L sid) i \<longleftrightarrow> bit sid i \<or> i = 8"
  unfolding SID_SET_L_def flag_word by (auto simp: bit_or_iff mask_bits)

lemma bit_UNSET_L: "i < 64 \<Longrightarrow> bit (SID_UNSET_L sid) i \<longleftrightarrow> bit sid i \<and> i \<noteq> 8"
  unfolding SID_UNSET_L_def flag_word by (simp only: bit_and_iff bit_not_iff) (auto simp: mask_bits)

lemma bit_SET_TERM: "i < 64 \<Longrightarrow> bit (SID_SET_TERM sid t) i \<longleftrightarrow> (if i < 9 then bit sid i else bit t (i - 9))"
  by (auto simp: SID_SET_TERM_def bit_or_iff bit_and_iff bit_push_bit_iff mask_bits)

lemma bit_SET_IDX: "i < 64 \<Longrightarrow> bit (SID_SET_IDX sid idx) i \<longleftrightarrow> bit idx i \<or> i \<ge> 8 \<and> bit sid i"
  by (auto simp: SID_SET_IDX_def bit_or_iff bit_push_bit_iff bit_drop_bit_eq)

lemma high_bits_u8: "idx < 256 \<Longrightarrow> bit (idx :: u64) i \<Longrightarrow> i < 8"
proof (rule ccontr)
  assume "idx < 256" "bit idx i" "\<not> i < 8"
  have "unat idx < 2 ^ 8" using \<open>idx < 256\<close> by (simp add: word_less_nat_alt)
  then have "take_bit 8 (unat idx) = unat idx" by (simp add: take_bit_nat_eq_self)
  moreover have "bit (unat idx) i" using \<open>bit idx i\<close> by (simp add: bit_unsigned_iff bit_imp_le_length)
  ultimately show False using \<open>\<not> i < 8\<close> by (metis bit_take_bit_iff)
qed

text \<open>The value of an identifier from its parts.\<close>

lemma sid_parts: "unat sid = 512 * unat (SID_GET_TERM sid) + (if SID_GET_L sid \<noteq> 0 then 256 else 0) + unat (SID_GET_IDX sid)"
proof -
  have "take_bit 64 (unat sid) = unat sid" using unsigned_less [of sid] by (intro take_bit_nat_eq_self) simp
  then have t: "unat (SID_GET_TERM sid) = unat sid div 512"
    by (simp only: SID_GET_TERM_def unsigned_drop_bit_eq) (simp add: drop_bit_eq_div)
  have "SID_GET_IDX sid = ucast sid"
    by (rule bit_word_eqI) (auto simp: SID_GET_IDX_def bit_ucast_iff bit_and_iff mask_bits)
  then have i: "unat (SID_GET_IDX sid) = unat sid mod 256" by (simp add: unsigned_ucast_eq take_bit_eq_mod)
  have l: "SID_GET_L sid \<noteq> 0 \<longleftrightarrow> odd (unat sid div 256)"
  proof -
    have "bit sid 8 \<longleftrightarrow> bit (unat sid) 8" by (simp add: bit_unsigned_iff)
    then show ?thesis by (simp add: get_L_iff bit_nat_iff bit_iff_odd [of "unat sid"])
  qed
  have "unat sid = 512 * (unat sid div 512) + unat sid mod 512" by simp
  moreover have "unat sid mod 512 = 256 * (unat sid div 256 mod 2) + unat sid mod 256"
    using mod_mult2_eq [of "unat sid" 256 2] by simp
  ultimately show ?thesis using t i l by (simp add: odd_iff_mod_2_eq_one)
qed

text \<open>Equality of parts, bit by bit.\<close>

lemma L_cong: "bit a 8 = bit b 8 \<Longrightarrow> SID_GET_L a = SID_GET_L b"
  by (rule bit_word_eqI) (auto simp: SID_GET_L_def bit_and_iff mask_bits)

lemma IDX_cong: "(\<And>i. i < 8 \<Longrightarrow> bit a i = bit b i) \<Longrightarrow> SID_GET_IDX a = SID_GET_IDX b"
  by (rule bit_word_eqI) (auto simp: SID_GET_IDX_def bit_ucast_iff bit_and_iff mask_bits)

lemma bit_TERM: "bit (SID_GET_TERM a) i \<longleftrightarrow> i < 55 \<and> bit a (9 + i)"
  using bit_imp_le_length [of a "9 + i"] by (auto simp: SID_GET_TERM_def bit_drop_bit_eq)

lemma TERM_cong: "(\<And>i. i < 64 \<Longrightarrow> 9 \<le> i \<Longrightarrow> bit a i = bit b i) \<Longrightarrow> SID_GET_TERM a = SID_GET_TERM b"
  by (rule bit_word_eqI) (auto simp: bit_TERM)

lemma high_bits: "unat (w :: u64) < 2 ^ n \<Longrightarrow> bit w i \<Longrightarrow> i < n"
proof (rule ccontr)
  assume "unat w < 2 ^ n" "bit w i" "\<not> i < n"
  then have "take_bit n (unat w) = unat w" "bit (unat w) i" by (simp_all add: take_bit_nat_eq_self bit_unsigned_iff bit_imp_le_length)
  with \<open>\<not> i < n\<close> show False by (metis bit_take_bit_iff)
qed

lemma sid_flag [simp]:
  "SID_GET_L (SID_SET_L sid) \<noteq> 0" "SID_GET_L (SID_UNSET_L sid) = 0"
  "SID_GET_TERM (SID_SET_L sid) = SID_GET_TERM sid" "SID_GET_TERM (SID_UNSET_L sid) = SID_GET_TERM sid"
  "SID_GET_IDX (SID_SET_L sid) = SID_GET_IDX sid" "SID_GET_IDX (SID_UNSET_L sid) = SID_GET_IDX sid"
proof -
  show "SID_GET_L (SID_SET_L sid) \<noteq> 0" by (simp only: get_L_iff) (simp add: bit_SET_L)
  show "SID_GET_L (SID_UNSET_L sid) = 0" using get_L_iff [of "SID_UNSET_L sid"] by (auto simp: bit_UNSET_L)
  show "SID_GET_TERM (SID_SET_L sid) = SID_GET_TERM sid" by (rule TERM_cong) (simp add: bit_SET_L)
  show "SID_GET_TERM (SID_UNSET_L sid) = SID_GET_TERM sid" by (rule TERM_cong) (simp add: bit_UNSET_L)
  show "SID_GET_IDX (SID_SET_L sid) = SID_GET_IDX sid" by (rule IDX_cong) (simp add: bit_SET_L)
  show "SID_GET_IDX (SID_UNSET_L sid) = SID_GET_IDX sid" by (rule IDX_cong) (simp add: bit_UNSET_L)
qed

lemma sid_term [simp]:
  "SID_GET_L (SID_SET_TERM sid t) = SID_GET_L sid" "SID_GET_IDX (SID_SET_TERM sid t) = SID_GET_IDX sid"
  "unat t < 2 ^ 55 \<Longrightarrow> SID_GET_TERM (SID_SET_TERM sid t) = t"
proof -
  show "SID_GET_L (SID_SET_TERM sid t) = SID_GET_L sid" by (rule L_cong) (simp add: bit_SET_TERM)
  show "SID_GET_IDX (SID_SET_TERM sid t) = SID_GET_IDX sid" by (rule IDX_cong) (simp add: bit_SET_TERM)
  assume "unat t < 2 ^ 55"
  note h = high_bits [OF this]
  show "SID_GET_TERM (SID_SET_TERM sid t) = t"
    by (rule bit_word_eqI) (use h in \<open>auto simp: bit_TERM bit_SET_TERM\<close>)
qed

lemma sid_idx [simp]:
  assumes "idx < 256"
  shows "SID_GET_L (SID_SET_IDX sid idx) = SID_GET_L sid" "SID_GET_TERM (SID_SET_IDX sid idx) = SID_GET_TERM sid"
    "SID_GET_IDX (SID_SET_IDX sid idx) = ucast idx"
proof -
  have "unat idx < 2 ^ 8" using assms by (simp add: word_less_nat_alt)
  then have hi: "\<not> bit idx i" if "8 \<le> i" for i using high_bits [of idx 8 i] that by auto
  show "SID_GET_L (SID_SET_IDX sid idx) = SID_GET_L sid" by (rule L_cong) (simp add: bit_SET_IDX hi)
  show "SID_GET_TERM (SID_SET_IDX sid idx) = SID_GET_TERM sid" by (rule TERM_cong) (simp add: bit_SET_IDX hi)
  show "SID_GET_IDX (SID_SET_IDX sid idx) = ucast idx"
    by (rule bit_word_eqI) (auto simp: SID_GET_IDX_def bit_ucast_iff bit_and_iff mask_bits bit_SET_IDX)
qed

text \<open>The order of identifiers.\<close>

lemma unat_lt: "unat (w :: 'a::len word) < 2 ^ LENGTH('a)"
  by (rule unsigned_less)

lemma sid_less_iff:
  "a < b \<longleftrightarrow> SID_GET_TERM a < SID_GET_TERM b \<or>
     SID_GET_TERM a = SID_GET_TERM b \<and> (SID_GET_L a = 0 \<and> SID_GET_L b \<noteq> 0 \<or>
       (SID_GET_L a = 0 \<longleftrightarrow> SID_GET_L b = 0) \<and> SID_GET_IDX a < SID_GET_IDX b)"
proof -
  have i: "unat (SID_GET_IDX x) < 256" for x using unat_lt [of "SID_GET_IDX x"] by simp
  have "512 * t + l + x < 512 * t' + l' + x' \<longleftrightarrow> t < t' \<or> t = t' \<and> (l < l' \<or> l = l' \<and> x < x')"
    if "x < 256" "x' < 256" "l = 0 \<or> l = 256" "l' = 0 \<or> l' = 256" for t t' l l' x x' :: nat
    using that by auto
  from this [OF i [of a] i [of b], of "if SID_GET_L a \<noteq> 0 then 256 else 0" "if SID_GET_L b \<noteq> 0 then 256 else 0"
      "unat (SID_GET_TERM a)" "unat (SID_GET_TERM b)"]
  show ?thesis
    unfolding word_less_nat_alt [of a b] sid_parts [of a] sid_parts [of b]
    by (simp add: word_less_nat_alt word_unat_eq_iff)
qed

lemma term_bound: "unat (SID_GET_TERM sid) < 2 ^ 55"
  using unat_lt [of sid] sid_parts [of sid] by simp

text \<open>
  C23: The term, the leader flag and the index of an identifier are independent of each other: what
  is set is read back and the other parts stay, for terms below $2^{55}$ and indices below 256; and
  identifiers are ordered by term first, then by the leader flag, then by the index.
\<close>

theorem sid_fields:
  assumes "unat t < 2 ^ 55" and "idx < 256"
  shows "SID_GET_TERM (SID_SET_TERM sid t) = t \<and> SID_GET_L (SID_SET_TERM sid t) = SID_GET_L sid
      \<and> SID_GET_IDX (SID_SET_TERM sid t) = SID_GET_IDX sid
    \<and> SID_GET_L (SID_SET_L sid) \<noteq> 0 \<and> SID_GET_L (SID_UNSET_L sid) = 0
    \<and> SID_GET_TERM (SID_SET_L sid) = SID_GET_TERM sid \<and> SID_GET_TERM (SID_UNSET_L sid) = SID_GET_TERM sid
    \<and> SID_GET_IDX (SID_SET_L sid) = SID_GET_IDX sid \<and> SID_GET_IDX (SID_UNSET_L sid) = SID_GET_IDX sid
    \<and> SID_GET_IDX (SID_SET_IDX sid idx) = ucast idx \<and> SID_GET_L (SID_SET_IDX sid idx) = SID_GET_L sid
      \<and> SID_GET_TERM (SID_SET_IDX sid idx) = SID_GET_TERM sid
    \<and> (sid < sid' \<longleftrightarrow> SID_GET_TERM sid < SID_GET_TERM sid' \<or>
        SID_GET_TERM sid = SID_GET_TERM sid' \<and> (SID_GET_L sid = 0 \<and> SID_GET_L sid' \<noteq> 0 \<or>
          (SID_GET_L sid = 0 \<longleftrightarrow> SID_GET_L sid' = 0) \<and> SID_GET_IDX sid < SID_GET_IDX sid'))"
  using assms sid_less_iff [of sid sid'] by simp

theorem sid_fields_witness:
  "SID_GET_TERM (SID_SET_TERM 0x1FF 7) = 7 \<and> SID_GET_IDX (SID_SET_IDX 0x7FF 3) = 3"
  using sid_fields [of 7 3 "0x1FF" 0] sid_fields [of 7 3 "0x7FF" 0] by simp

end
