(* ===== verification/Ibv_Rc.thy ===== *)
theory Ibv_Rc
  imports Rdma_Types Sid
begin

text \<open>
  The reliable connections of \<open>rdma/dare_ibv_rc.c\<close>: creating and destroying the queue pairs, moving
  a queue pair through its states, posting remote writes, waiting for their completion, and the
  three messages of the heartbeat and election protocol. The verbs library is a parameter, a
  record of its calls on a state \<open>'v\<close> that stands for the adapter and everything that happens
  to it in time; \<open>verbs_qp\<close> and \<open>verbs_cq\<close> name what is relied on. An access through a null pointer
  or outside the configuration array, and a wait that never ends, are the value \<open>None\<close>.
\<close>

section \<open>The verbs library\<close>

datatype qps = QPS_RESET | QPS_INIT | QPS_RTR | QPS_RTS | QPS_ERR

datatype qp_mask = M_STATE | M_PKEY_INDEX | M_PORT | M_ACCESS_FLAGS | M_PATH_MTU | M_MAX_DEST_RD_ATOMIC
  | M_MIN_RNR_TIMER | M_RQ_PSN | M_AV | M_DEST_QPN | M_TIMEOUT | M_RETRY_CNT | M_RNR_RETRY | M_SQ_PSN
  | M_MAX_QP_RD_ATOMIC

datatype access = A_REMOTE_WRITE | A_REMOTE_READ | A_REMOTE_ATOMIC | A_LOCAL_WRITE

record ah_attr =
  is_global :: bool
  ah_dlid :: u16
  ah_port :: u8
  ah_dgid :: "u8 list"
  hop_limit :: u8
  sgid_index :: int

record qp_attr =
  qa_state :: qps
  qa_pkey_index :: u16
  qa_port :: u8
  qa_access :: "access list"
  qa_mtu :: u32
  qa_max_dest_rd_atomic :: int
  qa_min_rnr_timer :: u8
  qa_dest_qpn :: u32
  qa_rq_psn :: u32
  qa_ah :: ah_attr
  qa_timeout :: u8
  qa_retry_cnt :: u8
  qa_rnr_retry :: u8
  qa_sq_psn :: u32
  qa_max_rd_atomic :: int

record qp_init_attr =
  qi_send_cq :: "nat option"
  qi_recv_cq :: "nat option"
  qi_max_inline :: u32
  qi_max_send_wr :: u32
  qi_max_recv_wr :: u32

record send_wr =
  wr_buf :: "u8 list"
  wr_flags :: u32
  wr_raddr :: u64
  wr_rkey :: u32

record mr =
  mr_addr :: u64
  mr_len :: nat
  mr_lkey :: u32
  mr_rkey :: u32

record 'v verbs =
  vb_create_cq :: "nat \<Rightarrow> 'v \<Rightarrow> nat option \<times> 'v"
  vb_destroy_cq :: "nat option \<Rightarrow> 'v \<Rightarrow> int \<times> 'v"
  vb_create_qp :: "qp_init_attr \<Rightarrow> 'v \<Rightarrow> nat option \<times> 'v"
  vb_destroy_qp :: "nat option \<Rightarrow> 'v \<Rightarrow> int \<times> 'v"
  vb_modify_qp :: "nat option \<Rightarrow> qp_attr \<Rightarrow> qp_mask list \<Rightarrow> 'v \<Rightarrow> int \<times> 'v"
  vb_post_send :: "nat option \<Rightarrow> send_wr \<Rightarrow> 'v \<Rightarrow> int \<times> 'v"
  vb_poll_cq :: "nat option \<Rightarrow> nat \<Rightarrow> 'v \<Rightarrow> int \<times> int list \<times> 'v"
  vb_alloc_pd :: "'v \<Rightarrow> nat option \<times> 'v"
  vb_dealloc_pd :: "'v \<Rightarrow> 'v"
  vb_reg_mr :: "nat \<Rightarrow> access list \<Rightarrow> 'v \<Rightarrow> mr option \<times> 'v"
  vb_dereg_mr :: "'v \<Rightarrow> int \<times> 'v"

record ib_device =
  max_qp_wr :: int
  max_cqe :: int
  max_qp_rd_atom :: int
  pkey_index :: u16
  port_num :: u8
  mtu :: u32
  lid :: u16
  gid_idx :: int
  rc_pd :: "nat option"
  rc_cqe :: int
  lcl_mr :: "mr option"
  rc_max_inline_data :: u32
  rc_max_send_wr :: u32

text \<open>The attributes after \<open>memset\<close>.\<close>

definition zero_ah :: ah_attr where
  "zero_ah = \<lparr>is_global = False, ah_dlid = 0, ah_port = 0, ah_dgid = [], hop_limit = 0, sgid_index = 0\<rparr>"

definition zero_attr :: qp_attr where
  "zero_attr = \<lparr>qa_state = QPS_RESET, qa_pkey_index = 0, qa_port = 0, qa_access = [], qa_mtu = 0,
     qa_max_dest_rd_atomic = 0, qa_min_rnr_timer = 0, qa_dest_qpn = 0, qa_rq_psn = 0, qa_ah = zero_ah,
     qa_timeout = 0, qa_retry_cnt = 0, qa_rnr_retry = 0, qa_sq_psn = 0, qa_max_rd_atomic = 0\<rparr>"

section \<open>The largest inline size\<close>

text \<open>The probe of \<open>find_max_inline\<close> in \<open>dare_ibv.c\<close>: halve until a queue pair can be created.\<close>

definition inline_attr :: "nat option \<Rightarrow> u32 \<Rightarrow> qp_init_attr" where
  "inline_attr c w = \<lparr>qi_send_cq = c, qi_recv_cq = c, qi_max_inline = w, qi_max_send_wr = 0, qi_max_recv_wr = 1\<rparr>"

function inline_loop :: "'v verbs \<Rightarrow> nat option \<Rightarrow> u32 \<Rightarrow> 'v \<Rightarrow> int \<times> u32 \<times> 'v" where
  "inline_loop V c w v =
     (if w > 0 then
        (case vb_create_qp V (inline_attr c w) v of
           (Some q, v1) \<Rightarrow> (0, w, snd (vb_destroy_qp V (Some q) v1))
         | (None, v1) \<Rightarrow> inline_loop V c (drop_bit 1 w) v1)
      else (1, 0, v))"
  by pat_completeness auto
termination
proof (relation "measure (\<lambda>(V, c, w, v). unat w)")
  show "((V, c, drop_bit 1 w, v1), (V, c, w, v)) \<in> measure (\<lambda>(V, c, w, v). unat w)"
    if "w > 0" for V :: "'v verbs" and c w v v1
    using that by (simp add: word_less_nat_alt drop_bit_eq_div unat_div)
qed simp

declare inline_loop.simps [simp del]

definition find_max_inline :: "'v verbs \<Rightarrow> 'v \<Rightarrow> int \<times> u32 \<times> 'v" where
  "find_max_inline V v =
     (case vb_create_cq V 1 v of
        (None, v1) \<Rightarrow> (1, 0, v1)
      | (Some c, v1) \<Rightarrow>
          (case inline_loop V (Some c) (push_bit 20 1) v1 of
             (rc, w, v2) \<Rightarrow> (rc, w, snd (vb_destroy_cq V (Some c) v2))))"

section \<open>Setting up and tearing down\<close>

definition rc_prerequisite :: "'v verbs \<Rightarrow> ib_device \<Rightarrow> 'v \<Rightarrow> int \<times> ib_device \<times> 'v" where
  "rc_prerequisite V dev v =
     (let dev1 = dev\<lparr>rc_max_send_wr := word_of_int (max_qp_wr dev), rc_cqe := max_cqe dev\<rparr>
      in case vb_alloc_pd V v of
           (pd, v1) \<Rightarrow>
             let dev2 = dev1\<lparr>rc_pd := pd\<rparr>
             in if pd = None then (1, dev2, v1)
                else (case find_max_inline V v1 of
                        (rc, w, v2) \<Rightarrow> (if rc \<noteq> 0 then 1 else 0, dev2\<lparr>rc_max_inline_data := w\<rparr>, v2)))"

definition rc_memory_reg :: "'v verbs \<Rightarrow> ib_device \<Rightarrow> mem \<Rightarrow> 'v \<Rightarrow> int \<times> ib_device \<times> 'v" where
  "rc_memory_reg V dev log v =
     (case vb_reg_mr V (OFF_ENTRIES + unat (log_len log)) [A_REMOTE_WRITE, A_REMOTE_READ, A_LOCAL_WRITE] v of
        (m, v1) \<Rightarrow> (if m = None then 1 else 0, dev\<lparr>lcl_mr := m\<rparr>, v1))"

definition rc_cq_create :: "'v verbs \<Rightarrow> dare_ib_ep \<Rightarrow> 'v \<Rightarrow> int \<times> dare_ib_ep \<times> 'v" where
  "rc_cq_create V ep v =
     (case vb_create_cq V (Q_DEPTH + 1) v of (c, v1) \<Rightarrow> (if c = None then 1 else 0, ep\<lparr>cq := c\<rparr>, v1))"

definition rc_qp_create :: "'v verbs \<Rightarrow> ib_device \<Rightarrow> dare_ib_ep \<Rightarrow> 'v \<Rightarrow> int \<times> dare_ib_ep \<times> 'v" where
  "rc_qp_create V dev ep v =
     (case vb_create_qp V \<lparr>qi_send_cq = cq ep, qi_recv_cq = cq ep, qi_max_inline = rc_max_inline_data dev,
             qi_max_send_wr = rc_max_send_wr dev, qi_max_recv_wr = 1\<rparr> v of
        (q, v1) \<Rightarrow>
          if q = None then (1, ep\<lparr>qp := None\<rparr>, v1) else (0, ep\<lparr>qp := q, send_count := 0\<rparr>, v1))"

fun rc_init_loop :: "'v verbs \<Rightarrow> ib_device \<Rightarrow> dare_ib_ep list \<Rightarrow> 'v \<Rightarrow> int \<times> dare_ib_ep list \<times> 'v" where
  "rc_init_loop V dev [] v = (0, [], v)"
| "rc_init_loop V dev (ep # eps) v =
     (case rc_cq_create V ep v of
        (rc, ep1, v1) \<Rightarrow>
          if rc \<noteq> 0 then (1, ep1 # eps, v1)
          else (case rc_qp_create V dev ep1 v1 of
                  (rc, ep2, v2) \<Rightarrow>
                    if rc \<noteq> 0 then (1, ep2 # eps, v2)
                    else (case rc_init_loop V dev eps v2 of (rc, eps', v3) \<Rightarrow> (rc, ep2 # eps', v3))))"

definition rc_init :: "'v verbs \<Rightarrow> ib_device \<Rightarrow> server_data \<Rightarrow> 'v \<Rightarrow> int \<times> ib_device \<times> server_data \<times> 'v" where
  "rc_init V dev sv v =
     (case rc_prerequisite V dev v of
        (rc, dev1, v1) \<Rightarrow>
          if rc \<noteq> 0 then (1, dev1, sv, v1)
          else (case rc_memory_reg V dev1 (srv_log sv) v1 of
                  (rc, dev2, v2) \<Rightarrow>
                    if rc \<noteq> 0 then (1, dev2, sv, v2)
                    else (case rc_init_loop V dev2 (servers sv) v2 of
                            (rc, eps, v3) \<Rightarrow> (rc, dev2, sv\<lparr>servers := eps\<rparr>, v3))))"

definition rc_qp_destroy :: "'v verbs \<Rightarrow> dare_ib_ep \<Rightarrow> 'v \<Rightarrow> dare_ib_ep \<times> 'v" where
  "rc_qp_destroy V ep v = (ep\<lparr>qp := None\<rparr>, snd (vb_destroy_qp V (qp ep) v))"

definition rc_cq_destroy :: "'v verbs \<Rightarrow> dare_ib_ep \<Rightarrow> 'v \<Rightarrow> dare_ib_ep \<times> 'v" where
  "rc_cq_destroy V ep v = (ep\<lparr>cq := None\<rparr>, snd (vb_destroy_cq V (cq ep) v))"

definition rc_memory_dereg :: "'v verbs \<Rightarrow> ib_device \<Rightarrow> 'v \<Rightarrow> ib_device \<times> 'v" where
  "rc_memory_dereg V dev v =
     (if lcl_mr dev \<noteq> None then (dev\<lparr>lcl_mr := None\<rparr>, snd (vb_dereg_mr V v)) else (dev, v))"

text \<open>An endpoint that was never allocated is skipped.\<close>

fun rc_free_loop :: "'v verbs \<Rightarrow> dare_ib_ep option list \<Rightarrow> 'v \<Rightarrow> dare_ib_ep option list \<times> 'v" where
  "rc_free_loop V [] v = ([], v)"
| "rc_free_loop V (None # eps) v = (case rc_free_loop V eps v of (eps', v') \<Rightarrow> (None # eps', v'))"
| "rc_free_loop V (Some ep # eps) v =
     (case rc_qp_destroy V ep v of
        (ep1, v1) \<Rightarrow>
          (case rc_cq_destroy V ep1 v1 of
             (ep2, v2) \<Rightarrow> (case rc_free_loop V eps v2 of (eps', v') \<Rightarrow> (Some ep2 # eps', v'))))"

definition rc_free :: "'v verbs \<Rightarrow> ib_device \<Rightarrow> dare_ib_ep option list \<Rightarrow> 'v \<Rightarrow> ib_device \<times> dare_ib_ep option list \<times> 'v" where
  "rc_free V dev eps v =
     (case rc_free_loop V eps v of
        (eps', v1) \<Rightarrow>
          (case rc_memory_dereg V dev (if rc_pd dev \<noteq> None then vb_dealloc_pd V v1 else v1) of
             (dev', v2) \<Rightarrow> (dev', eps', v2)))"

section \<open>The states of a queue pair\<close>

definition rc_qp_reset :: "'v verbs \<Rightarrow> dare_ib_ep \<Rightarrow> 'v \<Rightarrow> int \<times> 'v" where
  "rc_qp_reset V ep v =
     (case vb_modify_qp V (qp ep) (zero_attr\<lparr>qa_state := QPS_RESET\<rparr>) [M_STATE] v of
        (rc, v1) \<Rightarrow> (if rc \<noteq> 0 then 1 else 0, v1))"

definition rc_qp_reset_to_init :: "'v verbs \<Rightarrow> ib_device \<Rightarrow> dare_ib_ep \<Rightarrow> 'v \<Rightarrow> int \<times> dare_ib_ep \<times> 'v" where
  "rc_qp_reset_to_init V dev ep v =
     (let ep1 = ep\<lparr>send_count := 0\<rparr>;
          attr = zero_attr\<lparr>qa_state := QPS_INIT, qa_pkey_index := 0, qa_port := port_num dev,
            qa_access := [A_REMOTE_WRITE, A_REMOTE_READ, A_REMOTE_ATOMIC, A_LOCAL_WRITE]\<rparr>
      in case vb_modify_qp V (qp ep) attr [M_STATE, M_PKEY_INDEX, M_PORT, M_ACCESS_FLAGS] v of
           (rc, v1) \<Rightarrow> (if rc \<noteq> 0 then 1 else 0, ep1, v1))"

definition rtr_ah :: "ib_device \<Rightarrow> u16 \<Rightarrow> u8 list \<Rightarrow> ah_attr" where
  "rtr_ah dev dlid dgid =
     (let a = \<lparr>is_global = False, ah_dlid = dlid, ah_port = port_num dev, ah_dgid = [], hop_limit = 0, sgid_index = 0\<rparr>
      in if gid_idx dev \<ge> 0
         then a\<lparr>is_global := True, ah_port := 1, ah_dgid := take 16 dgid, hop_limit := 1, sgid_index := gid_idx dev\<rparr>
         else a)"

definition rc_qp_init_to_rtr :: "'v verbs \<Rightarrow> ib_device \<Rightarrow> dare_ib_ep \<Rightarrow> u16 \<Rightarrow> u8 list \<Rightarrow> 'v \<Rightarrow> int \<times> 'v" where
  "rc_qp_init_to_rtr V dev ep dlid dgid v =
     (let attr = zero_attr\<lparr>qa_state := QPS_RTR, qa_mtu := mtu dev, qa_max_dest_rd_atomic := max_qp_rd_atom dev,
            qa_min_rnr_timer := 12, qa_dest_qpn := qpn ep, qa_rq_psn := 0, qa_ah := rtr_ah dev dlid dgid\<rparr>
      in case vb_modify_qp V (qp ep) attr
             [M_STATE, M_PATH_MTU, M_MAX_DEST_RD_ATOMIC, M_MIN_RNR_TIMER, M_RQ_PSN, M_AV, M_DEST_QPN] v of
           (rc, v1) \<Rightarrow> (if rc \<noteq> 0 then 1 else 0, v1))"

definition rc_qp_rtr_to_rts :: "'v verbs \<Rightarrow> ib_device \<Rightarrow> dare_ib_ep \<Rightarrow> 'v \<Rightarrow> int \<times> 'v" where
  "rc_qp_rtr_to_rts V dev ep v =
     (let attr = zero_attr\<lparr>qa_state := QPS_RTS, qa_timeout := 1, qa_retry_cnt := 0, qa_rnr_retry := 7,
            qa_sq_psn := 0, qa_max_rd_atomic := max_qp_rd_atom dev\<rparr>
      in case vb_modify_qp V (qp ep) attr
             [M_STATE, M_TIMEOUT, M_RETRY_CNT, M_RNR_RETRY, M_SQ_PSN, M_MAX_QP_RD_ATOMIC] v of
           (rc, v1) \<Rightarrow> (if rc \<noteq> 0 then 1 else 0, v1))"

definition rc_connect_server :: "'v verbs \<Rightarrow> ib_device \<Rightarrow> dare_ib_ep \<Rightarrow> u16 \<Rightarrow> u8 list \<Rightarrow> 'v \<Rightarrow> int \<times> dare_ib_ep \<times> 'v" where
  "rc_connect_server V dev ep dlid dgid v =
     (case rc_qp_reset_to_init V dev ep v of
        (rc, ep1, v1) \<Rightarrow>
          if rc \<noteq> 0 then (1, ep1, v1)
          else (case rc_qp_init_to_rtr V dev ep1 dlid dgid v1 of
                  (rc, v2) \<Rightarrow>
                    if rc \<noteq> 0 then (1, ep1, v2)
                    else (case rc_qp_rtr_to_rts V dev ep1 v2 of
                            (rc, v3) \<Rightarrow> (if rc \<noteq> 0 then 1 else 0, ep1, v3))))"

section \<open>Posting and completion\<close>

partial_function (option) poll_loop :: "'v verbs \<Rightarrow> nat option \<Rightarrow> nat \<Rightarrow> nat \<Rightarrow> int list \<Rightarrow> 'v \<Rightarrow> (int \<times> int list \<times> 'v) option" where
  "poll_loop V c max_wc total_wc wcs v =
     (case vb_poll_cq V c (max_wc - total_wc) v of
        (ret, ws, v1) \<Rightarrow>
          if ret < 0 then Some (ret, [], v1)
          else if total_wc + nat ret < max_wc then poll_loop V c max_wc (total_wc + nat ret) (wcs @ ws) v1
          else Some (int (total_wc + nat ret), wcs @ ws, v1))"

definition poll_cq :: "'v verbs \<Rightarrow> nat \<Rightarrow> nat option \<Rightarrow> 'v \<Rightarrow> (int \<times> 'v) option" where
  "poll_cq V max_wc c v =
     map_option (\<lambda>(ret, wcs, v1).
       if ret < 0 then (ret, v1)
       else (case filter (\<lambda>s. s \<noteq> 0) wcs of [] \<Rightarrow> (ret, v1) | s # _ \<Rightarrow> (- s, v1)))
     (poll_loop V c max_wc 0 [] v)"

definition poll_before :: "'v verbs \<Rightarrow> bool \<Rightarrow> nat option \<Rightarrow> 'v \<Rightarrow> 'v option" where
  "poll_before V poll c v = (if poll then map_option snd (poll_cq V 1 c v) else Some v)"

definition inline_flags :: "ib_device \<Rightarrow> nat \<Rightarrow> u32 \<Rightarrow> u32" where
  "inline_flags dev len flags = (if len \<le> unat (rc_max_inline_data dev) then flags OR IBV_SEND_INLINE else flags)"

definition post_send :: "'v verbs \<Rightarrow> ib_device \<Rightarrow> dare_ib_ep list \<Rightarrow> post_args \<Rightarrow> 'v \<Rightarrow> (int \<times> 'v) option" where
  "post_send V dev eps pa v =
     (if length eps \<le> pa_server pa \<or> lcl_mr dev = None then None
      else do {
        let ep = eps ! pa_server pa;
        v1 \<leftarrow> poll_before V (pa_poll pa) (cq ep) v;
        (case vb_post_send V (qp ep) \<lparr>wr_buf = pa_buf pa, wr_flags = inline_flags dev (length (pa_buf pa)) (pa_flags pa),
                wr_raddr = raddr (pa_rm pa), wr_rkey = rkey (pa_rm pa)\<rparr> v1 of
           (rc, v2) \<Rightarrow> Some (if rc \<noteq> 0 then 1 else 0, v2))
      })"

section \<open>Heartbeats and votes\<close>

definition INIT_LEADER :: u32 where "INIT_LEADER = 0"
definition FIXED_LEADER :: u32 where "FIXED_LEADER = 1"

text \<open>A remote write of \<open>bs\<close> at \<open>offset\<close> of the log of peer \<open>i\<close>; the flags argument of these calls is the literal 1.\<close>

definition ctrl_post :: "dare_ib_ep list \<Rightarrow> nat \<Rightarrow> u8 list \<Rightarrow> u32 \<Rightarrow> post_args" where
  "ctrl_post eps i bs offset =
     \<lparr>pa_server = i, pa_buf = bs,
      pa_rm = \<lparr>raddr = raddr (rmt_mr (eps ! i)) + ucast offset, rkey = rkey (rmt_mr (eps ! i))\<rparr>,
      pa_flags = 1, pa_poll = False\<rparr>"

fun send_ctrl_loop :: "'v verbs \<Rightarrow> ib_device \<Rightarrow> dare_ib_ep list \<Rightarrow> u8 list \<Rightarrow> u32 \<Rightarrow> nat list \<Rightarrow> 'v \<Rightarrow> (int \<times> 'v) option" where
  "send_ctrl_loop V dev eps bs offset [] v = Some (0, v)"
| "send_ctrl_loop V dev eps bs offset (i # is) v = do {
     (rc, v1) \<leftarrow> post_send V dev eps (ctrl_post eps i bs offset) v;
     (if rc \<noteq> 0 then Some (1, v1) else do {
        (ret, v2) \<leftarrow> poll_cq V 1 (cq (eps ! i)) v1;
        send_ctrl_loop V dev eps bs offset is v2
      })
   }"

text \<open>The loop variable and the size are 8 bits wide.\<close>

definition cid_size8 :: "server_data \<Rightarrow> nat" where
  "cid_size8 sv = unat (ucast (srv_cid_size sv) :: u8)"

definition hb_offset :: "u32 \<Rightarrow> u32" where
  "hb_offset idx = of_nat OFF_HB + 8 * idx"

definition hb_peers :: "server_data \<Rightarrow> nat list" where
  "hb_peers sv = filter (\<lambda>i. i \<noteq> unat (srv_idx sv)) [0..<cid_size8 sv]"

definition rc_send_hb :: "'v verbs \<Rightarrow> ib_device \<Rightarrow> server_data \<Rightarrow> 'v \<Rightarrow> (int \<times> 'v) option" where
  "rc_send_hb V dev sv v =
     send_ctrl_loop V dev (servers sv) (get_bytes (srv_log sv) OFF_SID 8) (hb_offset (srv_idx sv)) (hb_peers sv) v"

definition vote_req_off :: "nat \<Rightarrow> nat" where
  "vote_req_off i = OFF_VOTE_REQ + VOTE_REQ_SIZE * i"

definition set_vote_request :: "server_data \<Rightarrow> mem" where
  "set_vote_request sv =
     (let m = srv_log sv; idx = (ucast (srv_idx sv) :: u8); a = vote_req_off (unat idx)
      in put_u64 (put_u64 (put_u64 m a (log_sid m)) (a + 16) 1) (a + 8) (if ucast idx = FIXED_LEADER then 1 else 0))"

definition vote_peers :: "server_data \<Rightarrow> nat list" where
  "vote_peers sv =
     filter (\<lambda>i. i \<noteq> unat (ucast (srv_idx sv) :: u8) \<and> i \<noteq> unat INIT_LEADER) [0..<cid_size8 sv]"

definition rc_send_vote_request :: "'v verbs \<Rightarrow> ib_device \<Rightarrow> server_data \<Rightarrow> 'v \<Rightarrow> (int \<times> server_data \<times> 'v) option" where
  "rc_send_vote_request V dev sv v =
     (let m = set_vote_request sv; a = vote_req_off (unat (ucast (srv_idx sv) :: u8))
      in map_option (\<lambda>(rc, v1). (rc, sv\<lparr>srv_log := m\<rparr>, v1))
           (send_ctrl_loop V dev (servers sv) (get_bytes m a VOTE_REQ_SIZE) (of_nat a) (vote_peers sv) v))"

definition vote_candidate :: "mem \<Rightarrow> nat" where
  "vote_candidate m = unat (SID_GET_IDX (log_sid m))"

definition vote_ack_off :: "nat \<Rightarrow> nat" where
  "vote_ack_off i = OFF_VOTE_ACK + 8 * i"

definition rc_send_vote_ack :: "'v verbs \<Rightarrow> ib_device \<Rightarrow> server_data \<Rightarrow> 'v \<Rightarrow> (int \<times> 'v) option" where
  "rc_send_vote_ack V dev sv v =
     (if length (servers sv) \<le> vote_candidate (srv_log sv) then None
      else send_ctrl_loop V dev (servers sv) (get_bytes (srv_log sv) OFF_END 8)
             (of_nat (vote_ack_off (unat (ucast (srv_idx sv) :: u8)))) [vote_candidate (srv_log sv)] v)"

section \<open>Connecting a queue pair\<close>

text \<open>
  What \<open>ibv_modify_qp\<close> documents: it moves the queue pair to the requested state if the state
  diagram has this edge, otherwise it fails and the state stays.
\<close>

fun qp_edge :: "qps \<Rightarrow> qps \<Rightarrow> bool" where
  "qp_edge _ QPS_RESET = True"
| "qp_edge _ QPS_ERR = True"
| "qp_edge s QPS_INIT = (s = QPS_RESET \<or> s = QPS_INIT)"
| "qp_edge s QPS_RTR = (s = QPS_INIT)"
| "qp_edge s QPS_RTS = (s = QPS_RTR \<or> s = QPS_RTS)"

locale verbs_qp =
  fixes V :: "'v verbs" and qp_state :: "'v \<Rightarrow> nat \<Rightarrow> qps"
  assumes modify: "vb_modify_qp V (Some q) a msk v = (rc, v1) \<Longrightarrow>
      rc = 0 \<and> qp_edge (qp_state v q) (qa_state a) \<and> qp_state v1 q = qa_state a \<or>
      rc \<noteq> 0 \<and> qp_state v1 q = qp_state v q"
    and modify_other: "vb_modify_qp V (Some q) a msk v = (rc, v1) \<Longrightarrow> p \<noteq> q \<Longrightarrow> qp_state v1 p = qp_state v p"
begin

lemma to_init:
  assumes "rc_qp_reset_to_init V dev ep v = (rc, ep1, v1)" and "qp ep = Some q"
  shows "ep1 = ep\<lparr>send_count := 0\<rparr>" "p \<noteq> q \<Longrightarrow> qp_state v1 p = qp_state v p"
    "rc = 0 \<and> qp_state v q \<in> {QPS_RESET, QPS_INIT} \<and> qp_state v1 q = QPS_INIT \<or> rc = 1 \<and> qp_state v1 q = qp_state v q"
  using assms by (auto simp: rc_qp_reset_to_init_def Let_def split: prod.splits if_splits dest: modify modify_other)

lemma to_rtr:
  assumes "rc_qp_init_to_rtr V dev ep dlid dgid v = (rc, v1)" and "qp ep = Some q"
  shows "p \<noteq> q \<Longrightarrow> qp_state v1 p = qp_state v p"
    "rc = 0 \<and> qp_state v q = QPS_INIT \<and> qp_state v1 q = QPS_RTR \<or> rc = 1 \<and> qp_state v1 q = qp_state v q"
  using assms by (auto simp: rc_qp_init_to_rtr_def Let_def split: prod.splits if_splits dest: modify modify_other)

lemma to_rts:
  assumes "rc_qp_rtr_to_rts V dev ep v = (rc, v1)" and "qp ep = Some q"
  shows "p \<noteq> q \<Longrightarrow> qp_state v1 p = qp_state v p"
    "rc = 0 \<and> qp_state v q \<in> {QPS_RTR, QPS_RTS} \<and> qp_state v1 q = QPS_RTS \<or> rc = 1 \<and> qp_state v1 q = qp_state v q"
  using assms by (auto simp: rc_qp_rtr_to_rts_def Let_def split: prod.splits if_splits dest: modify modify_other)

lemma connect_states:
  assumes c: "rc_connect_server V dev ep dlid dgid v = (rc, ep1, v1)" and q: "qp ep = Some q"
  shows "ep1 = ep\<lparr>send_count := 0\<rparr>" "\<And>p. p \<noteq> q \<Longrightarrow> qp_state v1 p = qp_state v p"
    "rc = 0 \<Longrightarrow> qp_state v q \<in> {QPS_RESET, QPS_INIT} \<and> qp_state v1 q = QPS_RTS"
    "rc \<noteq> 0 \<Longrightarrow> rc = 1 \<and> qp_state v1 q \<in> {qp_state v q, QPS_INIT, QPS_RTR}"
    "qp_state v q \<notin> {QPS_RESET, QPS_INIT} \<Longrightarrow> rc = 1 \<and> qp_state v1 q = qp_state v q"
proof -
  obtain r1 e1 w1 where i: "rc_qp_reset_to_init V dev ep v = (r1, e1, w1)" by (cases "rc_qp_reset_to_init V dev ep v")
  obtain r2 w2 where r: "rc_qp_init_to_rtr V dev e1 dlid dgid w1 = (r2, w2)" by (cases "rc_qp_init_to_rtr V dev e1 dlid dgid w1")
  obtain r3 w3 where s: "rc_qp_rtr_to_rts V dev e1 w2 = (r3, w3)" by (cases "rc_qp_rtr_to_rts V dev e1 w2")
  note t1 = to_init [OF i q]
  have q1: "qp e1 = Some q" using q t1(1) by simp
  note t2 = to_rtr [OF r q1] and t3 = to_rts [OF s q1]
  have c': "(rc, ep1, v1) = (if r1 \<noteq> 0 then (1, e1, w1) else if r2 \<noteq> 0 then (1, e1, w2) else (if r3 \<noteq> 0 then 1 else 0, e1, w3))"
    using c unfolding rc_connect_server_def i by (auto simp: r s split: if_splits)
  show "ep1 = ep\<lparr>send_count := 0\<rparr>" using c' t1(1) by (simp split: if_splits)
  show "\<And>p. p \<noteq> q \<Longrightarrow> qp_state v1 p = qp_state v p" using c' t1(2) t2(1) t3(1) by (simp split: if_splits)
  show "rc = 0 \<Longrightarrow> qp_state v q \<in> {QPS_RESET, QPS_INIT} \<and> qp_state v1 q = QPS_RTS"
    "rc \<noteq> 0 \<Longrightarrow> rc = 1 \<and> qp_state v1 q \<in> {qp_state v q, QPS_INIT, QPS_RTR}"
    "qp_state v q \<notin> {QPS_RESET, QPS_INIT} \<Longrightarrow> rc = 1 \<and> qp_state v1 q = qp_state v q"
    using c' t1(3) t2(2) t3(2) by (auto split: if_splits)
qed

end

section \<open>Waiting for completions\<close>

text \<open>
  The completions of a queue on an adapter on which no request fails: a work request that is not
  signaled generates none, and polling a queue for which none is due returns nothing.
\<close>

locale verbs_cq =
  fixes V :: "'v verbs" and due :: "'v \<Rightarrow> nat \<Rightarrow> nat"
  assumes unsignaled: "vb_post_send V (Some q) wr v = (rc, v1) \<Longrightarrow> wr_flags wr AND IBV_SEND_SIGNALED = 0 \<Longrightarrow> due v1 c = due v c"
    and poll_none: "due v c = 0 \<Longrightarrow> \<exists>v1. vb_poll_cq V (Some c) n v = (0, [], v1) \<and> due v1 c = 0"
begin

lemma poll_loop_hangs:
  assumes "poll_loop V (Some c) n t wcs v = Some r" and "t < n"
  shows "due v c \<noteq> 0"
proof -
  have "V' = V \<longrightarrow> c' = Some c \<longrightarrow> t < n \<longrightarrow> due v c \<noteq> 0" if "poll_loop V' c' n t wcs v = Some r" for V' c' n t wcs v r
    using that
  proof (rule poll_loop.raw_induct [rotated])
    fix poll V' c' n t wcs v r
    assume ih: "\<And>V' c' n t wcs v r. poll V' c' n t wcs v = Some r \<Longrightarrow> V' = V \<longrightarrow> c' = Some c \<longrightarrow> t < n \<longrightarrow> due v c \<noteq> 0"
      and eq: "(case vb_poll_cq V' c' (n - t) v of (ret, ws, v1) \<Rightarrow>
          if ret < 0 then Some (ret, [], v1)
          else if t + nat ret < n then poll V' c' n (t + nat ret) (wcs @ ws) v1
          else Some (int (t + nat ret), wcs @ ws, v1)) = Some r"
    show "V' = V \<longrightarrow> c' = Some c \<longrightarrow> t < n \<longrightarrow> due v c \<noteq> 0"
    proof (intro impI notI)
      assume h: "V' = V" "c' = Some c" "t < n" "due v c = 0"
      obtain v1 where v1: "vb_poll_cq V (Some c) (n - t) v = (0, [], v1)" "due v1 c = 0" using poll_none [OF h(4)] by blast
      then have "poll V' c' n t wcs v1 = Some r" using eq h by simp
      then show False using ih h v1(2) by blast
    qed
  qed
  then show ?thesis using assms by blast
qed

lemma poll_hangs: "due v c = 0 \<Longrightarrow> poll_cq V 1 (Some c) v = None"
  using poll_loop_hangs [of c 1 0 "[]" v] by (cases "poll_loop V (Some c) 1 0 [] v") (auto simp: poll_cq_def)

lemma flag_one: "(1 OR IBV_SEND_INLINE) AND IBV_SEND_SIGNALED = 0" "1 AND IBV_SEND_SIGNALED = (0 :: u32)"
  by (simp_all add: IBV_SEND_INLINE_def IBV_SEND_SIGNALED_def)

lemma ctrl_hangs:
  assumes s: "send_ctrl_loop V dev eps bs off (i # is) v = Some (rc, v1)"
    and ep: "cq (eps ! i) = Some c" "qp (eps ! i) = Some q" and due: "due v c = 0"
  shows "rc = 1"
proof (rule ccontr)
  assume "rc \<noteq> 1"
  then obtain w where p: "post_send V dev eps (ctrl_post eps i bs off) v = Some (0, w)" "poll_cq V 1 (Some c) w \<noteq> None"
    using s ep by (auto split: bind_splits if_splits)
  have "due w c = due v c"
    using p(1) ep(2) flag_one unsignaled
    by (auto simp: post_send_def ctrl_post_def poll_before_def inline_flags_def Let_def split: if_splits prod.splits)
  then show False using poll_hangs [of w c] p(2) due by simp
qed

end

section \<open>The depth of the send queue\<close>

text \<open>
  The send queue of a connection: a request takes a place when it is posted; the completion of a
  signaled request frees the places of all requests up to it. A signaled request completes after
  finitely many polls, which \<open>wait\<close> bounds.
\<close>

locale verbs_sq =
  fixes V :: "'v verbs" and q :: nat and c :: nat and cap :: nat
    and ready :: "'v \<Rightarrow> bool" and posted :: "'v \<Rightarrow> nat" and retired :: "'v \<Rightarrow> nat" and sigs :: "'v \<Rightarrow> nat list" and wait :: "'v \<Rightarrow> nat"
  assumes post: "ready v \<Longrightarrow> posted v - retired v < cap \<Longrightarrow> \<exists>v1. vb_post_send V (Some q) wr v = (0, v1) \<and> ready v1 \<and>
      posted v1 = Suc (posted v) \<and> retired v1 = retired v \<and>
      sigs v1 = sigs v @ (if wr_flags wr AND IBV_SEND_SIGNALED \<noteq> 0 then [posted v] else [])"
    and poll: "ready v \<Longrightarrow> sigs v = s # ss \<Longrightarrow> \<exists>ret ws v1. vb_poll_cq V (Some c) 1 v = (ret, ws, v1) \<and> ready v1 \<and> posted v1 = posted v \<and>
      (ret = 0 \<and> ws = [] \<and> wait v1 < wait v \<and> retired v1 = retired v \<and> sigs v1 = sigs v \<or>
       ret = 1 \<and> ws = [0] \<and> retired v1 = Suc s \<and> sigs v1 = ss)"
begin

lemma poll_returns:
  assumes "ready v" and "sigs v = s # ss"
  shows "\<exists>v1. poll_loop V (Some c) 1 0 [] v = Some (1, [0], v1) \<and> ready v1 \<and> posted v1 = posted v \<and> retired v1 = Suc s \<and> sigs v1 = ss"
  using assms
proof (induction "wait v" arbitrary: v rule: less_induct)
  case less
  obtain ret ws v1 where p: "vb_poll_cq V (Some c) 1 v = (ret, ws, v1)" "ready v1" "posted v1 = posted v"
      "ret = 0 \<and> ws = [] \<and> wait v1 < wait v \<and> retired v1 = retired v \<and> sigs v1 = sigs v \<or>
       ret = 1 \<and> ws = [0] \<and> retired v1 = Suc s \<and> sigs v1 = ss"
    using poll [OF less.prems] by blast
  from p(4) show ?case
  proof
    assume w: "ret = 0 \<and> ws = [] \<and> wait v1 < wait v \<and> retired v1 = retired v \<and> sigs v1 = sigs v"
    have "poll_loop V (Some c) 1 0 [] v = poll_loop V (Some c) 1 0 [] v1"
      by (subst poll_loop.simps) (use p(1) w in simp)
    then show ?thesis using less.hyps [of v1] w p(2,3) less.prems(2) by simp
  next
    assume w: "ret = 1 \<and> ws = [0] \<and> retired v1 = Suc s \<and> sigs v1 = ss"
    have "poll_loop V (Some c) 1 0 [] v = Some (1, [0], v1)"
      by (subst poll_loop.simps) (use p(1) w in simp)
    then show ?thesis using w p(2,3) by blast
  qed
qed

text \<open>What holds after \<open>n\<close> sends.\<close>

definition sent :: "nat \<Rightarrow> 'v \<Rightarrow> bool" where
  "sent n v \<longleftrightarrow> ready v \<and> posted v = n \<and> retired v = (if n < 4096 then 0 else 4096 * (n div 4096 - 1) + 1) \<and>
     sigs v = (if n mod 4096 = 0 then [] else [4096 * (n div 4096)])"

lemma sent_room: "sent n v \<Longrightarrow> posted v - retired v \<le> 8190"
proof -
  assume "sent n v"
  moreover have "n = 4096 * (n div 4096) + n mod 4096" "n mod 4096 < 4096" by simp_all
  moreover have "4096 \<le> n \<Longrightarrow> 1 \<le> n div 4096" by (simp add: div_greater_zero_iff flip: One_nat_def)
  ultimately show ?thesis unfolding sent_def by (auto simp: algebra_simps)
qed

end

text \<open>A sequence of counted sends over one connection.\<close>

definition counted_post :: "nat \<Rightarrow> u32 \<Rightarrow> u8 list \<times> rem_mem \<Rightarrow> post_args" where
  "counted_post i count msg = \<lparr>pa_server = i, pa_buf = fst msg, pa_rm = snd msg, pa_flags = send_flags count, pa_poll = send_polls count\<rparr>"

fun post_run :: "'v verbs \<Rightarrow> ib_device \<Rightarrow> dare_ib_ep list \<Rightarrow> nat \<Rightarrow> (u8 list \<times> rem_mem) list \<Rightarrow> u32 \<Rightarrow> 'v \<Rightarrow> (int list \<times> u32 \<times> 'v) option" where
  "post_run V dev eps i [] count v = Some ([], count, v)"
| "post_run V dev eps i (msg # msgs) count v = do {
     (rc, v1) \<leftarrow> post_send V dev eps (counted_post i count msg) v;
     (rcs, count', v2) \<leftarrow> post_run V dev eps i msgs (count + 1) v1;
     Some (rc # rcs, count', v2)
   }"

lemma count_mask: "(of_nat n :: u32) AND S_DEPTH_MASK = of_nat (n mod 4096)"
proof -
  have "S_DEPTH_MASK = mask 12" by (simp add: S_DEPTH_MASK_def mask_eq_exp_minus_1)
  then have "(of_nat n :: u32) AND S_DEPTH_MASK = take_bit 12 (of_nat n)" by (simp add: take_bit_eq_mask)
  also have "\<dots> = of_nat (take_bit 12 n)" by (rule take_bit_of_nat)
  also have "take_bit 12 n = n mod 4096" by (simp add: take_bit_eq_mod)
  finally show ?thesis .
qed

lemma small_u32: "a < 2 ^ 32 \<Longrightarrow> b < 2 ^ 32 \<Longrightarrow> (of_nat a :: u32) = of_nat b \<longleftrightarrow> a = b"
  by (simp add: word_of_nat_eq_iff take_bit_nat_eq_self)

lemma send_flags_of: "send_flags (of_nat n) = (if n mod 4096 = 0 then IBV_SEND_SIGNALED else 0)"
  using small_u32 [of "n mod 4096" 0] by (simp add: send_flags_def count_mask)

lemma send_polls_of: "send_polls (of_nat n) \<longleftrightarrow> n mod 4096 = 4095"
  using small_u32 [of "n mod 4096" 4095] by (simp add: send_polls_def count_mask) (simp add: S_DEPTH_MASK_def)

lemma inline_signaled: "(f OR IBV_SEND_INLINE) AND IBV_SEND_SIGNALED = f AND IBV_SEND_SIGNALED"
  by (rule bit_word_eqI) (auto simp: IBV_SEND_INLINE_def IBV_SEND_SIGNALED_def bit_simps)

context verbs_sq
begin

lemma counted_post_ok:
  assumes s: "sent n v" and cap: "8191 \<le> cap"
    and ep: "i < length eps" "qp (eps ! i) = Some q" "cq (eps ! i) = Some c" "lcl_mr dev \<noteq> None"
  shows "\<exists>v1. post_send V dev eps (counted_post i (of_nat n) msg) v = Some (0, v1) \<and> sent (Suc n) v1"
proof -
  have "\<exists>w. poll_before V (send_polls (of_nat n)) (Some c) v = Some w \<and>
      ready w \<and> posted w = n \<and> posted w - retired w \<le> 8190 \<and>
      retired w = (if Suc n < 4096 then 0 else 4096 * (Suc n div 4096 - 1) + 1) \<and>
      sigs w = (if n mod 4096 = 0 \<or> n mod 4096 = 4095 then [] else [4096 * (n div 4096)])"
  proof (cases "n mod 4096 = 4095")
    case True
    then obtain w where w: "poll_loop V (Some c) 1 0 [] v = Some (1, [0], w)" "ready w" "posted w = n"
        "retired w = Suc (4096 * (n div 4096))" "sigs w = []"
      using poll_returns [of v "4096 * (n div 4096)" "[]"] s by (auto simp: sent_def)
    have "Suc n div 4096 = Suc (n div 4096)" using True by (simp add: div_Suc mod_Suc)
    moreover have "\<not> Suc n < 4096" using True mod_less_eq_dividend [of n 4096] by linarith
    ultimately have "Suc n div 4096 = Suc (n div 4096)" "\<not> Suc n < 4096" by blast+
    then show ?thesis using w True by (auto simp: poll_before_def send_polls_of poll_cq_def)
  next
    case False
    then have "Suc n div 4096 = n div 4096" by (simp add: div_Suc mod_Suc)
    moreover have "Suc n < 4096 \<longleftrightarrow> n < 4096" using False mod_less [of n 4096] by linarith
    ultimately show ?thesis using s False sent_room [OF s] by (auto simp: poll_before_def send_polls_of sent_def)
  qed
  then obtain w where w: "poll_before V (send_polls (of_nat n)) (Some c) v = Some w"
      "ready w" "posted w = n" "posted w - retired w \<le> 8190"
      "retired w = (if Suc n < 4096 then 0 else 4096 * (Suc n div 4096 - 1) + 1)"
      "sigs w = (if n mod 4096 = 0 \<or> n mod 4096 = 4095 then [] else [4096 * (n div 4096)])" by blast
  let ?fl = "inline_flags dev (length (fst msg)) (send_flags (of_nat n))"
  obtain v1 where v1: "vb_post_send V (Some q) \<lparr>wr_buf = fst msg, wr_flags = ?fl, wr_raddr = raddr (snd msg), wr_rkey = rkey (snd msg)\<rparr> w = (0, v1)"
      "ready v1" "posted v1 = Suc n" "retired v1 = retired w" "sigs v1 = sigs w @ (if ?fl AND IBV_SEND_SIGNALED \<noteq> 0 then [n] else [])"
    using post [OF w(2), of "\<lparr>wr_buf = fst msg, wr_flags = ?fl, wr_raddr = raddr (snd msg), wr_rkey = rkey (snd msg)\<rparr>"] w(3,4) cap by auto
  have fl: "?fl AND IBV_SEND_SIGNALED \<noteq> 0 \<longleftrightarrow> n mod 4096 = 0"
    by (simp add: inline_flags_def inline_signaled send_flags_of) (simp add: IBV_SEND_SIGNALED_def)
  have d: "n mod 4096 = 0 \<Longrightarrow> n = 4096 * (Suc n div 4096) \<and> Suc n mod 4096 \<noteq> 0"
    "n mod 4096 = 4095 \<Longrightarrow> Suc n mod 4096 = 0"
    "n mod 4096 \<noteq> 0 \<Longrightarrow> n mod 4096 \<noteq> 4095 \<Longrightarrow> Suc n mod 4096 \<noteq> 0 \<and> Suc n div 4096 = n div 4096"
    using mult_div_mod_eq [of 4096 n] by (simp_all add: div_Suc mod_Suc)
  have "sent (Suc n) v1"
    using v1(2-5) w(5,6) d unfolding fl sent_def by auto
  moreover have "post_send V dev eps (counted_post i (of_nat n) msg) v = Some (0, v1)"
    using w(1) v1(1) ep by (simp add: post_send_def counted_post_def Let_def)
  ultimately show ?thesis by blast
qed

lemma run_bounded:
  assumes "sent n v" and "8191 \<le> cap"
    and "i < length eps" "qp (eps ! i) = Some q" "cq (eps ! i) = Some c" "lcl_mr dev \<noteq> None"
  shows "\<exists>v1. post_run V dev eps i msgs (of_nat n) v = Some (replicate (length msgs) 0, of_nat (n + length msgs), v1) \<and>
     sent (n + length msgs) v1"
  using assms(1)
proof (induction msgs arbitrary: n v)
  case (Cons msg msgs)
  obtain v1 where v1: "post_send V dev eps (counted_post i (of_nat n) msg) v = Some (0, v1)" "sent (Suc n) v1"
    using counted_post_ok [OF Cons.prems assms(2-)] by blast
  obtain v2 where "post_run V dev eps i msgs (of_nat (Suc n)) v1 = Some (replicate (length msgs) 0, of_nat (Suc n + length msgs), v2)"
      "sent (Suc n + length msgs) v2"
    using Cons.IH [OF v1(2)] by blast
  then show ?case using v1(1) by (simp add: add.commute)
qed (use assms in simp)

end

section \<open>A simulated adapter\<close>

text \<open>
  An adapter that has the documented behaviour: it follows the state diagram, completes every
  signaled request at once and frees the places of the send queue when a completion is polled. It
  shows that the assumptions on the library can be met.
\<close>

record hca =
  h_state :: "nat \<Rightarrow> qps"
  h_posted :: "nat \<Rightarrow> nat"
  h_retired :: "nat \<Rightarrow> nat"
  h_sigs :: "nat \<Rightarrow> nat list"
  h_cap :: nat
  h_inline :: u32

definition hca_modify :: "nat option \<Rightarrow> qp_attr \<Rightarrow> qp_mask list \<Rightarrow> hca \<Rightarrow> int \<times> hca" where
  "hca_modify q a msk h =
     (case q of None \<Rightarrow> (22, h)
      | Some q \<Rightarrow> if qp_edge (h_state h q) (qa_state a) then (0, h\<lparr>h_state := (h_state h)(q := qa_state a)\<rparr>) else (22, h))"

definition hca_post :: "nat option \<Rightarrow> send_wr \<Rightarrow> hca \<Rightarrow> int \<times> hca" where
  "hca_post q wr h =
     (case q of None \<Rightarrow> (22, h)
      | Some q \<Rightarrow>
          if h_state h q \<noteq> QPS_RTS then (22, h)
          else if h_cap h \<le> h_posted h q - h_retired h q then (12, h)
          else (0, h\<lparr>h_posted := (h_posted h)(q := Suc (h_posted h q)),
                 h_sigs := (if wr_flags wr AND IBV_SEND_SIGNALED \<noteq> 0
                            then (h_sigs h)(q := h_sigs h q @ [h_posted h q]) else h_sigs h)\<rparr>))"

text \<open>The queue pair and the completion queue of a connection have the same number.\<close>

definition hca_poll :: "nat option \<Rightarrow> nat \<Rightarrow> hca \<Rightarrow> int \<times> int list \<times> hca" where
  "hca_poll c n h =
     (case c of None \<Rightarrow> (- 1, [], h)
      | Some c \<Rightarrow>
          (case h_sigs h c of
             [] \<Rightarrow> (0, [], h)
           | s # ss \<Rightarrow> (1, [0], h\<lparr>h_sigs := (h_sigs h)(c := ss), h_retired := (h_retired h)(c := Suc s)\<rparr>)))"

definition hca_verbs :: "hca verbs" where
  "hca_verbs = \<lparr>vb_create_cq = \<lambda>_ h. (Some 0, h), vb_destroy_cq = \<lambda>_ h. (0, h),
     vb_create_qp = \<lambda>a h. (if qi_max_inline a \<le> h_inline h then Some 0 else None, h), vb_destroy_qp = \<lambda>_ h. (0, h),
     vb_modify_qp = hca_modify, vb_post_send = hca_post, vb_poll_cq = hca_poll,
     vb_alloc_pd = \<lambda>h. (Some 0, h), vb_dealloc_pd = \<lambda>h. h,
     vb_reg_mr = \<lambda>n _ h. (Some \<lparr>mr_addr = 4096, mr_len = n, mr_lkey = 1, mr_rkey = 2\<rparr>, h), vb_dereg_mr = \<lambda>h. (0, h)\<rparr>"

interpretation hca_qp: verbs_qp hca_verbs h_state
  by unfold_locales (auto simp: hca_verbs_def hca_modify_def split: if_splits)

interpretation hca_cq: verbs_cq hca_verbs "\<lambda>h c. length (h_sigs h c)"
  by unfold_locales (auto simp: hca_verbs_def hca_post_def hca_poll_def split: if_splits)

interpretation hca_sq: verbs_sq hca_verbs 0 0 8192 "\<lambda>h. h_state h 0 = QPS_RTS \<and> h_cap h = 8192"
    "\<lambda>h. h_posted h 0" "\<lambda>h. h_retired h 0" "\<lambda>h. h_sigs h 0" "\<lambda>h. 0"
  by unfold_locales (auto simp: hca_verbs_def hca_post_def hca_poll_def)

section \<open>Properties\<close>


definition sample_hca :: "qps \<Rightarrow> hca" where
  "sample_hca s = \<lparr>h_state = \<lambda>_. s, h_posted = \<lambda>_. 0, h_retired = \<lambda>_. 0, h_sigs = \<lambda>_. [], h_cap = 8192, h_inline = 188\<rparr>"

definition sample_ep :: dare_ib_ep where
  "sample_ep = \<lparr>rmt_mr = \<lparr>raddr = 4096, rkey = 7\<rparr>, qp = Some 0, qpn = 17, send_count = 3, cq = Some 0, rc_connected = True\<rparr>"

definition sample_dev :: ib_device where
  "sample_dev = \<lparr>max_qp_wr = 16384, max_cqe = 65536, max_qp_rd_atom = 16, pkey_index = 0, port_num = 1, mtu = 5, lid = 3,
     gid_idx = 0, rc_pd = Some 0, rc_cqe = 65536, lcl_mr = Some \<lparr>mr_addr = 4096, mr_len = 100, mr_lkey = 1, mr_rkey = 2\<rparr>,
     rc_max_inline_data = 188, rc_max_send_wr = 16384\<rparr>"


text \<open>
  C15: A heartbeat or a vote request with at least one peer, and every vote acknowledgement, is never sent
  with success: these calls pass the literal 1 as the flags of the request, which is
  \<open>IBV_SEND_FENCE\<close> and not \<open>IBV_SEND_SIGNALED\<close>, and then wait for a completion that is never
  generated. They return only when posting fails.
\<close>

theorem ctrl_messages_hang:
  assumes V: "verbs_cq V due" and none: "\<forall>c. due v c = 0"
    and eps: "\<forall>ep \<in> set (servers sv). cq ep \<noteq> None \<and> qp ep \<noteq> None" and len: "cid_size8 sv \<le> length (servers sv)"
  shows "(hb_peers sv \<noteq> [] \<longrightarrow> rc_send_hb V dev sv v = Some (rc, v') \<longrightarrow> rc = 1) \<and>
    (vote_peers sv \<noteq> [] \<longrightarrow> rc_send_vote_request V dev sv v = Some (rc, sv', v') \<longrightarrow> rc = 1) \<and>
    (rc_send_vote_ack V dev sv v = Some (rc, v') \<longrightarrow> rc = 1)"
proof -
  have loop: "rc = 1" if "send_ctrl_loop V dev (servers sv) bs off is v = Some (rc, v')" "is \<noteq> []" "set is \<subseteq> {..<length (servers sv)}"
    for bs off "is"
  proof -
    obtain i js where i: "is = i # js" using \<open>is \<noteq> []\<close> by (cases "is") auto
    then have "servers sv ! i \<in> set (servers sv)" using that(3) by simp
    then obtain c q where "cq (servers sv ! i) = Some c" "qp (servers sv ! i) = Some q" using eps by blast
    then show ?thesis using verbs_cq.ctrl_hangs [OF V that(1) [unfolded i]] none by simp
  qed
  have "set (hb_peers sv) \<subseteq> {..<length (servers sv)}" "set (vote_peers sv) \<subseteq> {..<length (servers sv)}"
    using len by (auto simp: hb_peers_def vote_peers_def)
  then show ?thesis
    using loop by (auto simp: rc_send_hb_def rc_send_vote_request_def rc_send_vote_ack_def Let_def simp del: send_ctrl_loop.simps split: if_splits)
qed

definition sample_srv :: server_data where
  "sample_srv = \<lparr>srv_log = \<lambda>_. 0, srv_idx = 0, srv_cid_size = 2, servers = [sample_ep, sample_ep]\<rparr>"

theorem ctrl_messages_hang_witness:
  "\<not> (\<exists>v'. rc_send_hb hca_verbs sample_dev sample_srv (sample_hca QPS_RTS) = Some (0, v'))"
proof -
  have p: "hb_peers sample_srv = [1]" "cid_size8 sample_srv = 2"
    by (simp_all add: hb_peers_def cid_size8_def sample_srv_def upt_rec)
  have "\<forall>c. length (h_sigs (sample_hca QPS_RTS) c) = 0" by (simp add: sample_hca_def)
  note hang = ctrl_messages_hang [OF hca_cq.verbs_cq_axioms this, of sample_srv sample_dev]
  have "\<forall>ep \<in> set (servers sample_srv). cq ep \<noteq> None \<and> qp ep \<noteq> None" "cid_size8 sample_srv \<le> length (servers sample_srv)"
    using p(2) by (simp_all add: sample_srv_def sample_ep_def)
  note hang = hang [OF this]
  show ?thesis
  proof (intro notI, elim exE)
    fix v' assume "rc_send_hb hca_verbs sample_dev sample_srv (sample_hca QPS_RTS) = Some (0, v')"
    then show False using hang [of 0 v' sample_srv] p(1) by simp
  qed
qed



text \<open>
  C37: The probe for the inline size ends and finds the largest power of two up to $2^{20}$ with
  which a queue pair can be created; when there is none it reports an error.
\<close>

theorem find_max_inline_correct:
  assumes cq: "\<And>v. up v \<Longrightarrow> \<exists>c v1. vb_create_cq V 1 v = (Some c, v1) \<and> up v1"
    and qp: "\<And>c w v. up v \<Longrightarrow> (fst (vb_create_qp V (inline_attr (Some c) w) v) \<noteq> None \<longleftrightarrow> fits w) \<and>
      up (snd (vb_create_qp V (inline_attr (Some c) w) v))"
    and up: "up v"
  shows "\<exists>rc w v1. find_max_inline V v = (rc, w, v1) \<and>
     (case filter (\<lambda>e. fits (2 ^ e)) (rev [0..<21]) of [] \<Rightarrow> rc = 1 \<and> w = 0 | e # _ \<Rightarrow> rc = 0 \<and> w = 2 ^ e)"
proof -
  have loop: "\<exists>rc w v1. inline_loop V (Some c) (2 ^ k) v = (rc, w, v1) \<and>
     (case filter (\<lambda>e. fits (2 ^ e)) (rev [0..<Suc k]) of [] \<Rightarrow> rc = 1 \<and> w = 0 | e # _ \<Rightarrow> rc = 0 \<and> w = 2 ^ e)"
    if "k \<le> 20" "up v" for c k v
    using that
  proof (induction k arbitrary: v)
    case 0
    show ?case
      using qp [where c = c and w = 1, OF 0(2)]
      by (subst inline_loop.simps) (auto simp: inline_loop.simps [of V "Some c" 0] split: prod.split option.split)
  next
    case (Suc k)
    have half: "drop_bit 1 (2 ^ Suc k :: u32) = 2 ^ k"
      using Suc.prems by (intro bit_word_eqI) (auto simp: bit_drop_bit_eq bit_exp_iff simp del: power_Suc)
    have pos: "(0 :: u32) < 2 ^ Suc k" using Suc.prems by (simp add: word_gt_0 flip: power_Suc)
    obtain o' v1 where c: "vb_create_qp V (inline_attr (Some c) (2 ^ Suc k)) v = (o', v1)" by force
    show ?case
    proof (cases o')
      case None
      then have "\<not> fits (2 ^ Suc k)" "up v1" using qp [where c = c and w = "2 ^ Suc k", OF Suc.prems(2)] c by simp_all
      moreover have "inline_loop V (Some c) (2 ^ Suc k) v = inline_loop V (Some c) (2 ^ k) v1"
        by (subst inline_loop.simps) (simp only: c None half pos if_True prod.case option.case)
      ultimately show ?thesis using Suc.IH [of v1] Suc.prems by (simp del: power_Suc)
    next
      case (Some q)
      then have "fits (2 ^ Suc k)" using qp [where c = c and w = "2 ^ Suc k", OF Suc.prems(2)] c by simp
      moreover have "inline_loop V (Some c) (2 ^ Suc k) v = (0, 2 ^ Suc k, snd (vb_destroy_qp V (Some q) v1))"
        by (subst inline_loop.simps) (simp only: c Some pos if_True prod.case option.case)
      ultimately show ?thesis by (simp del: power_Suc)
    qed
  qed
  obtain c v1 where c: "vb_create_cq V 1 v = (Some c, v1)" "up v1" using cq [OF up] by blast
  obtain rc w v2 where l: "inline_loop V (Some c) (2 ^ 20) v1 = (rc, w, v2)"
      "case filter (\<lambda>e. fits (2 ^ e)) (rev [0..<Suc 20]) of [] \<Rightarrow> rc = 1 \<and> w = 0 | e # _ \<Rightarrow> rc = 0 \<and> w = 2 ^ e"
    using loop [of 20 v1 c] c(2) by auto
  have "find_max_inline V v = (rc, w, snd (vb_destroy_cq V (Some c) v2))"
    using l(1) c(1) by (simp add: find_max_inline_def)
  then show ?thesis using l(2) by (intro exI conjI) simp_all
qed

theorem find_max_inline_correct_witness:
  "fst (find_max_inline hca_verbs (sample_hca QPS_RTS)) = 0 \<and> fst (snd (find_max_inline hca_verbs (sample_hca QPS_RTS))) = 128"
proof -
  have "\<exists>rc w v1. find_max_inline hca_verbs (sample_hca QPS_RTS) = (rc, w, v1) \<and>
     (case filter (\<lambda>e. (2 :: u32) ^ e \<le> 188) (rev [0..<21]) of [] \<Rightarrow> rc = 1 \<and> w = 0 | e # _ \<Rightarrow> rc = 0 \<and> w = 2 ^ e)"
    by (rule find_max_inline_correct [where up = "\<lambda>h. h_inline h = 188"]) (simp_all add: hca_verbs_def inline_attr_def sample_hca_def)
  then show ?thesis by (auto simp: upt_rec)
qed

end
