(* ===== verification/Transition.thy ===== *)
theory Transition
  imports Main
begin

text \<open>
  Transition systems with an invariant. \<open>invariant_system\<close> is the contract of a component whose
  behaviour is a step relation: an invariant that holds at the start and is kept by every step
  holds in every reachable state. \<open>layered_invariant\<close> adds a second property whose preservation
  may rely on the first.
\<close>

locale invariant_system =
  fixes init :: "'s \<Rightarrow> bool" and step :: "'s \<Rightarrow> 's \<Rightarrow> bool" and inv :: "'s \<Rightarrow> bool"
  assumes init_inv: "init s \<Longrightarrow> inv s"
    and step_inv: "inv s \<Longrightarrow> step s s' \<Longrightarrow> inv s'"
begin

lemma steps_inv:
  assumes "step\<^sup>*\<^sup>* s s'" and "inv s"
  shows "inv s'"
  using assms by (induction rule: rtranclp_induct) (auto intro: step_inv)

lemma reach_inv: "init s \<Longrightarrow> step\<^sup>*\<^sup>* s s' \<Longrightarrow> inv s'"
  using init_inv steps_inv by blast

end

locale layered_invariant = invariant_system init step inv
  for init :: "'s \<Rightarrow> bool" and step inv +
  fixes extra :: "'s \<Rightarrow> bool"
  assumes extra_init: "init s \<Longrightarrow> extra s"
    and extra_step: "inv s \<Longrightarrow> extra s \<Longrightarrow> step s s' \<Longrightarrow> extra s'"
begin

lemma steps_extra:
  assumes "step\<^sup>*\<^sup>* s s'" and "inv s" and "extra s"
  shows "extra s'"
proof -
  from assms have "inv s' \<and> extra s'"
    by (induction rule: rtranclp_induct) (auto intro: step_inv extra_step)
  then show ?thesis ..
qed

lemma reach_extra: "init s \<Longrightarrow> step\<^sup>*\<^sup>* s s' \<Longrightarrow> extra s'"
  using init_inv extra_init steps_extra by blast

end

text \<open>A relation between successive states of which the composition is again contained in it.\<close>

locale monotone_system = invariant_system init step inv
  for init :: "'s \<Rightarrow> bool" and step inv +
  fixes le :: "'s \<Rightarrow> 's \<Rightarrow> bool"
  assumes le_refl: "le s s" and le_trans: "le s t \<Longrightarrow> le t u \<Longrightarrow> le s u"
    and step_le: "inv s \<Longrightarrow> step s s' \<Longrightarrow> le s s'"
begin

lemma steps_le:
  assumes "step\<^sup>*\<^sup>* s s'" and "inv s"
  shows "le s s'"
  using assms
proof (induction rule: rtranclp_induct)
  case (step t u)
  then show ?case using steps_inv [of s t] step_le [of t u] le_trans by blast
qed (rule le_refl)

end

end
