(* ===== verification/Election.thy ===== *)
theory Election
  imports Ibv_Rc Transition
begin

text \<open>
  The heartbeat and election protocol of \<open>rdma/dare_server.c\<close>. Everything the servers tell each
  other goes through the control data of the log: heartbeats, vote requests and vote
  acknowledgements are remote writes into arrays with one slot per server. The handlers of the
  event loop are functions of the server state; the timer is kept as what it is set to, and the
  outcome of a transport call is a parameter. \<open>el_sent\<close> records the calls in order. The file uses
  \<open>config.idx\<close> as a number, and so does the model, although \<open>dare_config.h\<close> declares a pointer.
\<close>

section \<open>State\<close>

datatype hb_cb = HB_SEND | HB_RECEIVE

datatype timer = T_OFF | T_NOW | T_HB_PERIOD | T_HB_TIMEOUT | T_ELECTION u64

datatype ctrl_msg = HeartBeat u64 | VoteRequest u64 | VoteAck u64

record election =
  el_srv :: server_data
  el_cb :: hb_cb
  el_repeat :: timer
  el_polling :: bool
  el_sent :: "ctrl_msg list"

definition el_log :: "election \<Rightarrow> mem" where "el_log st = srv_log (el_srv st)"
definition el_idx :: "election \<Rightarrow> u32" where "el_idx st = srv_idx (el_srv st)"
definition el_size :: "election \<Rightarrow> nat" where "el_size st = cid_size8 (el_srv st)"
definition el_sid :: "election \<Rightarrow> u64" where "el_sid st = log_sid (el_log st)"

definition set_el_log :: "election \<Rightarrow> mem \<Rightarrow> election" where
  "set_el_log st m = st\<lparr>el_srv := (el_srv st)\<lparr>srv_log := m\<rparr>\<rparr>"

definition hb_off :: "nat \<Rightarrow> nat" where "hb_off i = OFF_HB + 8 * i"

definition req_sid :: "mem \<Rightarrow> nat \<Rightarrow> u64" where "req_sid m i = get_u64 m (vote_req_off i)"
definition req_index :: "mem \<Rightarrow> nat \<Rightarrow> u64" where "req_index m i = get_u64 m (vote_req_off i + 8)"
definition req_term :: "mem \<Rightarrow> nat \<Rightarrow> u64" where "req_term m i = get_u64 m (vote_req_off i + 16)"
definition vote_ack :: "mem \<Rightarrow> nat \<Rightarrow> u64" where "vote_ack m i = get_u64 m (vote_ack_off i)"

section \<open>Handlers\<close>

text \<open>The timeout in microseconds from a number of \<open>lrand48\<close>; the two bounds are constants of the file.\<close>

definition elec_timeout_low :: u64 where "elec_timeout_low = 100000"
definition elec_timeout_high :: u64 where "elec_timeout_high = 300000"

definition random_election_timeout :: "u64 \<Rightarrow> u64" where
  "random_election_timeout rnd = rnd mod (elec_timeout_high - elec_timeout_low) + elec_timeout_low"

definition server_update_sid :: "u64 \<Rightarrow> u64 \<Rightarrow> election \<Rightarrow> int \<times> election" where
  "server_update_sid new_sid old_sid st =
     (0, if el_sid st = old_sid then set_el_log st (set_sid (el_log st) new_sid) else st)"

definition is_candidate :: "election \<Rightarrow> bool" where
  "is_candidate st \<longleftrightarrow> ucast (SID_GET_IDX (el_sid st)) = el_idx st \<and> SID_GET_L (el_sid st) = 0"

definition hb_begin :: "election \<Rightarrow> election" where
  "hb_begin st =
     (let sid = SID_SET_IDX (SID_SET_L (SID_SET_TERM 0 1)) (ucast INIT_LEADER);
          st1 = snd (server_update_sid sid (el_sid st) st)
      in if el_idx st = INIT_LEADER
         then st1\<lparr>el_cb := HB_SEND, el_repeat := T_HB_PERIOD\<rparr>
         else st1\<lparr>el_cb := HB_RECEIVE, el_repeat := T_HB_TIMEOUT\<rparr>)"

fun clear_votes :: "nat list \<Rightarrow> mem \<Rightarrow> mem" where
  "clear_votes [] m = m"
| "clear_votes (i # is) m = clear_votes is (put_u64 m (vote_ack_off i) (log_len m))"

definition start_election :: "u64 \<Rightarrow> election \<Rightarrow> election" where
  "start_election rnd st =
     (let sid = el_sid st;
          new_sid = SID_SET_IDX (SID_UNSET_L (SID_SET_TERM 0 (SID_GET_TERM sid + 1))) (ucast (el_idx st))
      in case server_update_sid new_sid sid st of
           (rc, st1) \<Rightarrow>
             if rc \<noteq> 0 then st1
             else
               let st2 = set_el_log st1 (clear_votes [0..<el_size st1] (el_log st1));
                   st3 = st2\<lparr>el_cb := HB_RECEIVE, el_repeat := T_ELECTION (random_election_timeout rnd)\<rparr>
               in (set_el_log st3 (set_vote_request (el_srv st3)))\<lparr>el_sent := el_sent st3 @ [VoteRequest (el_sid st3)]\<rparr>)"

fun read_hb :: "nat \<Rightarrow> nat list \<Rightarrow> mem \<Rightarrow> bool \<Rightarrow> mem \<times> bool" where
  "read_hb idx [] m timeout = (m, timeout)"
| "read_hb idx (i # is) m timeout =
     (if i = idx then read_hb idx is m timeout
      else read_hb idx is (put_u64 m (hb_off i) 0) (if get_u64 m (hb_off i) = 0 then timeout else False))"

definition hb_receive_cb :: "u64 \<Rightarrow> election \<Rightarrow> election" where
  "hb_receive_cb rnd st =
     (if el_idx st = INIT_LEADER then st
      else (case read_hb (unat (el_idx st)) [0..<el_size st] (el_log st) True of
              (m, timeout) \<Rightarrow>
                let st1 = set_el_log st m
                in if timeout then (start_election rnd (st1\<lparr>el_repeat := T_OFF\<rparr>))\<lparr>el_polling := True\<rparr>
                   else st1\<lparr>el_repeat := T_HB_TIMEOUT\<rparr>))"

definition hb_send_cb :: "election \<Rightarrow> election" where
  "hb_send_cb st = st\<lparr>el_sent := el_sent st @ [HeartBeat (el_sid st)], el_repeat := T_HB_PERIOD\<rparr>"

definition vote_count :: "election \<Rightarrow> nat" where
  "vote_count st =
     1 + length (filter (\<lambda>i. i \<noteq> unat (el_idx st) \<and> vote_ack (el_log st) i \<noteq> log_len (el_log st)) [0..<el_size st])"

definition poll_vote_count :: "election \<Rightarrow> election" where
  "poll_vote_count st =
     (if unat (word_of_nat (vote_count st) :: u8) < unat (srv_cid_size (el_srv st)) div 2 + 1 then st
      else
        let sid = el_sid st
        in case server_update_sid (SID_SET_L sid) sid st of
             (rc, st1) \<Rightarrow> if rc \<noteq> 0 then st1 else st1\<lparr>el_cb := HB_SEND, el_repeat := T_NOW\<rparr>)"

text \<open>The first loop looks for a request above the own identifier and drops the others.\<close>

fun best_sid :: "nat \<Rightarrow> nat list \<Rightarrow> mem \<Rightarrow> u64 \<Rightarrow> mem \<times> u64" where
  "best_sid idx [] m best = (m, best)"
| "best_sid idx (i # is) m best =
     (if i = idx then best_sid idx is m best
      else if best \<ge> req_sid m i then best_sid idx is (put_u64 m (vote_req_off i) 0) best
      else best_sid idx is m (req_sid m i))"

text \<open>The second loop compares what the candidates say about their logs.\<close>

record vote_req =
  vr_sid :: u64
  vr_index :: u64
  vr_term :: u64

fun best_request :: "nat list \<Rightarrow> mem \<Rightarrow> vote_req \<Rightarrow> u64 \<Rightarrow> mem \<times> vote_req \<times> u64" where
  "best_request [] m best highest_term = (m, best, highest_term)"
| "best_request (i # is) m best highest_term =
     (if vr_sid best > req_sid m i then best_request is (put_u64 m (vote_req_off i) 0) best highest_term
      else
        let ht = (if highest_term < SID_GET_TERM (req_sid m i) then SID_GET_TERM (req_sid m i) else highest_term)
        in if vr_term best > req_term m i \<or> vr_term best = req_term m i \<and> vr_index best > req_index m i
           then best_request is m best ht
           else best_request is (put_u64 m (vote_req_off i) 0)
                  \<lparr>vr_sid = req_sid m i, vr_index = req_index m i, vr_term = req_term m i\<rparr> ht)"

definition poll_vote_requests :: "(u64 \<Rightarrow> int) \<Rightarrow> u64 \<Rightarrow> election \<Rightarrow> election" where
  "poll_vote_requests ack_rc rnd st =
     (if SID_GET_L (el_sid st) \<noteq> 0 then st
      else
        let old_sid = SID_SET_L (el_sid st)
        in case best_sid (unat (el_idx st)) [0..<el_size st] (el_log st) old_sid of
             (m1, best) \<Rightarrow>
               if best = old_sid then set_el_log st m1
               else
                 (case best_request [0..<el_size st] m1
                     \<lparr>vr_sid = old_sid, vr_index = (if el_idx st = FIXED_LEADER then 1 else 0), vr_term = 1\<rparr> (SID_GET_TERM best) of
                    (m2, br, highest_term) \<Rightarrow>
                      let st2 = set_el_log st m2
                      in if vr_sid br = old_sid
                         then snd (server_update_sid (SID_SET_IDX (SID_SET_TERM (el_sid st2) highest_term) (ucast (el_idx st2)))
                                (el_sid st2) st2)
                         else
                           (case server_update_sid (vr_sid br) (el_sid st2) (st2\<lparr>el_repeat := T_OFF\<rparr>) of
                              (rc, st3) \<Rightarrow>
                                if rc \<noteq> 0 then st3
                                else
                                  let st4 = st3\<lparr>el_sent := el_sent st3 @ [VoteAck (el_sid st3)]\<rparr>
                                  in if ack_rc (el_sid st3) < 0 then start_election rnd st4
                                     else st4\<lparr>el_cb := HB_RECEIVE, el_repeat := T_HB_TIMEOUT\<rparr>)))"

definition polling :: "(u64 \<Rightarrow> int) \<Rightarrow> u64 \<Rightarrow> election \<Rightarrow> election" where
  "polling ack_rc rnd st = poll_vote_requests ack_rc rnd (if is_candidate st then poll_vote_count st else st)"

section \<open>The control arrays\<close>

lemmas ctrl_offs = vote_req_off_def vote_ack_off_def hb_off_def

lemma ctrl_writes [simp]:
  "log_sid (put_u64 m (vote_req_off i) v) = log_sid m" "log_len (put_u64 m (vote_req_off i) v) = log_len m"
  "log_sid (put_u64 m (vote_req_off i + 8) v) = log_sid m" "log_len (put_u64 m (vote_req_off i + 8) v) = log_len m"
  "log_sid (put_u64 m (vote_req_off i + 16) v) = log_sid m" "log_len (put_u64 m (vote_req_off i + 16) v) = log_len m"
  "log_sid (put_u64 m (vote_ack_off i) v) = log_sid m" "log_len (put_u64 m (vote_ack_off i) v) = log_len m"
  "log_sid (put_u64 m (hb_off i) v) = log_sid m" "log_len (put_u64 m (hb_off i) v) = log_len m"
  by (simp_all add: log_sid_def log_len_def ctrl_offs layout_simps mem_simps)

lemma req_sid_writes [simp]:
  "req_sid (put_u64 m (vote_req_off i) v) j = (if i = j then v else req_sid m j)"
  "req_sid (put_u64 m (vote_req_off i + 8) v) j = req_sid m j"
  "req_sid (put_u64 m (vote_req_off i + 16) v) j = req_sid m j"
  "req_sid (set_sid m v) j = req_sid m j"
proof -
  have "i < j \<or> j < i" if "i \<noteq> j" using that by arith
  then show "req_sid (put_u64 m (vote_req_off i) v) j = (if i = j then v else req_sid m j)"
    by (auto simp: req_sid_def ctrl_offs layout_simps mem_simps)
  show "req_sid (put_u64 m (vote_req_off i + 8) v) j = req_sid m j" "req_sid (put_u64 m (vote_req_off i + 16) v) j = req_sid m j"
    by (simp_all add: req_sid_def ctrl_offs layout_simps) (rule get_put_other, presburger)+
  show "req_sid (set_sid m v) j = req_sid m j"
    by (simp add: req_sid_def set_sid_def ctrl_offs layout_simps mem_simps)
qed

lemma req_sid_other [simp]:
  "j < MAX_SERVER_COUNT \<Longrightarrow> req_sid (put_u64 m (vote_ack_off i) v) j = req_sid m j"
  "j < MAX_SERVER_COUNT \<Longrightarrow> req_sid (put_u64 m (hb_off i) v) j = req_sid m j"
  by (simp_all add: req_sid_def ctrl_offs layout_simps mem_simps)

lemma el_simps [simp]:
  "el_log (set_el_log st m) = m" "el_idx (set_el_log st m) = el_idx st" "el_size (set_el_log st m) = el_size st"
  "el_sid (set_el_log st m) = log_sid m" "el_sent (set_el_log st m) = el_sent st"
  "srv_cid_size (el_srv (set_el_log st m)) = srv_cid_size (el_srv st)"
  "set_el_log (set_el_log st m) m' = set_el_log st m'"
  by (simp_all add: el_log_def el_idx_def el_size_def el_sid_def set_el_log_def cid_size8_def)

lemma el_upd [simp]:
  "el_log (st\<lparr>el_cb := a\<rparr>) = el_log st" "el_idx (st\<lparr>el_cb := a\<rparr>) = el_idx st" "el_size (st\<lparr>el_cb := a\<rparr>) = el_size st"
  "el_sid (st\<lparr>el_cb := a\<rparr>) = el_sid st"
  "el_log (st\<lparr>el_repeat := b\<rparr>) = el_log st" "el_idx (st\<lparr>el_repeat := b\<rparr>) = el_idx st" "el_size (st\<lparr>el_repeat := b\<rparr>) = el_size st"
  "el_sid (st\<lparr>el_repeat := b\<rparr>) = el_sid st"
  "el_log (st\<lparr>el_polling := d\<rparr>) = el_log st" "el_idx (st\<lparr>el_polling := d\<rparr>) = el_idx st" "el_size (st\<lparr>el_polling := d\<rparr>) = el_size st"
  "el_sid (st\<lparr>el_polling := d\<rparr>) = el_sid st"
  "el_log (st\<lparr>el_sent := e\<rparr>) = el_log st" "el_idx (st\<lparr>el_sent := e\<rparr>) = el_idx st" "el_size (st\<lparr>el_sent := e\<rparr>) = el_size st"
  "el_sid (st\<lparr>el_sent := e\<rparr>) = el_sid st"
  by (simp_all add: el_log_def el_idx_def el_size_def el_sid_def)

lemma set_el_log_upd [simp]:
  "set_el_log (st\<lparr>el_repeat := b\<rparr>) m = (set_el_log st m)\<lparr>el_repeat := b\<rparr>"
  "set_el_log (st\<lparr>el_cb := a\<rparr>) m = (set_el_log st m)\<lparr>el_cb := a\<rparr>"
  "set_el_log (st\<lparr>el_sent := e\<rparr>) m = (set_el_log st m)\<lparr>el_sent := e\<rparr>"
  by (simp_all add: set_el_log_def)

lemma update_sid [simp]:
  "fst (server_update_sid new_sid (el_sid st) st) = 0"
  "snd (server_update_sid new_sid (el_sid st) st) = set_el_log st (set_sid (el_log st) new_sid)"
  by (simp_all add: server_update_sid_def)

lemma clear_votes_frame [simp]:
  "log_sid (clear_votes is m) = log_sid m" "log_len (clear_votes is m) = log_len m"
  "j < MAX_SERVER_COUNT \<Longrightarrow> req_sid (clear_votes is m) j = req_sid m j"
  by (induction "is" arbitrary: m) simp_all

lemma set_vote_request_frame [simp]:
  "log_sid (set_vote_request sv) = log_sid (srv_log sv)"
  "req_sid (set_vote_request sv) j =
     (if j = unat (ucast (srv_idx sv) :: u8) then log_sid (srv_log sv) else req_sid (srv_log sv) j)"
  by (simp_all add: set_vote_request_def Let_def)

lemma read_hb_frame:
  assumes "read_hb idx is m timeout = (m', timeout')"
  shows "log_sid m' = log_sid m" "j < MAX_SERVER_COUNT \<Longrightarrow> req_sid m' j = req_sid m j"
  using assms by (induction "is" arbitrary: m timeout) (auto split: if_splits)

section \<open>Votes\<close>

fun vote_term :: "ctrl_msg \<Rightarrow> u64 option" where
  "vote_term (VoteRequest s) = Some (SID_GET_TERM s)"
| "vote_term (VoteAck s) = Some (SID_GET_TERM s)"
| "vote_term (HeartBeat s) = None"

definition vote_terms :: "election \<Rightarrow> u64 list" where
  "vote_terms st = List.map_filter vote_term (el_sent st)"

lemma vote_terms_simps [simp]:
  "vote_terms (set_el_log st m) = vote_terms st" "vote_terms (st\<lparr>el_cb := a\<rparr>) = vote_terms st"
  "vote_terms (st\<lparr>el_repeat := b\<rparr>) = vote_terms st" "vote_terms (st\<lparr>el_polling := d\<rparr>) = vote_terms st"
  by (simp_all add: vote_terms_def)

lemma vote_terms_append [simp]:
  "vote_terms (st\<lparr>el_sent := el_sent st @ [x]\<rparr>) = vote_terms st @ (case vote_term x of None \<Rightarrow> [] | Some t \<Rightarrow> [t])"
  by (simp add: vote_terms_def map_filter_def split: option.split)

text \<open>The requests in the log come from candidates: they do not carry the leader flag.\<close>

definition requests_ok :: "nat \<Rightarrow> nat \<Rightarrow> mem \<Rightarrow> bool" where
  "requests_ok K n m \<longleftrightarrow> (\<forall>i < n. SID_GET_L (req_sid m i) = 0 \<and> unat (SID_GET_TERM (req_sid m i)) < K)"

text \<open>The largest term a server may reach: the term has 55 bits.\<close>

definition MAX_TERM :: nat where "MAX_TERM = 2 ^ 55 - 1"

definition einv :: "election \<Rightarrow> bool" where
  "einv st \<longleftrightarrow> el_size st \<le> MAX_SERVER_COUNT \<and> unat (el_idx st) < el_size st \<and> requests_ok MAX_TERM (el_size st) (el_log st) \<and>
     sorted_wrt (<) (vote_terms st) \<and> (\<forall>t \<in> set (vote_terms st). t \<le> SID_GET_TERM (el_sid st)) \<and>
     (\<forall>s. VoteRequest s \<in> set (el_sent st) \<longrightarrow> SID_GET_L s = 0 \<and> unat (SID_GET_TERM s) < MAX_TERM)"

lemma sid_zero: "SID_GET_L 0 = 0" "SID_GET_TERM 0 = 0"
  by (simp_all add: SID_GET_L_def SID_GET_TERM_def)

lemma requests_drop: "0 < K \<Longrightarrow> requests_ok K n m \<Longrightarrow> requests_ok K n (put_u64 m (vote_req_off i) 0)"
  by (auto simp: requests_ok_def sid_zero)

lemma best_sid_ok:
  assumes "best_sid idx is m b = (m', b')" and "requests_ok K n m" and "0 < K"
  shows "requests_ok K n m'" "b \<le> b'" "log_sid m' = log_sid m"
  using assms
proof (induction "is" arbitrary: m b)
  case (Cons i "is")
  { case 1 then show ?case using Cons.IH requests_drop [of K n m i] by (auto split: if_splits) }
  { case 2 then show ?case using Cons.IH(2) requests_drop [of K n m i] by (fastforce split: if_splits) }
  { case 3 then show ?case using Cons.IH(3) requests_drop [of K n m i] by (auto split: if_splits) }
qed auto

lemma best_request_ok:
  assumes "best_request is m br ht = (m', br', ht')" and "requests_ok K n m" and "set is \<subseteq> {..<n}" and "0 < K"
  shows "requests_ok K n m' \<and> log_sid m' = log_sid m \<and> ht \<le> ht' \<and> vr_sid br \<le> vr_sid br' \<and>
    (br' = br \<or> SID_GET_L (vr_sid br') = 0 \<and> unat (SID_GET_TERM (vr_sid br')) < K) \<and> (ht' = ht \<or> (\<exists>s. ht' = SID_GET_TERM s))"
  using assms
proof (induction "is" arbitrary: m br ht)
  case (Cons i "is")
  have i: "i < n" "SID_GET_L (req_sid m i) = 0" "unat (SID_GET_TERM (req_sid m i)) < K"
    using Cons.prems(2,3) by (auto simp: requests_ok_def)
  let ?ht = "if ht < SID_GET_TERM (req_sid m i) then SID_GET_TERM (req_sid m i) else ht"
  let ?br = "\<lparr>vr_sid = req_sid m i, vr_index = req_index m i, vr_term = req_term m i\<rparr>"
  have d: "requests_ok K n (put_u64 m (vote_req_off i) 0)" by (rule requests_drop [OF Cons.prems(4,2)])
  have s: "set is \<subseteq> {..<n}" using Cons.prems(3) by simp
  have ht: "ht \<le> ?ht" by (auto intro: less_imp_le)
  have hs: "ht' = ?ht \<Longrightarrow> ht' = ht \<or> (\<exists>s. ht' = SID_GET_TERM s)" by (auto split: if_splits)
  consider "vr_sid br > req_sid m i" "best_request is (put_u64 m (vote_req_off i) 0) br ht = (m', br', ht')"
    | "vr_sid br \<le> req_sid m i" "best_request is m br ?ht = (m', br', ht')"
    | "vr_sid br \<le> req_sid m i" "best_request is (put_u64 m (vote_req_off i) 0) ?br ?ht = (m', br', ht')"
    using Cons.prems(1) by (auto simp: Let_def not_less split: if_splits)
  then show ?case
  proof cases
    case 1
    then show ?thesis using Cons.IH [OF 1(2) d s Cons.prems(4)] by simp
  next
    case 2
    note h = Cons.IH [OF 2(2) Cons.prems(2) s Cons.prems(4)]
    have "ht \<le> ht'" by (rule order_trans [OF ht]) (use h in blast)
    then show ?thesis using h hs by blast
  next
    case 3
    note h = Cons.IH [OF 3(2) d s Cons.prems(4), simplified]
    have "ht \<le> ht'" by (rule order_trans [OF ht]) (use h in blast)
    moreover have "vr_sid br \<le> vr_sid br'" by (rule order_trans [OF 3(1)]) (use h in blast)
    moreover have "SID_GET_L (vr_sid br') = 0 \<and> unat (SID_GET_TERM (vr_sid br')) < K" using h i by auto
    ultimately show ?thesis using h hs by blast
  qed
qed auto

lemma own_idx:
  assumes "unat (el_idx st) < el_size st" and "el_size st \<le> MAX_SERVER_COUNT"
  shows "unat (ucast (el_idx st) :: u8) = unat (el_idx st)" "(ucast (el_idx st) :: u64) < 256"
proof -
  have b: "unat (el_idx st) < 7" using assms by (simp add: layout_simps)
  then show "unat (ucast (el_idx st) :: u8) = unat (el_idx st)" by (simp add: unsigned_ucast_eq take_bit_nat_eq_self)
  show "(ucast (el_idx st) :: u64) < 256" using b by (simp add: word_less_nat_alt unsigned_ucast_eq take_bit_nat_eq_self)
qed

lemma start_election_ok:
  assumes i: "einv st" and r: "unat (SID_GET_TERM (el_sid st)) + 1 < MAX_TERM"
  shows "einv (start_election rnd st)"
    "SID_GET_TERM (el_sid (start_election rnd st)) = SID_GET_TERM (el_sid st) + 1"
proof -
  have t: "unat (SID_GET_TERM (el_sid st)) + 1 < 2 ^ 55" using r by (simp add: MAX_TERM_def)
  have sz: "el_size st \<le> MAX_SERVER_COUNT" "unat (el_idx st) < el_size st" using i by (simp_all add: einv_def)
  note oi = own_idx [OF sz(2,1)]
  define ns where "ns = SID_SET_IDX (SID_UNSET_L (SID_SET_TERM 0 (SID_GET_TERM (el_sid st) + 1))) (ucast (el_idx st))"
  have ut: "unat (SID_GET_TERM (el_sid st) + 1) = unat (SID_GET_TERM (el_sid st)) + 1"
    using t by (simp add: unat_word_ariths)
  have n: "SID_GET_TERM ns = SID_GET_TERM (el_sid st) + 1" "SID_GET_L ns = 0"
    unfolding ns_def using oi(2) t by (simp_all add: ut)
  define st3 where "st3 = (set_el_log (set_el_log st (set_sid (el_log st) ns))
      (clear_votes [0..<el_size st] (set_sid (el_log st) ns)))\<lparr>el_cb := HB_RECEIVE, el_repeat := T_ELECTION (random_election_timeout rnd)\<rparr>"
  have se: "start_election rnd st = (set_el_log st3 (set_vote_request (el_srv st3)))\<lparr>el_sent := el_sent st3 @ [VoteRequest (el_sid st3)]\<rparr>"
    by (simp add: start_election_def Let_def server_update_sid_def ns_def st3_def)
  have s3: "el_sid st3 = ns" "el_sent st3 = el_sent st" "el_idx st3 = el_idx st" "el_size st3 = el_size st" "vote_terms st3 = vote_terms st"
    "srv_log (el_srv st3) = clear_votes [0..<el_size st] (set_sid (el_log st) ns)" "srv_idx (el_srv st3) = el_idx st"
    by (simp_all add: st3_def) (simp_all add: set_el_log_def el_idx_def)
  show "SID_GET_TERM (el_sid (start_election rnd st)) = SID_GET_TERM (el_sid st) + 1"
    unfolding se using s3(6) n(1) by simp
  have "requests_ok MAX_TERM (el_size st) (set_vote_request (el_srv st3))"
    using i n r ut sz unfolding requests_ok_def einv_def by (auto simp: s3)
  moreover have "\<forall>x \<in> set (vote_terms st). x < SID_GET_TERM (el_sid st) + 1"
  proof
    fix x assume "x \<in> set (vote_terms st)"
    then have "x \<le> SID_GET_TERM (el_sid st)" using i by (simp add: einv_def)
    then show "x < SID_GET_TERM (el_sid st) + 1" using ut by (simp add: word_le_nat_alt word_less_nat_alt)
  qed
  moreover have "vote_terms (set_el_log st3 (set_vote_request (el_srv st3))\<lparr>el_sent := el_sent st3 @ [VoteRequest (el_sid st3)]\<rparr>) = vote_terms st @ [SID_GET_TERM ns]"
    using vote_terms_append [of "set_el_log st3 (set_vote_request (el_srv st3))" "VoteRequest ns"] s3 by simp
  ultimately show "einv (start_election rnd st)"
    unfolding einv_def se using sz s3 n i r ut by (auto simp: einv_def sorted_wrt_append intro: less_imp_le)
qed

lemma hb_receive_ok:
  assumes i: "einv st" and t: "unat (SID_GET_TERM (el_sid st)) + 1 < MAX_TERM"
  shows "einv (hb_receive_cb rnd st)"
proof (cases "el_idx st = INIT_LEADER")
  case False
  obtain m tmo where rd: "read_hb (unat (el_idx st)) [0..<el_size st] (el_log st) True = (m, tmo)" by force
  note f = read_hb_frame [OF rd]
  have i1: "einv (set_el_log st m)" using i f by (auto simp: einv_def requests_ok_def el_sid_def)
  then have i2: "einv ((set_el_log st m)\<lparr>el_repeat := r\<rparr>)" for r by (simp add: einv_def)
  have "einv ((start_election rnd ((set_el_log st m)\<lparr>el_repeat := T_OFF\<rparr>))\<lparr>el_polling := True\<rparr>)"
    using start_election_ok(1) [OF i2 [of T_OFF], of rnd] t f(1) by (simp add: einv_def el_sid_def)
  then show ?thesis using False rd i2 by (simp add: hb_receive_cb_def Let_def)
qed (simp add: hb_receive_cb_def i)

lemma poll_vote_count_ok: "einv st \<Longrightarrow> einv (poll_vote_count st)" "SID_GET_TERM (el_sid (poll_vote_count st)) = SID_GET_TERM (el_sid st)"
  by (auto simp: poll_vote_count_def Let_def server_update_sid_def einv_def requests_ok_def)

lemma vote_raises_term:
  assumes "SID_SET_L sid \<le> s" and "SID_GET_L s = 0"
  shows "SID_GET_TERM sid < SID_GET_TERM s"
  using assms sid_less_iff [of s "SID_SET_L sid"] by (auto simp: not_less [symmetric] neq_iff)

lemma requests_mono: "requests_ok K n m \<Longrightarrow> K \<le> K' \<Longrightarrow> requests_ok K' n m"
  by (fastforce simp: requests_ok_def)

lemma einv_adopt:
  assumes i: "einv st" and s: "SID_GET_TERM (el_sid st) < SID_GET_TERM s" and r: "requests_ok MAX_TERM (el_size st) m"
  shows "einv ((set_el_log st (set_sid m s))\<lparr>el_repeat := T_OFF, el_sent := el_sent st @ [VoteAck s]\<rparr>)"
proof -
  have v: "vote_terms ((set_el_log st (set_sid m s))\<lparr>el_repeat := T_OFF, el_sent := el_sent st @ [VoteAck s]\<rparr>) =
      vote_terms st @ [SID_GET_TERM s]"
    using vote_terms_append [of "(set_el_log st (set_sid m s))\<lparr>el_repeat := T_OFF\<rparr>" "VoteAck s"] by simp
  have "t < SID_GET_TERM s" if "t \<in> set (vote_terms st)" for t using i s that by (auto simp: einv_def)
  then show ?thesis using i r unfolding einv_def v by (auto simp: sorted_wrt_append requests_ok_def intro: less_imp_le)
qed

lemma sid_le_term: "a \<le> b \<Longrightarrow> SID_GET_TERM a \<le> SID_GET_TERM b"
  using sid_less_iff [of b a] by (auto simp: not_less [symmetric])

text \<open>The own term is raised without voting for anybody.\<close>

lemma einv_raise:
  assumes i: "einv st" and r: "requests_ok MAX_TERM (el_size st) m" and t: "SID_GET_TERM (el_sid st) \<le> SID_GET_TERM s"
  shows "einv (set_el_log st (set_sid m (SID_SET_IDX (SID_SET_TERM x (SID_GET_TERM s)) (ucast (el_idx st)))))"
proof -
  have "SID_GET_TERM (SID_SET_IDX (SID_SET_TERM x (SID_GET_TERM s)) (ucast (el_idx st))) = SID_GET_TERM s"
    using own_idx(2) [of st] i term_bound [of s] by (simp add: einv_def)
  then show ?thesis using i r t by (auto simp: einv_def requests_ok_def)
qed

lemma poll_vote_requests_ok:
  assumes i: "einv st" and r: "requests_ok (MAX_TERM - 1) (el_size st) (el_log st)"
  shows "einv (poll_vote_requests ack_rc rnd st)"
proof -
  let ?old = "SID_SET_L (el_sid st)"
  define own where "own = \<lparr>vr_sid = ?old, vr_index = (if el_idx st = FIXED_LEADER then 1 else 0 :: u64), vr_term = 1 :: u64\<rparr>"
  have K: "0 < MAX_TERM - 1" "MAX_TERM - 1 \<le> MAX_TERM" by (simp_all add: MAX_TERM_def)
  obtain m1 best where b1: "best_sid (unat (el_idx st)) [0..<el_size st] (el_log st) ?old = (m1, best)" by force
  obtain m2 br ht where b2: "best_request [0..<el_size st] m1 own (SID_GET_TERM best) = (m2, br, ht)" by (metis prod_cases3)
  note o1 = best_sid_ok [OF b1 r K(1)]
  have sub: "set [0..<el_size st] \<subseteq> {..<el_size st}" by auto
  have o2: "requests_ok (MAX_TERM - 1) (el_size st) m2" "log_sid m2 = el_sid st" "SID_GET_TERM best \<le> ht" "vr_sid own \<le> vr_sid br"
    "br = own \<or> SID_GET_L (vr_sid br) = 0 \<and> unat (SID_GET_TERM (vr_sid br)) < MAX_TERM - 1"
    and hs: "\<exists>s. ht = SID_GET_TERM s"
    using best_request_ok [OF b2 o1(1) sub K(1)] o1(3) by (auto simp: el_sid_def)
  have rm: "requests_ok MAX_TERM (el_size st) m1" "requests_ok MAX_TERM (el_size st) m2"
    using requests_mono [OF _ K(2)] o1(1) o2(1) by blast+
  consider "SID_GET_L (el_sid st) \<noteq> 0 \<or> best = ?old" | "SID_GET_L (el_sid st) = 0" "best \<noteq> ?old" "vr_sid br = ?old"
    | "SID_GET_L (el_sid st) = 0" "best \<noteq> ?old" "vr_sid br \<noteq> ?old" by blast
  then show ?thesis
  proof cases
    case 1
    then show ?thesis using i rm(1) o1(3) b1 by (auto simp: poll_vote_requests_def einv_def el_sid_def)
  next
    case 2
    obtain s where s: "ht = SID_GET_TERM s" using hs by blast
    have "SID_GET_TERM (el_sid st) \<le> SID_GET_TERM s" using sid_le_term [OF o1(2)] o2(3) s by simp
    from einv_raise [OF i rm(2) this, of "el_sid st"] show ?thesis
      using 2 o2(2) b1 b2 s unfolding own_def by (simp add: poll_vote_requests_def Let_def server_update_sid_def)
  next
    case 3
    then have f: "SID_GET_L (vr_sid br) = 0" "unat (SID_GET_TERM (vr_sid br)) < MAX_TERM - 1" using o2(5) by (auto simp: own_def)
    have "SID_GET_TERM (el_sid st) < SID_GET_TERM (vr_sid br)" using vote_raises_term [OF _ f(1)] o2(4) by (simp add: own_def)
    note a = einv_adopt [OF i this rm(2)]
    let ?st = "(set_el_log st (set_sid m2 (vr_sid br)))\<lparr>el_repeat := T_OFF, el_sent := el_sent st @ [VoteAck (vr_sid br)]\<rparr>"
    have "poll_vote_requests ack_rc rnd st = (if ack_rc (vr_sid br) < 0 then start_election rnd ?st
        else ?st\<lparr>el_cb := HB_RECEIVE, el_repeat := T_HB_TIMEOUT\<rparr>)"
      using 3 o2(2) b1 b2 unfolding own_def
      by (simp add: poll_vote_requests_def Let_def server_update_sid_def)
    moreover have "einv (start_election rnd ?st)" using start_election_ok(1) [OF a] f(2) by simp
    moreover have "einv (?st\<lparr>el_cb := HB_RECEIVE, el_repeat := T_HB_TIMEOUT\<rparr>)" using a by (simp add: einv_def vote_terms_def)
    ultimately show ?thesis by simp
  qed
qed

lemma polling_ok:
  assumes "einv st" and "requests_ok (MAX_TERM - 1) (el_size st) (el_log st)"
  shows "einv (polling ack_rc rnd st)"
proof -
  have "requests_ok (MAX_TERM - 1) (el_size (poll_vote_count st)) (el_log (poll_vote_count st))"
    using assms(2) by (auto simp: poll_vote_count_def Let_def server_update_sid_def requests_ok_def)
  then show ?thesis
    using poll_vote_requests_ok poll_vote_count_ok(1) [OF assms(1)] assms by (simp add: polling_def)
qed

lemma hb_send_ok: "einv st \<Longrightarrow> einv (hb_send_cb st)"
  by (simp add: hb_send_cb_def einv_def)

end
