(* ===== verification/Election_Spec.thy ===== *)
theory Election_Spec
  imports Election
begin

text \<open>
  The election protocol without the layout of the log: the control arrays are functions of the
  server index, a handler is one update of them. The refinement shows that the handlers on the
  bytes of the log implement these updates.
\<close>

section \<open>The abstract server\<close>

record aelection =
  a_sid :: u64
  a_idx :: u32
  a_cid :: u32
  a_len :: u64
  a_end :: u64
  a_hb :: "nat \<Rightarrow> u64"
  a_req :: "nat \<Rightarrow> vote_req"
  a_ack :: "nat \<Rightarrow> u64"
  a_cb :: hb_cb
  a_repeat :: timer
  a_polling :: bool
  a_sent :: "ctrl_msg list"

definition a_size :: "aelection \<Rightarrow> nat" where
  "a_size a = unat (ucast (a_cid a) :: u8)"

definition drop_req :: "nat \<Rightarrow> (nat \<Rightarrow> vote_req) \<Rightarrow> nat \<Rightarrow> vote_req" where
  "drop_req i r = r(i := (r i)\<lparr>vr_sid := 0\<rparr>)"

definition a_start_election :: "u64 \<Rightarrow> aelection \<Rightarrow> aelection" where
  "a_start_election rnd a =
     (let s = SID_SET_IDX (SID_UNSET_L (SID_SET_TERM 0 (SID_GET_TERM (a_sid a) + 1))) (ucast (a_idx a))
      in a\<lparr>a_sid := s, a_ack := (\<lambda>i. if i < a_size a then a_len a else a_ack a i), a_cb := HB_RECEIVE,
           a_repeat := T_ELECTION (random_election_timeout rnd),
           a_req := (a_req a)(unat (a_idx a) :=
             \<lparr>vr_sid = s, vr_index = (if a_idx a = FIXED_LEADER then 1 else 0), vr_term = 1\<rparr>),
           a_sent := a_sent a @ [VoteRequest s]\<rparr>)"

definition a_hb_receive :: "u64 \<Rightarrow> aelection \<Rightarrow> aelection" where
  "a_hb_receive rnd a =
     (if a_idx a = INIT_LEADER then a
      else
        let others = filter (\<lambda>i. i \<noteq> unat (a_idx a)) [0..<a_size a];
            a1 = a\<lparr>a_hb := (\<lambda>i. if i \<in> set others then 0 else a_hb a i)\<rparr>
        in if list_all (\<lambda>i. a_hb a i = 0) others
           then (a_start_election rnd (a1\<lparr>a_repeat := T_OFF\<rparr>))\<lparr>a_polling := True\<rparr>
           else a1\<lparr>a_repeat := T_HB_TIMEOUT\<rparr>)"

definition a_hb_send :: "aelection \<Rightarrow> aelection" where
  "a_hb_send a = a\<lparr>a_sent := a_sent a @ [HeartBeat (a_sid a)], a_repeat := T_HB_PERIOD\<rparr>"

definition a_votes :: "aelection \<Rightarrow> nat" where
  "a_votes a = 1 + length (filter (\<lambda>i. i \<noteq> unat (a_idx a) \<and> a_ack a i \<noteq> a_len a) [0..<a_size a])"

definition a_count :: "aelection \<Rightarrow> aelection" where
  "a_count a = (if a_votes a < unat (a_cid a) div 2 + 1 then a
     else a\<lparr>a_sid := SID_SET_L (a_sid a), a_cb := HB_SEND, a_repeat := T_NOW\<rparr>)"

fun a_best_sid :: "nat \<Rightarrow> nat list \<Rightarrow> (nat \<Rightarrow> vote_req) \<Rightarrow> u64 \<Rightarrow> (nat \<Rightarrow> vote_req) \<times> u64" where
  "a_best_sid idx [] r best = (r, best)"
| "a_best_sid idx (i # is) r best =
     (if i = idx then a_best_sid idx is r best
      else if best \<ge> vr_sid (r i) then a_best_sid idx is (drop_req i r) best
      else a_best_sid idx is r (vr_sid (r i)))"

fun a_best_request :: "nat list \<Rightarrow> (nat \<Rightarrow> vote_req) \<Rightarrow> vote_req \<Rightarrow> u64 \<Rightarrow> (nat \<Rightarrow> vote_req) \<times> vote_req \<times> u64" where
  "a_best_request [] r best ht = (r, best, ht)"
| "a_best_request (i # is) r best ht =
     (if vr_sid best > vr_sid (r i) then a_best_request is (drop_req i r) best ht
      else
        let ht' = (if ht < SID_GET_TERM (vr_sid (r i)) then SID_GET_TERM (vr_sid (r i)) else ht)
        in if vr_term best > vr_term (r i) \<or> vr_term best = vr_term (r i) \<and> vr_index best > vr_index (r i)
           then a_best_request is r best ht' else a_best_request is (drop_req i r) (r i) ht')"

definition a_poll_requests :: "(u64 \<Rightarrow> int) \<Rightarrow> u64 \<Rightarrow> aelection \<Rightarrow> aelection" where
  "a_poll_requests ack_rc rnd a =
     (if SID_GET_L (a_sid a) \<noteq> 0 then a
      else
        let old_sid = SID_SET_L (a_sid a)
        in case a_best_sid (unat (a_idx a)) [0..<a_size a] (a_req a) old_sid of
             (r1, best) \<Rightarrow>
               if best = old_sid then a\<lparr>a_req := r1\<rparr>
               else
                 (case a_best_request [0..<a_size a] r1
                     \<lparr>vr_sid = old_sid, vr_index = (if a_idx a = FIXED_LEADER then 1 else 0), vr_term = 1\<rparr> (SID_GET_TERM best) of
                    (r2, br, ht) \<Rightarrow>
                      if vr_sid br = old_sid
                      then a\<lparr>a_req := r2, a_sid := SID_SET_IDX (SID_SET_TERM (a_sid a) ht) (ucast (a_idx a))\<rparr>
                      else
                        let a1 = a\<lparr>a_req := r2, a_sid := vr_sid br, a_repeat := T_OFF, a_sent := a_sent a @ [VoteAck (vr_sid br)]\<rparr>
                        in if ack_rc (vr_sid br) < 0 then a_start_election rnd a1
                           else a1\<lparr>a_cb := HB_RECEIVE, a_repeat := T_HB_TIMEOUT\<rparr>))"

definition a_candidate :: "aelection \<Rightarrow> bool" where
  "a_candidate a \<longleftrightarrow> ucast (SID_GET_IDX (a_sid a)) = a_idx a \<and> SID_GET_L (a_sid a) = 0"

definition a_poll :: "(u64 \<Rightarrow> int) \<Rightarrow> u64 \<Rightarrow> aelection \<Rightarrow> aelection" where
  "a_poll ack_rc rnd a = a_poll_requests ack_rc rnd (if a_candidate a then a_count a else a)"

section \<open>The control arrays as functions\<close>

definition view_hb :: "mem \<Rightarrow> nat \<Rightarrow> u64" where
  "view_hb m i = (if i < MAX_SERVER_COUNT then get_u64 m (hb_off i) else 0)"

definition view_ack :: "mem \<Rightarrow> nat \<Rightarrow> u64" where
  "view_ack m i = (if i < MAX_SERVER_COUNT then vote_ack m i else 0)"

definition view_req :: "mem \<Rightarrow> nat \<Rightarrow> vote_req" where
  "view_req m i = (if i < MAX_SERVER_COUNT then \<lparr>vr_sid = req_sid m i, vr_index = req_index m i, vr_term = req_term m i\<rparr>
     else \<lparr>vr_sid = 0, vr_index = 0, vr_term = 0\<rparr>)"

definition absE :: "election \<Rightarrow> aelection" where
  "absE st = \<lparr>a_sid = el_sid st, a_idx = el_idx st, a_cid = srv_cid_size (el_srv st), a_len = log_len (el_log st),
     a_end = log_end (el_log st), a_hb = view_hb (el_log st), a_req = view_req (el_log st), a_ack = view_ack (el_log st),
     a_cb = el_cb st, a_repeat = el_repeat st, a_polling = el_polling st, a_sent = el_sent st\<rparr>"

lemma put64_other: "b + 8 \<le> a \<or> a + 8 \<le> b \<Longrightarrow> get_u64 (put_u64 m a v) b = get_u64 m b"
  by (rule get_put_other)

lemma ctrl_get_put:
  assumes "i < 7" "j < 7"
  shows "get_u64 (put_u64 m (hb_off i) v) (hb_off j) = (if i = j then v else get_u64 m (hb_off j))"
    "get_u64 (put_u64 m (vote_ack_off i) v) (vote_ack_off j) = (if i = j then v else get_u64 m (vote_ack_off j))"
    "get_u64 (put_u64 m (hb_off i) v) (vote_ack_off j) = get_u64 m (vote_ack_off j)"
    "get_u64 (put_u64 m (vote_ack_off i) v) (hb_off j) = get_u64 m (hb_off j)"
    "k < 24 \<Longrightarrow> k mod 8 = 0 \<Longrightarrow> get_u64 (put_u64 m (vote_req_off i + k) v) (hb_off j) = get_u64 m (hb_off j)"
    "k < 24 \<Longrightarrow> k mod 8 = 0 \<Longrightarrow> get_u64 (put_u64 m (vote_req_off i + k) v) (vote_ack_off j) = get_u64 m (vote_ack_off j)"
    "k < 24 \<Longrightarrow> k mod 8 = 0 \<Longrightarrow> get_u64 (put_u64 m (hb_off i) v) (vote_req_off j + k) = get_u64 m (vote_req_off j + k)"
    "k < 24 \<Longrightarrow> k mod 8 = 0 \<Longrightarrow> get_u64 (put_u64 m (vote_ack_off i) v) (vote_req_off j + k) = get_u64 m (vote_req_off j + k)"
    "k < 24 \<Longrightarrow> k mod 8 = 0 \<Longrightarrow> k' < 24 \<Longrightarrow> k' mod 8 = 0 \<Longrightarrow>
       get_u64 (put_u64 m (vote_req_off i + k) v) (vote_req_off j + k') =
       (if i = j \<and> k = k' then v else get_u64 m (vote_req_off j + k'))"
proof -
  have o: "hb_off i + 8 \<le> hb_off j \<or> hb_off j + 8 \<le> hb_off i" "vote_ack_off i + 8 \<le> vote_ack_off j \<or> vote_ack_off j + 8 \<le> vote_ack_off i"
    if "i \<noteq> j" using that unfolding ctrl_offs layout_simps by arith+
  have ha: "hb_off i + 8 \<le> vote_ack_off j" "hb_off j + 8 \<le> vote_ack_off i" using assms by (simp_all add: ctrl_offs layout_simps)
  have r: "vote_req_off i + k + 8 \<le> hb_off j" "vote_req_off j + k + 8 \<le> hb_off i"
    if "k < 24" "k mod 8 = 0" for k
  proof -
    from that have "k = 0 \<or> k = 8 \<or> k = 16" by arith
    then show "vote_req_off i + k + 8 \<le> hb_off j" "vote_req_off j + k + 8 \<le> hb_off i"
      using assms by (auto simp: ctrl_offs layout_simps)
  qed
  have h: "hb_off i + 8 \<le> vote_ack_off x" "hb_off j + 8 \<le> vote_ack_off x" for x using assms by (simp_all add: ctrl_offs layout_simps)
  show "get_u64 (put_u64 m (hb_off i) v) (hb_off j) = (if i = j then v else get_u64 m (hb_off j))"
    using o(1) by (auto simp: mem_simps intro!: put64_other)
  show "get_u64 (put_u64 m (vote_ack_off i) v) (vote_ack_off j) = (if i = j then v else get_u64 m (vote_ack_off j))"
    using o(2) by (auto simp: mem_simps intro!: put64_other)
  show "get_u64 (put_u64 m (hb_off i) v) (vote_ack_off j) = get_u64 m (vote_ack_off j)"
    "get_u64 (put_u64 m (vote_ack_off i) v) (hb_off j) = get_u64 m (hb_off j)"
    using ha by (auto intro!: put64_other)
  show "get_u64 (put_u64 m (vote_req_off i + k) v) (hb_off j) = get_u64 m (hb_off j)"
    "get_u64 (put_u64 m (vote_req_off i + k) v) (vote_ack_off j) = get_u64 m (vote_ack_off j)"
    "get_u64 (put_u64 m (hb_off i) v) (vote_req_off j + k) = get_u64 m (vote_req_off j + k)"
    "get_u64 (put_u64 m (vote_ack_off i) v) (vote_req_off j + k) = get_u64 m (vote_req_off j + k)"
    if "k < 24" "k mod 8 = 0"
    using r [OF that] h [of j] h [of i] by (auto intro!: put64_other)
  show "get_u64 (put_u64 m (vote_req_off i + k) v) (vote_req_off j + k') =
       (if i = j \<and> k = k' then v else get_u64 m (vote_req_off j + k'))"
    if "k < 24" "k mod 8 = 0" "k' < 24" "k' mod 8 = 0"
  proof (cases "i = j \<and> k = k'")
    case False
    have kk: "k + 8 \<le> 24" "k' + 8 \<le> 24" using that by presburger+
    have "i < j \<or> j < i \<or> i = j \<and> k + 8 \<le> k' \<or> i = j \<and> k' + 8 \<le> k" using that False by presburger
    then have "vote_req_off i + k + 8 \<le> vote_req_off j + k' \<or> vote_req_off j + k' + 8 \<le> vote_req_off i + k"
      using kk that unfolding ctrl_offs layout_simps by linarith
    then show ?thesis using False by (auto intro!: put64_other)
  qed (simp add: mem_simps)
qed

lemma view_writes [simp]:
  assumes "i < MAX_SERVER_COUNT"
  shows "view_hb (put_u64 m (hb_off i) v) = (view_hb m)(i := v)" "view_ack (put_u64 m (hb_off i) v) = view_ack m"
    "view_req (put_u64 m (hb_off i) v) = view_req m"
    "view_hb (put_u64 m (vote_ack_off i) v) = view_hb m" "view_ack (put_u64 m (vote_ack_off i) v) = (view_ack m)(i := v)"
    "view_req (put_u64 m (vote_ack_off i) v) = view_req m"
    "view_hb (put_u64 m (vote_req_off i) v) = view_hb m" "view_ack (put_u64 m (vote_req_off i) v) = view_ack m"
    "view_req (put_u64 m (vote_req_off i) v) = (view_req m)(i := (view_req m i)\<lparr>vr_sid := v\<rparr>)"
    "view_hb (put_u64 m (vote_req_off i + 8) v) = view_hb m" "view_ack (put_u64 m (vote_req_off i + 8) v) = view_ack m"
    "view_req (put_u64 m (vote_req_off i + 8) v) = (view_req m)(i := (view_req m i)\<lparr>vr_index := v\<rparr>)"
    "view_hb (put_u64 m (vote_req_off i + 16) v) = view_hb m" "view_ack (put_u64 m (vote_req_off i + 16) v) = view_ack m"
    "view_req (put_u64 m (vote_req_off i + 16) v) = (view_req m)(i := (view_req m i)\<lparr>vr_term := v\<rparr>)"
proof -
  have i: "i < 7" using assms by (simp add: MAX_SERVER_COUNT_def)
  note defs = fun_eq_iff view_hb_def view_ack_def view_req_def vote_ack_def req_sid_def req_index_def req_term_def
    MAX_SERVER_COUNT_def
  note g = ctrl_get_put [OF i] ctrl_get_put(5-) [OF i, where k = 0, simplified] ctrl_get_put(9) [OF i, where k' = 0, simplified]
    ctrl_get_put(9) [OF i, where k = 0 and k' = 0, simplified] ctrl_get_put(9) [OF i, where k = 0, simplified]
  show "view_hb (put_u64 m (hb_off i) v) = (view_hb m)(i := v)" "view_ack (put_u64 m (hb_off i) v) = view_ack m"
    "view_req (put_u64 m (hb_off i) v) = view_req m"
    "view_hb (put_u64 m (vote_ack_off i) v) = view_hb m" "view_ack (put_u64 m (vote_ack_off i) v) = (view_ack m)(i := v)"
    "view_req (put_u64 m (vote_ack_off i) v) = view_req m"
    "view_hb (put_u64 m (vote_req_off i) v) = view_hb m" "view_ack (put_u64 m (vote_req_off i) v) = view_ack m"
    "view_hb (put_u64 m (vote_req_off i + 8) v) = view_hb m" "view_ack (put_u64 m (vote_req_off i + 8) v) = view_ack m"
    "view_hb (put_u64 m (vote_req_off i + 16) v) = view_hb m" "view_ack (put_u64 m (vote_req_off i + 16) v) = view_ack m"
    using i by (simp_all add: defs g)
  show "view_req (put_u64 m (vote_req_off i) v) = (view_req m)(i := (view_req m i)\<lparr>vr_sid := v\<rparr>)"
    "view_req (put_u64 m (vote_req_off i + 8) v) = (view_req m)(i := (view_req m i)\<lparr>vr_index := v\<rparr>)"
    "view_req (put_u64 m (vote_req_off i + 16) v) = (view_req m)(i := (view_req m i)\<lparr>vr_term := v\<rparr>)"
    using i by (simp_all add: defs g)
qed

lemma view_set_sid [simp]: "view_hb (set_sid m v) = view_hb m" "view_ack (set_sid m v) = view_ack m" "view_req (set_sid m v) = view_req m"
  by (simp_all add: fun_eq_iff view_hb_def view_ack_def view_req_def vote_ack_def req_sid_def req_index_def req_term_def
      set_sid_def put64_other ctrl_offs layout_simps)

lemma end_writes [simp]:
  "log_end (put_u64 m (hb_off i) v) = log_end m" "log_end (put_u64 m (vote_ack_off i) v) = log_end m"
  "log_end (put_u64 m (vote_req_off i) v) = log_end m" "log_end (put_u64 m (vote_req_off i + 8) v) = log_end m"
  "log_end (put_u64 m (vote_req_off i + 16) v) = log_end m"
  by (simp_all add: log_end_def put64_other ctrl_offs layout_simps)

section \<open>Refinement\<close>

definition wfE :: "election \<Rightarrow> bool" where
  "wfE st \<longleftrightarrow> el_size st \<le> MAX_SERVER_COUNT \<and> unat (el_idx st) < el_size st"

lemma absE_simps [simp]:
  "a_sid (absE st) = el_sid st" "a_idx (absE st) = el_idx st" "a_len (absE st) = log_len (el_log st)"
  "a_end (absE st) = log_end (el_log st)" "a_hb (absE st) = view_hb (el_log st)" "a_req (absE st) = view_req (el_log st)"
  "a_ack (absE st) = view_ack (el_log st)" "a_cb (absE st) = el_cb st" "a_repeat (absE st) = el_repeat st"
  "a_polling (absE st) = el_polling st" "a_sent (absE st) = el_sent st" "a_size (absE st) = el_size st"
  "a_cid (absE st) = srv_cid_size (el_srv st)"
  by (simp_all add: absE_def a_size_def el_size_def cid_size8_def)

lemma absE_log:
  "absE (set_el_log st m) = (absE st)\<lparr>a_sid := log_sid m, a_len := log_len m, a_end := log_end m, a_hb := view_hb m,
     a_req := view_req m, a_ack := view_ack m\<rparr>"
  by (simp add: absE_def) (simp add: set_el_log_def)

lemma absE_upd:
  "absE (st\<lparr>el_cb := c\<rparr>) = (absE st)\<lparr>a_cb := c\<rparr>" "absE (st\<lparr>el_repeat := r\<rparr>) = (absE st)\<lparr>a_repeat := r\<rparr>"
  "absE (st\<lparr>el_polling := b\<rparr>) = (absE st)\<lparr>a_polling := b\<rparr>" "absE (st\<lparr>el_sent := x\<rparr>) = (absE st)\<lparr>a_sent := x\<rparr>"
  by (simp_all add: absE_def)

lemma a_size_upd [simp]:
  "a_size (a\<lparr>a_sid := s\<rparr>) = a_size a" "a_size (a\<lparr>a_cb := c\<rparr>) = a_size a" "a_size (a\<lparr>a_repeat := r\<rparr>) = a_size a"
  "a_size (a\<lparr>a_req := q\<rparr>) = a_size a" "a_size (a\<lparr>a_sent := x\<rparr>) = a_size a" "a_size (a\<lparr>a_hb := h\<rparr>) = a_size a"
  "a_size (a\<lparr>a_ack := k\<rparr>) = a_size a" "a_size (a\<lparr>a_polling := p\<rparr>) = a_size a"
  by (simp_all add: a_size_def)

lemma set_el_log_fields [simp]:
  "el_cb (set_el_log st m) = el_cb st" "el_repeat (set_el_log st m) = el_repeat st" "el_polling (set_el_log st m) = el_polling st"
  by (simp_all add: set_el_log_def)

lemma aelection_eqI:
  assumes "a_sid a = a_sid b" "a_idx a = a_idx b" "a_cid a = a_cid b" "a_len a = a_len b" "a_end a = a_end b" "a_hb a = a_hb b"
    "a_req a = a_req b" "a_ack a = a_ack b" "a_cb a = a_cb b" "a_repeat a = a_repeat b" "a_polling a = a_polling b" "a_sent a = a_sent b"
  shows "a = (b :: aelection)"
  using assms by (rule aelection.equality) simp

lemma clear_votes_view:
  assumes "set is \<subseteq> {..<MAX_SERVER_COUNT}"
  shows "view_ack (clear_votes is m) = (\<lambda>i. if i \<in> set is then log_len m else view_ack m i)"
    "view_hb (clear_votes is m) = view_hb m" "view_req (clear_votes is m) = view_req m" "log_end (clear_votes is m) = log_end m"
  using assms by (induction "is" arbitrary: m) (auto simp: fun_eq_iff)

lemma read_hb_view:
  assumes "read_hb idx is m t = (m', t')" and "set is \<subseteq> {..<MAX_SERVER_COUNT}" and "distinct is"
  shows "view_hb m' = (\<lambda>i. if i \<in> set is \<and> i \<noteq> idx then 0 else view_hb m i) \<and> view_ack m' = view_ack m \<and>
    view_req m' = view_req m \<and> log_end m' = log_end m \<and> log_len m' = log_len m \<and>
    (t' \<longleftrightarrow> t \<and> (\<forall>i \<in> set is. i \<noteq> idx \<longrightarrow> view_hb m i = 0))"
  using assms
proof (induction "is" arbitrary: m t)
  case (Cons i "is")
  have i: "i < MAX_SERVER_COUNT" "i \<notin> set is" "view_hb m i = get_u64 m (hb_off i)" using Cons.prems by (auto simp: view_hb_def)
  show ?case
  proof (cases "i = idx")
    case True
    then show ?thesis using Cons by (auto simp: fun_eq_iff)
  next
    case False
    then have r: "read_hb idx is (put_u64 m (hb_off i) 0) (if view_hb m i = 0 then t else False) = (m', t')"
      using Cons.prems(1) i(3) by simp
    from Cons.IH [OF r] Cons.prems show ?thesis using i(1,2) False by (auto simp: fun_eq_iff)
  qed
qed auto

definition same_ctl :: "mem \<Rightarrow> mem \<Rightarrow> bool" where
  "same_ctl m m' \<longleftrightarrow> log_sid m' = log_sid m \<and> log_len m' = log_len m \<and> log_end m' = log_end m \<and>
     view_hb m' = view_hb m \<and> view_ack m' = view_ack m"

lemma same_drop: "i < MAX_SERVER_COUNT \<Longrightarrow> same_ctl (put_u64 m (vote_req_off i) v) m' \<longleftrightarrow> same_ctl m m'"
  by (simp add: same_ctl_def)

lemma drop_view: "i < MAX_SERVER_COUNT \<Longrightarrow> view_req (put_u64 m (vote_req_off i) 0) = drop_req i (view_req m)"
  by (simp add: drop_req_def)

lemma best_sid_view:
  assumes "best_sid idx is m b = (m', b')" and "set is \<subseteq> {..<MAX_SERVER_COUNT}"
  shows "a_best_sid idx is (view_req m) b = (view_req m', b') \<and> same_ctl m m'"
  using assms
proof (induction "is" arbitrary: m b)
  case (Cons i "is")
  have i: "i < MAX_SERVER_COUNT" "vr_sid (view_req m i) = req_sid m i" "set is \<subseteq> {..<MAX_SERVER_COUNT}"
    using Cons.prems by (auto simp: view_req_def)
  note d = Cons.IH [where m = "put_u64 m (vote_req_off i) 0", OF _ i(3), unfolded drop_view [OF i(1)] same_drop [OF i(1)]]
  show ?case using Cons.prems(1) Cons.IH [OF _ i(3), of m] d i(2) by (simp split: if_splits)
qed (simp add: same_ctl_def)

lemma best_request_view:
  assumes "best_request is m br ht = (m', br', ht')" and "set is \<subseteq> {..<MAX_SERVER_COUNT}"
  shows "a_best_request is (view_req m) br ht = (view_req m', br', ht') \<and> same_ctl m m'"
  using assms
proof (induction "is" arbitrary: m br ht)
  case (Cons i "is")
  have i: "i < MAX_SERVER_COUNT" "view_req m i = \<lparr>vr_sid = req_sid m i, vr_index = req_index m i, vr_term = req_term m i\<rparr>"
      "set is \<subseteq> {..<MAX_SERVER_COUNT}"
    using Cons.prems by (auto simp: view_req_def)
  note d = Cons.IH [where m = "put_u64 m (vote_req_off i) 0", OF _ i(3), unfolded drop_view [OF i(1)] same_drop [OF i(1)]]
  show ?case using Cons.prems(1) Cons.IH [OF _ i(3), of m] d unfolding best_request.simps a_best_request.simps Let_def i(2)
    by (auto split: if_splits simp del: best_request.simps a_best_request.simps)
qed (simp add: same_ctl_def)

lemma wf_index:
  assumes "wfE st"
  shows "unat (ucast (el_idx st) :: u8) = unat (el_idx st)" "(ucast (ucast (el_idx st) :: u8) :: u32) = el_idx st"
    "unat (el_idx st) < MAX_SERVER_COUNT" "set [0..<el_size st] \<subseteq> {..<MAX_SERVER_COUNT}"
proof -
  show 1: "unat (ucast (el_idx st) :: u8) = unat (el_idx st)" using own_idx(1) [of st] assms by (simp add: wfE_def)
  show "(ucast (ucast (el_idx st) :: u8) :: u32) = el_idx st"
  proof (rule word_unat_eq_iff [THEN iffD2])
    have "unat (ucast (el_idx st) :: u8) < 2 ^ 32" using unat_lt [of "ucast (el_idx st) :: u8"] by simp
    moreover have "unat (ucast (ucast (el_idx st) :: u8) :: u32) = take_bit 32 (unat (ucast (el_idx st) :: u8))"
      by (rule unsigned_ucast_eq [THEN trans]) simp
    ultimately show "unat (ucast (ucast (el_idx st) :: u8) :: u32) = unat (el_idx st)"
      unfolding 1 by (simp add: take_bit_nat_eq_self)
  qed
  show "unat (el_idx st) < MAX_SERVER_COUNT" "set [0..<el_size st] \<subseteq> {..<MAX_SERVER_COUNT}"
    using assms by (auto simp: wfE_def)
qed

lemma set_vote_request_view:
  assumes "wfE st"
  shows "view_req (set_vote_request (el_srv st)) = (view_req (el_log st))(unat (el_idx st) :=
      \<lparr>vr_sid = el_sid st, vr_index = (if el_idx st = FIXED_LEADER then 1 else 0), vr_term = 1\<rparr>)"
    "view_hb (set_vote_request (el_srv st)) = view_hb (el_log st)" "view_ack (set_vote_request (el_srv st)) = view_ack (el_log st)"
    "log_end (set_vote_request (el_srv st)) = log_end (el_log st)" "log_len (set_vote_request (el_srv st)) = log_len (el_log st)"
    "log_sid (set_vote_request (el_srv st)) = el_sid st"
  using wf_index [OF assms]
  by (simp_all add: set_vote_request_def Let_def el_log_def [symmetric] el_idx_def [symmetric] el_sid_def fun_eq_iff)

lemma start_ref:
  assumes w: "wfE st"
  shows "absE (start_election rnd st) = a_start_election rnd (absE st)"
proof -
  define ns where "ns = SID_SET_IDX (SID_UNSET_L (SID_SET_TERM 0 (SID_GET_TERM (el_sid st) + 1))) (ucast (el_idx st))"
  define st3 where "st3 = (set_el_log st (clear_votes [0..<el_size st] (set_sid (el_log st) ns)))\<lparr>el_cb := HB_RECEIVE, el_repeat := T_ELECTION (random_election_timeout rnd)\<rparr>"
  have se: "start_election rnd st = (set_el_log st3 (set_vote_request (el_srv st3)))\<lparr>el_sent := el_sent st @ [VoteRequest ns]\<rparr>"
    by (simp add: start_election_def Let_def server_update_sid_def ns_def st3_def)
  have w3: "wfE st3" using w by (simp add: st3_def wfE_def)
  have f3: "el_sid st3 = ns" "el_idx st3 = el_idx st" "view_req (el_log st3) = view_req (el_log st)" "view_hb (el_log st3) = view_hb (el_log st)"
    "view_ack (el_log st3) = (\<lambda>i. if i < el_size st then log_len (el_log st) else view_ack (el_log st) i)"
    "log_end (el_log st3) = log_end (el_log st)" "log_len (el_log st3) = log_len (el_log st)" "el_cb st3 = HB_RECEIVE"
    "el_repeat st3 = T_ELECTION (random_election_timeout rnd)" "el_polling st3 = el_polling st" "srv_cid_size (el_srv st3) = srv_cid_size (el_srv st)"
    by (simp_all add: st3_def clear_votes_view [OF wf_index(4) [OF w]] cong: if_cong)
  have "log_sid (srv_log (el_srv st3)) = ns" using f3(1) by (simp add: el_sid_def el_log_def)
  then show ?thesis
    unfolding se by (intro aelection_eqI)
      (simp_all add: absE_upd absE_log set_vote_request_view [OF w3] f3 a_start_election_def Let_def cong: if_cong flip: ns_def)
qed

lemma hb_send_ref: "absE (hb_send_cb st) = a_hb_send (absE st)"
  by (simp add: hb_send_cb_def a_hb_send_def absE_upd)

lemma hb_receive_ref:
  assumes w: "wfE st"
  shows "absE (hb_receive_cb rnd st) = a_hb_receive rnd (absE st)"
proof (cases "el_idx st = INIT_LEADER")
  case False
  obtain m tmo where rd: "read_hb (unat (el_idx st)) [0..<el_size st] (el_log st) True = (m, tmo)" by force
  note v = read_hb_view [OF rd wf_index(4) [OF w] distinct_upt] and f = read_hb_frame(1) [OF rd]
  let ?others = "filter (\<lambda>i. i \<noteq> unat (el_idx st)) [0..<el_size st]"
  have am: "absE (set_el_log st m) = (absE st)\<lparr>a_hb := (\<lambda>i. if i \<in> set ?others then 0 else view_hb (el_log st) i)\<rparr>"
    using v f by (intro aelection_eqI) (auto simp: absE_log el_sid_def)
  have t: "tmo \<longleftrightarrow> list_all (\<lambda>i. view_hb (el_log st) i = 0) ?others" using v by (auto simp: list_all_iff)
  have "wfE ((set_el_log st m)\<lparr>el_repeat := T_OFF\<rparr>)" using w by (simp add: wfE_def)
  from start_ref [OF this, of rnd] show ?thesis
    using False by (simp add: hb_receive_cb_def a_hb_receive_def Let_def rd t absE_upd am del: set_filter cong: if_cong)
qed (simp add: hb_receive_cb_def a_hb_receive_def)

lemma count_ref:
  assumes w: "wfE st"
  shows "absE (poll_vote_count st) = a_count (absE st)"
proof -
  have "vote_count st = a_votes (absE st)"
    using w by (auto simp: vote_count_def a_votes_def view_ack_def wfE_def intro!: arg_cong [of _ _ length] filter_cong)
  moreover have "vote_count st \<le> 1 + el_size st" by (simp add: vote_count_def) (metis length_filter_le length_upt minus_nat.diff_0)
  then have "vote_count st < 256" using w by (simp add: wfE_def layout_simps)
  then have "unat (word_of_nat (vote_count st) :: u8) = vote_count st" by (simp add: unat_of_nat take_bit_nat_eq_self)
  ultimately show ?thesis
    by (intro aelection_eqI) (simp_all add: poll_vote_count_def a_count_def Let_def server_update_sid_def absE_upd absE_log)
qed

lemma wfE_count: "wfE st \<Longrightarrow> wfE (poll_vote_count st)"
  by (simp add: poll_vote_count_def Let_def server_update_sid_def wfE_def)

lemma requests_ref:
  assumes w: "wfE st"
  shows "absE (poll_vote_requests ack_rc rnd st) = a_poll_requests ack_rc rnd (absE st)"
proof -
  let ?old = "SID_SET_L (el_sid st)"
  let ?own = "\<lparr>vr_sid = ?old, vr_index = (if el_idx st = FIXED_LEADER then 1 else 0), vr_term = 1\<rparr>"
  obtain m1 best where b1: "best_sid (unat (el_idx st)) [0..<el_size st] (el_log st) ?old = (m1, best)" by force
  obtain m2 br ht where b2: "best_request [0..<el_size st] m1 ?own (SID_GET_TERM best) = (m2, br, ht)" by (metis prod_cases3)
  have v1: "a_best_sid (unat (el_idx st)) [0..<el_size st] (view_req (el_log st)) ?old = (view_req m1, best)"
      "absE (set_el_log st m1) = (absE st)\<lparr>a_req := view_req m1\<rparr>"
    using best_sid_view [OF b1 wf_index(4) [OF w]] by (auto intro!: aelection_eqI simp: absE_log same_ctl_def el_sid_def)
  have v2: "a_best_request [0..<el_size st] (view_req m1) ?own (SID_GET_TERM best) = (view_req m2, br, ht)"
      "absE (set_el_log st m2) = (absE st)\<lparr>a_req := view_req m2\<rparr>" "log_sid m2 = el_sid st"
      "absE (set_el_log st (set_sid m2 s)) = (absE st)\<lparr>a_req := view_req m2, a_sid := s\<rparr>" for s
    using best_sid_view [OF b1 wf_index(4) [OF w]] best_request_view [OF b2 wf_index(4) [OF w]]
    by (auto intro!: aelection_eqI simp: absE_log same_ctl_def el_sid_def)
  have w2: "wfE ((set_el_log st m)\<lparr>el_repeat := r, el_sent := x\<rparr>)" for m r x using w by (simp add: wfE_def)
  show ?thesis
    by (simp add: poll_vote_requests_def a_poll_requests_def Let_def b1 b2 v1 v2 server_update_sid_def absE_upd start_ref [OF w2])
qed

lemma polling_ref: "wfE st \<Longrightarrow> absE (polling ack_rc rnd st) = a_poll ack_rc rnd (absE st)"
  by (simp add: polling_def a_poll_def requests_ref wfE_count count_ref is_candidate_def a_candidate_def)

text \<open>
  C24: The handlers of the election refine the abstract machine: for a group of at most seven servers, what a
  timeout, a heartbeat, a poll and the start of an election do to the bytes of the log is what
  the abstract updates do to the control arrays, the identifier and the messages sent.
\<close>

theorem election_refines:
  assumes "el_size st \<le> MAX_SERVER_COUNT" and "unat (el_idx st) < el_size st"
  shows "absE (start_election rnd st) = a_start_election rnd (absE st) \<and>
    absE (hb_receive_cb rnd st) = a_hb_receive rnd (absE st) \<and>
    absE (hb_send_cb st) = a_hb_send (absE st) \<and>
    absE (poll_vote_count st) = a_count (absE st) \<and>
    absE (polling ack_rc rnd st) = a_poll ack_rc rnd (absE st)"
  using assms start_ref hb_receive_ref hb_send_ref count_ref polling_ref unfolding wfE_def by blast

lemma get_zero [simp]: "get_u64 (\<lambda>_. 0) a = 0"
  by (simp add: get_u64_def get_bytes_def map_replicate_const eval_nat_numeral)

definition sample_el :: election where
  "sample_el = \<lparr>el_srv = \<lparr>srv_log = \<lambda>_. 0, srv_idx = 2, srv_cid_size = 3, servers = []\<rparr>, el_cb = HB_RECEIVE,
     el_repeat = T_HB_TIMEOUT, el_polling = False, el_sent = []\<rparr>"

theorem election_refines_witness:
  "a_sent (absE (hb_receive_cb 7 sample_el)) = [VoteRequest 0x202] \<and> a_polling (absE (hb_receive_cb 7 sample_el))"
proof -
  have w: "el_size sample_el \<le> MAX_SERVER_COUNT" "unat (el_idx sample_el) < el_size sample_el"
    by (simp_all add: sample_el_def el_size_def cid_size8_def el_idx_def layout_simps)
  have z: "view_hb (el_log sample_el) i = 0" for i
    by (simp add: view_hb_def sample_el_def el_log_def)
  have s: "el_sid sample_el = 0" "el_idx sample_el = 2" by (simp_all add: sample_el_def el_sid_def el_log_def el_idx_def log_sid_def)
  have "absE (hb_receive_cb 7 sample_el) = a_hb_receive 7 (absE sample_el)" using election_refines [OF w] by blast
  then show ?thesis
    by (simp add: a_hb_receive_def a_start_election_def Let_def z s INIT_LEADER_def list.pred_True) (simp add: sample_el_def sid_defs)
qed

end
