(* ===== verification/Election_Group.thy ===== *)
theory Election_Group
  imports Election_Spec Transition
begin

text \<open>
  A group of servers that hold elections. An event is the timer of one server, one poll of its idle
  loop, or the arrival of a message another server has sent; any sequence of events is a run. A
  message may arrive late, more than once, or never. Steps that would use up the 55 bits of the
  term are left out.
\<close>

section \<open>Events\<close>

datatype gev = Timeout nat u64 | Beat nat | Poll nat int u64 | DReq nat nat nat | DAck nat nat | DHb nat nat nat

text \<open>The 24 bytes of a vote request of server \<open>j\<close>.\<close>

definition put_request :: "mem \<Rightarrow> nat \<Rightarrow> u64 \<Rightarrow> mem" where
  "put_request m j s =
     put_u64 (put_u64 (put_u64 m (vote_req_off j) s) (vote_req_off j + 16) 1) (vote_req_off j + 8)
       (if of_nat j = FIXED_LEADER then 1 else 0)"

definition term_room :: "u64 \<Rightarrow> bool" where
  "term_room s \<longleftrightarrow> SID_GET_TERM s < 2 ^ 55 - 2"

definition sent_msg :: "ctrl_msg list \<Rightarrow> nat \<Rightarrow> ctrl_msg option" where
  "sent_msg ms k = (if k < length ms then Some (ms ! k) else None)"

fun gexec :: "nat \<Rightarrow> gev \<Rightarrow> (nat \<Rightarrow> election) \<Rightarrow> (nat \<Rightarrow> election) option" where
  "gexec n (Timeout i rnd) g =
     (if i < n \<and> el_cb (g i) = HB_RECEIVE \<and> el_repeat (g i) \<noteq> T_OFF \<and> term_room (el_sid (g i))
      then Some (g(i := hb_receive_cb rnd (g i))) else None)"
| "gexec n (Beat i) g =
     (if i < n \<and> el_cb (g i) = HB_SEND \<and> el_repeat (g i) \<noteq> T_OFF then Some (g(i := hb_send_cb (g i))) else None)"
| "gexec n (Poll i rc rnd) g =
     (if i < n \<and> el_polling (g i) \<and> list_all (\<lambda>j. term_room (req_sid (el_log (g i)) j)) [0..<n]
      then Some (g(i := polling (\<lambda>_. rc) rnd (g i))) else None)"
| "gexec n (DReq j i k) g =
     (if j < n \<and> i < n \<and> i \<noteq> j
      then (case sent_msg (el_sent (g j)) k of
              Some (VoteRequest s) \<Rightarrow> Some (g(i := set_el_log (g i) (put_request (el_log (g i)) j s)))
            | _ \<Rightarrow> None)
      else None)"
| "gexec n (DAck j k) g =
     (if j < n
      then (case sent_msg (el_sent (g j)) k of
              Some (VoteAck s) \<Rightarrow>
                let i = unat (SID_GET_IDX s)
                in if i < n then Some (g(i := set_el_log (g i) (put_u64 (el_log (g i)) (vote_ack_off j) (log_end (el_log (g j))))))
                   else None
            | _ \<Rightarrow> None)
      else None)"
| "gexec n (DHb j i k) g =
     (if j < n \<and> i < n \<and> i \<noteq> j
      then (case sent_msg (el_sent (g j)) k of
              Some (HeartBeat s) \<Rightarrow> Some (g(i := set_el_log (g i) (put_u64 (el_log (g i)) (hb_off j) s)))
            | _ \<Rightarrow> None)
      else None)"

definition gstep :: "nat \<Rightarrow> (nat \<Rightarrow> election) \<Rightarrow> (nat \<Rightarrow> election) \<Rightarrow> bool" where
  "gstep n g g' \<longleftrightarrow> (\<exists>ev. gexec n ev g = Some g')"

fun grun :: "nat \<Rightarrow> gev list \<Rightarrow> (nat \<Rightarrow> election) \<Rightarrow> (nat \<Rightarrow> election) option" where
  "grun n [] g = Some g"
| "grun n (ev # evs) g = Option.bind (gexec n ev g) (grun n evs)"

text \<open>The start: a fresh log in which \<open>e\<close> bytes are used, after \<open>hb_begin\<close>.\<close>

definition el_start :: "nat \<Rightarrow> nat \<Rightarrow> u64 \<Rightarrow> election" where
  "el_start n i e = hb_begin \<lparr>el_srv = \<lparr>srv_log = set_end (the (log_new True)) e, srv_idx = of_nat i, srv_cid_size = of_nat n,
     servers = []\<rparr>, el_cb = HB_RECEIVE, el_repeat = T_OFF, el_polling = False, el_sent = []\<rparr>"

definition ginit :: "nat \<Rightarrow> (nat \<Rightarrow> election) \<Rightarrow> bool" where
  "ginit n g \<longleftrightarrow> n \<le> MAX_SERVER_COUNT \<and> (\<forall>i < n. \<exists>e. g i = el_start n i e)"

definition ginv :: "nat \<Rightarrow> (nat \<Rightarrow> election) \<Rightarrow> bool" where
  "ginv n g \<longleftrightarrow> (\<forall>i < n. einv (g i) \<and> el_size (g i) = n \<and> unat (el_idx (g i)) = i)"

section \<open>The invariant\<close>

lemma term_roomD: "term_room s \<Longrightarrow> unat (SID_GET_TERM s) + 1 < MAX_TERM"
  by (simp add: term_room_def MAX_TERM_def word_less_nat_alt)

lemma fresh_log: "the (log_new True) = set_tail (set_end (set_len (\<lambda>_. 0) LOG_SIZE) LOG_SIZE) LOG_SIZE"
  by (simp add: log_new_def)

lemma view_header [simp]:
  "view_hb (set_end m v) = view_hb m" "view_ack (set_end m v) = view_ack m" "view_req (set_end m v) = view_req m"
  "view_hb (set_tail m v) = view_hb m" "view_ack (set_tail m v) = view_ack m" "view_req (set_tail m v) = view_req m"
  "view_hb (set_len m v) = view_hb m" "view_ack (set_len m v) = view_ack m" "view_req (set_len m v) = view_req m"
  "log_sid (set_len m v) = log_sid m"
  by (simp_all add: fun_eq_iff view_hb_def view_ack_def view_req_def vote_ack_def req_sid_def req_index_def req_term_def
      set_end_def set_tail_def set_len_def log_sid_def put64_other ctrl_offs layout_simps)

definition no_req :: vote_req where "no_req = \<lparr>vr_sid = 0, vr_index = 0, vr_term = 0\<rparr>"

definition a_start :: "nat \<Rightarrow> nat \<Rightarrow> u64 \<Rightarrow> aelection" where
  "a_start n i e = \<lparr>a_sid = 0x300, a_idx = of_nat i, a_cid = of_nat n, a_len = LOG_SIZE, a_end = e, a_hb = (\<lambda>_. 0),
     a_req = (\<lambda>_. no_req), a_ack = (\<lambda>_. 0), a_cb = (if of_nat i = INIT_LEADER then HB_SEND else HB_RECEIVE),
     a_repeat = (if of_nat i = INIT_LEADER then T_HB_PERIOD else T_HB_TIMEOUT), a_polling = False, a_sent = []\<rparr>"

lemma start_sid: "SID_SET_IDX (SID_SET_L (SID_SET_TERM 0 1)) (ucast INIT_LEADER) = 0x300"
  by (simp add: sid_defs INIT_LEADER_def)

lemma zero_views: "view_hb (\<lambda>_. 0) = (\<lambda>_. 0)" "view_ack (\<lambda>_. 0) = (\<lambda>_. 0)" "view_req (\<lambda>_. 0) = (\<lambda>_. no_req)"
  by (simp_all add: fun_eq_iff view_hb_def view_ack_def view_req_def vote_ack_def req_sid_def req_index_def req_term_def no_req_def)

lemma el_make:
  "el_log \<lparr>el_srv = sv, el_cb = a, el_repeat = b, el_polling = c, el_sent = d\<rparr> = srv_log sv"
  "el_idx \<lparr>el_srv = sv, el_cb = a, el_repeat = b, el_polling = c, el_sent = d\<rparr> = srv_idx sv"
  by (simp_all add: el_log_def el_idx_def)

lemma absE_start: "absE (el_start n i e) = a_start n i e"
  by (rule aelection_eqI)
    (auto simp: el_start_def hb_begin_def Let_def server_update_sid_def start_sid a_start_def absE_upd absE_log fresh_log zero_views el_make)

lemma el_start_ok:
  assumes "i < n" and "n \<le> MAX_SERVER_COUNT"
  shows "einv (el_start n i e) \<and> el_size (el_start n i e) = n \<and> unat (el_idx (el_start n i e)) = i"
proof -
  let ?a = "absE (el_start n i e)"
  have n7: "n \<le> 7" using assms(2) by (simp add: layout_simps)
  have s: "el_size (el_start n i e) = n"
    using absE_simps(12) [of "el_start n i e"] n7 unfolding absE_start
    by (simp add: a_start_def a_size_def unsigned_ucast_eq unat_of_nat take_bit_nat_eq_self)
  have "el_idx (el_start n i e) = of_nat i" using absE_simps(2) [of "el_start n i e"] unfolding absE_start by (simp add: a_start_def)
  then have x: "unat (el_idx (el_start n i e)) = i" using assms n7 by (simp add: unat_of_nat take_bit_nat_eq_self)
  have r: "req_sid (el_log (el_start n i e)) j = 0" if "j < n" for j
    using fun_cong [OF absE_simps(6) [of "el_start n i e"], of j] that assms(2)
    unfolding absE_start by (simp add: a_start_def view_req_def no_req_def)
  have "el_sent (el_start n i e) = []" using absE_simps(11) [of "el_start n i e"] unfolding absE_start by (simp add: a_start_def)
  then show ?thesis
    using s x r assms by (auto simp: einv_def requests_ok_def vote_terms_def sid_zero MAX_TERM_def map_filter_simps)
qed

lemma put_request_frame [simp]:
  "log_sid (put_request m j s) = log_sid m" "req_sid (put_request m j s) i = (if i = j then s else req_sid m i)"
  by (simp_all add: put_request_def)

lemma einv_write:
  assumes "einv st" and "log_sid m = el_sid st" and "requests_ok MAX_TERM (el_size st) m"
  shows "einv (set_el_log st m)"
  using assms by (simp add: einv_def)

lemma einv_request:
  assumes "einv st" and "SID_GET_L s = 0" "unat (SID_GET_TERM s) < MAX_TERM"
  shows "einv (set_el_log st (put_request (el_log st) j s))"
  using assms by (intro einv_write) (auto simp: einv_def requests_ok_def el_sid_def)

lemma einv_slot:
  assumes "einv st"
  shows "einv (set_el_log st (put_u64 (el_log st) (vote_ack_off j) v))" "einv (set_el_log st (put_u64 (el_log st) (hb_off j) v))"
  using assms by (intro einv_write; auto simp: einv_def requests_ok_def el_sid_def)+

lemma sent_msgD: "sent_msg ms k = Some x \<Longrightarrow> x \<in> set ms"
  by (auto simp: sent_msg_def split: if_splits)

lemma el_frame [simp]:
  "el_size (hb_receive_cb rnd st) = el_size st" "el_idx (hb_receive_cb rnd st) = el_idx st"
  "el_size (hb_send_cb st) = el_size st" "el_idx (hb_send_cb st) = el_idx st"
  "el_size (polling rc rnd st) = el_size st" "el_idx (polling rc rnd st) = el_idx st"
proof -
  have s: "el_size (start_election rnd st) = el_size st" "el_idx (start_election rnd st) = el_idx st" for rnd st
    by (simp_all add: start_election_def Let_def server_update_sid_def)
  have c: "el_size (poll_vote_count st) = el_size st" "el_idx (poll_vote_count st) = el_idx st"
    by (simp_all add: poll_vote_count_def Let_def server_update_sid_def)
  have r: "el_size (poll_vote_requests rc rnd st) = el_size st" "el_idx (poll_vote_requests rc rnd st) = el_idx st" for st
    by (simp_all add: poll_vote_requests_def Let_def server_update_sid_def s split: prod.split)
  show "el_size (hb_receive_cb rnd st) = el_size st" "el_idx (hb_receive_cb rnd st) = el_idx st"
    by (simp_all add: hb_receive_cb_def Let_def s split: prod.split)
  show "el_size (hb_send_cb st) = el_size st" "el_idx (hb_send_cb st) = el_idx st" by (simp_all add: hb_send_cb_def)
  show "el_size (polling rc rnd st) = el_size st" "el_idx (polling rc rnd st) = el_idx st" by (simp_all add: polling_def r c)
qed

lemma requests_room:
  assumes "ginv n g" "i < n" "list_all (\<lambda>j. term_room (req_sid (el_log (g i)) j)) [0..<n]"
  shows "requests_ok (MAX_TERM - 1) (el_size (g i)) (el_log (g i))"
  unfolding requests_ok_def
proof (intro allI impI)
  fix j assume "j < el_size (g i)"
  then show "SID_GET_L (req_sid (el_log (g i)) j) = 0 \<and> unat (SID_GET_TERM (req_sid (el_log (g i)) j)) < MAX_TERM - 1"
    using assms term_roomD [of "req_sid (el_log (g i)) j"] by (fastforce simp: ginv_def einv_def requests_ok_def list_all_iff)
qed

lemma ginv_upd:
  "ginv n g \<Longrightarrow> einv st \<Longrightarrow> el_size st = el_size (g i) \<Longrightarrow> el_idx st = el_idx (g i) \<Longrightarrow> ginv n (g(i := st))"
  by (simp add: ginv_def)

lemma ginv_step:
  assumes i: "ginv n g" and s: "gexec n ev g = Some g'"
  shows "ginv n g'"
proof (cases ev)
  case (Timeout x rnd)
  then show ?thesis using s i hb_receive_ok [of "g x" rnd] term_roomD [of "el_sid (g x)"]
    by (auto split: if_splits simp: ginv_def intro!: ginv_upd [OF i])
next
  case (Beat x)
  then show ?thesis using s i hb_send_ok [of "g x"] by (auto split: if_splits simp: ginv_def intro!: ginv_upd [OF i])
next
  case (Poll x rc rnd)
  then have x: "x < n" "list_all (\<lambda>j. term_room (req_sid (el_log (g x)) j)) [0..<n]" "g' = g(x := polling (\<lambda>_. rc) rnd (g x))"
    using s by (auto split: if_splits)
  have "einv (polling (\<lambda>_. rc) rnd (g x))" using polling_ok [OF _ requests_room [OF i x(1,2)]] i x(1) by (simp add: ginv_def)
  then show ?thesis unfolding x(3) by (rule ginv_upd [OF i]) simp_all
next
  case (DReq j x k)
  then obtain r where x: "j < n" "x < n" "VoteRequest r \<in> set (el_sent (g j))" "g' = g(x := set_el_log (g x) (put_request (el_log (g x)) j r))"
    using s sent_msgD by (fastforce split: if_splits option.splits ctrl_msg.splits)
  then have "einv (set_el_log (g x) (put_request (el_log (g x)) j r))"
    using i by (intro einv_request) (auto simp: ginv_def einv_def [of "g j"])
  then show ?thesis unfolding x(4) by (rule ginv_upd [OF i]) simp_all
next
  case (DAck j k)
  then show ?thesis using s i einv_slot(1)
    by (auto split: if_splits option.splits ctrl_msg.splits simp: Let_def ginv_def intro!: ginv_upd [OF i])
next
  case (DHb j x k)
  then show ?thesis using s i einv_slot(2)
    by (auto split: if_splits option.splits ctrl_msg.splits simp: ginv_def intro!: ginv_upd [OF i])
qed

lemma ginv_init: "ginit n g \<Longrightarrow> ginv n g"
  unfolding ginit_def ginv_def using el_start_ok by metis

interpretation election_sys: invariant_system "ginit n" "gstep n" "ginv n" for n
  by unfold_locales (auto simp: gstep_def intro: ginv_init ginv_step)

section \<open>The abstract group\<close>

definition a_put_request :: "nat \<Rightarrow> u64 \<Rightarrow> aelection \<Rightarrow> aelection" where
  "a_put_request j s a =
     a\<lparr>a_req := (a_req a)(j := \<lparr>vr_sid = s, vr_index = (if of_nat j = FIXED_LEADER then 1 else 0), vr_term = 1\<rparr>)\<rparr>"

fun agexec :: "nat \<Rightarrow> gev \<Rightarrow> (nat \<Rightarrow> aelection) \<Rightarrow> (nat \<Rightarrow> aelection) option" where
  "agexec n (Timeout i rnd) g =
     (if i < n \<and> a_cb (g i) = HB_RECEIVE \<and> a_repeat (g i) \<noteq> T_OFF \<and> term_room (a_sid (g i))
      then Some (g(i := a_hb_receive rnd (g i))) else None)"
| "agexec n (Beat i) g =
     (if i < n \<and> a_cb (g i) = HB_SEND \<and> a_repeat (g i) \<noteq> T_OFF then Some (g(i := a_hb_send (g i))) else None)"
| "agexec n (Poll i rc rnd) g =
     (if i < n \<and> a_polling (g i) \<and> list_all (\<lambda>j. term_room (vr_sid (a_req (g i) j))) [0..<n]
      then Some (g(i := a_poll (\<lambda>_. rc) rnd (g i))) else None)"
| "agexec n (DReq j i k) g =
     (if j < n \<and> i < n \<and> i \<noteq> j
      then (case sent_msg (a_sent (g j)) k of
              Some (VoteRequest s) \<Rightarrow> Some (g(i := a_put_request j s (g i)))
            | _ \<Rightarrow> None)
      else None)"
| "agexec n (DAck j k) g =
     (if j < n
      then (case sent_msg (a_sent (g j)) k of
              Some (VoteAck s) \<Rightarrow>
                let i = unat (SID_GET_IDX s)
                in if i < n then Some (g(i := (g i)\<lparr>a_ack := (a_ack (g i))(j := a_end (g j))\<rparr>)) else None
            | _ \<Rightarrow> None)
      else None)"
| "agexec n (DHb j i k) g =
     (if j < n \<and> i < n \<and> i \<noteq> j
      then (case sent_msg (a_sent (g j)) k of
              Some (HeartBeat s) \<Rightarrow> Some (g(i := (g i)\<lparr>a_hb := (a_hb (g i))(j := s)\<rparr>))
            | _ \<Rightarrow> None)
      else None)"

fun agrun :: "nat \<Rightarrow> gev list \<Rightarrow> (nat \<Rightarrow> aelection) \<Rightarrow> (nat \<Rightarrow> aelection) option" where
  "agrun n [] g = Some g"
| "agrun n (ev # evs) g = Option.bind (agexec n ev g) (agrun n evs)"

definition absG :: "(nat \<Rightarrow> election) \<Rightarrow> nat \<Rightarrow> aelection" where
  "absG g i = absE (g i)"

lemma absG_upd: "absG (g(i := st)) = (absG g)(i := absE st)"
  by (auto simp: absG_def)

lemma absE_slots:
  assumes "j < MAX_SERVER_COUNT"
  shows "absE (set_el_log st (put_request (el_log st) j s)) = a_put_request j s (absE st)"
    "absE (set_el_log st (put_u64 (el_log st) (vote_ack_off j) v)) = (absE st)\<lparr>a_ack := (a_ack (absE st))(j := v)\<rparr>"
    "absE (set_el_log st (put_u64 (el_log st) (hb_off j) v)) = (absE st)\<lparr>a_hb := (a_hb (absE st))(j := v)\<rparr>"
  using assms by (intro aelection_eqI; simp add: absE_log put_request_def a_put_request_def el_sid_def fun_eq_iff)+

lemma ginv_wf: "ginv n g \<Longrightarrow> i < n \<Longrightarrow> wfE (g i)" "ginv n g \<Longrightarrow> j < n \<Longrightarrow> j < MAX_SERVER_COUNT"
  by (auto simp: ginv_def einv_def wfE_def)

lemma exec_ref:
  assumes i: "ginv n g"
  shows "map_option absG (gexec n ev g) = agexec n ev (absG g)"
proof (cases ev)
  case (Timeout x rnd)
  then show ?thesis using hb_receive_ref [OF ginv_wf(1) [OF i]] by (simp add: absG_upd) (simp add: absG_def)
next
  case (Beat x)
  then show ?thesis using hb_send_ref by (simp add: absG_upd) (simp add: absG_def)
next
  case (Poll x rc rnd)
  have "vr_sid (view_req (el_log (g x)) j) = req_sid (el_log (g x)) j" if "j < n" for j
    using ginv_wf(2) [OF i that] by (simp add: view_req_def)
  then have "list_all (\<lambda>j. term_room (vr_sid (a_req (absG g x) j))) [0..<n] = list_all (\<lambda>j. term_room (req_sid (el_log (g x)) j)) [0..<n]"
    by (auto simp: list_all_iff absG_def)
  then show ?thesis using Poll polling_ref [OF ginv_wf(1) [OF i]] by (simp add: absG_upd) (simp add: absG_def)
next
  case (DReq j x k)
  then show ?thesis using absE_slots(1) [OF ginv_wf(2) [OF i, of j]]
    by (auto simp: absG_upd split: option.split ctrl_msg.split) (auto simp: absG_def)
next
  case (DAck j k)
  then show ?thesis using absE_slots(2) [OF ginv_wf(2) [OF i, of j]]
    by (auto simp: absG_upd Let_def split: option.split ctrl_msg.split) (auto simp: absG_def)
next
  case (DHb j x k)
  then show ?thesis using absE_slots(3) [OF ginv_wf(2) [OF i, of j]]
    by (auto simp: absG_upd split: option.split ctrl_msg.split) (auto simp: absG_def)
qed

lemma run_ref:
  assumes "ginv n g"
  shows "map_option absG (grun n evs g) = agrun n evs (absG g)"
  using assms
proof (induction evs arbitrary: g)
  case (Cons ev evs)
  show ?case
  proof (cases "gexec n ev g")
    case (Some g1)
    then show ?thesis using Cons.IH [OF ginv_step [OF Cons.prems Some]] exec_ref [OF Cons.prems, of ev, symmetric] by simp
  qed (use exec_ref [OF Cons.prems, of ev] in simp)
qed simp

lemma run_steps: "grun n evs g = Some g' \<Longrightarrow> (gstep n)\<^sup>*\<^sup>* g g'"
proof (induction evs arbitrary: g)
  case (Cons ev evs)
  then obtain g1 where "gexec n ev g = Some g1" "grun n evs g1 = Some g'" by (auto simp: bind_eq_Some_conv)
  then show ?case using Cons.IH by (meson converse_rtranclp_into_rtranclp gstep_def)
qed simp

section \<open>Elections with empty logs\<close>

definition a_quiet :: "nat \<Rightarrow> nat \<Rightarrow> aelection \<Rightarrow> bool" where
  "a_quiet n i a \<longleftrightarrow> a_cid a = of_nat n \<and> a_idx a = of_nat i \<and> a_len a = LOG_SIZE \<and> a_end a = LOG_SIZE \<and>
     (i \<noteq> 0 \<longrightarrow> a_cb a = HB_RECEIVE) \<and> (a_polling a \<longrightarrow> i \<noteq> 0 \<and> (\<forall>j < n. a_ack a j = LOG_SIZE))"

definition quiet :: "nat \<Rightarrow> (nat \<Rightarrow> election) \<Rightarrow> bool" where
  "quiet n g \<longleftrightarrow> (2 \<le> n \<and> n \<le> 7 \<longrightarrow> (\<forall>i < n. a_quiet n i (absG g i)))"

definition ginit_empty :: "nat \<Rightarrow> (nat \<Rightarrow> election) \<Rightarrow> bool" where
  "ginit_empty n g \<longleftrightarrow> n \<le> MAX_SERVER_COUNT \<and> (\<forall>i < n. g i = el_start n i LOG_SIZE)"

lemma a_quiet_size: "a_quiet n i a \<Longrightarrow> n \<le> 7 \<Longrightarrow> a_size a = n"
  by (simp add: a_quiet_def a_size_def unsigned_ucast_eq unat_of_nat take_bit_nat_eq_self)

lemma quiet_start:
  "a_quiet n i a \<Longrightarrow> n \<le> 7 \<Longrightarrow> i \<noteq> 0 \<Longrightarrow> a_quiet n i ((a_start_election rnd a)\<lparr>a_polling := b\<rparr>)"
  "a_quiet n i a \<Longrightarrow> n \<le> 7 \<Longrightarrow> i \<noteq> 0 \<Longrightarrow> a_quiet n i (a_start_election rnd a)"
  using a_quiet_size [of n i a] by (auto simp: a_start_election_def Let_def a_quiet_def)

lemma quiet_receive:
  assumes "a_quiet n i a" and "n \<le> 7" and "i < n"
  shows "a_quiet n i (a_hb_receive rnd a)"
proof (cases "a_idx a = INIT_LEADER")
  case False
  then have "i \<noteq> 0" using assms(1) by (cases "i = 0") (auto simp: a_quiet_def INIT_LEADER_def)
  moreover have "a_quiet n i (a\<lparr>a_hb := h, a_repeat := r\<rparr>)" for h r using assms by (simp add: a_quiet_def)
  ultimately show ?thesis using False quiet_start(1) assms(2) by (simp add: a_hb_receive_def Let_def)
qed (simp add: a_hb_receive_def assms)

lemma quiet_poll:
  assumes q: "a_quiet n i a" and n: "2 \<le> n" "n \<le> 7" "i < n" and p: "a_polling a"
  shows "a_quiet n i (a_poll rc rnd a)"
proof -
  have i0: "i \<noteq> 0" "unat (a_idx a) = i" using q p n by (simp_all add: a_quiet_def unat_of_nat take_bit_nat_eq_self)
  have "filter (\<lambda>j. j \<noteq> i \<and> a_ack a j \<noteq> a_len a) [0..<a_size a] = []"
    using q p a_quiet_size [OF q n(2)] by (auto simp: a_quiet_def filter_empty_conv)
  then have "a_votes a = 1" by (simp add: a_votes_def i0)
  moreover have "unat (a_cid a) div 2 \<ge> 1" using q n by (simp add: a_quiet_def unat_of_nat take_bit_nat_eq_self)
  ultimately have c: "a_count a = a" by (simp add: a_count_def)
  have u: "a_quiet n i (a\<lparr>a_req := r\<rparr>)" "a_quiet n i (a\<lparr>a_req := r, a_sid := s\<rparr>)"
      "a_quiet n i (a\<lparr>a_req := r, a_sid := s, a_repeat := t, a_sent := x\<rparr>)"
      "a_quiet n i (a\<lparr>a_req := r, a_sid := s, a_sent := x, a_cb := HB_RECEIVE, a_repeat := t\<rparr>)" for r s t x
    using q by (simp_all add: a_quiet_def)
  have "a_quiet n i (a_poll_requests rc rnd a)"
    using q u quiet_start(2) [OF u(3) n(2) i0(1)] by (simp add: a_poll_requests_def Let_def split: prod.split)
  then show ?thesis by (simp add: a_poll_def c)
qed

lemma quiet_exec:
  assumes q: "\<forall>i < n. a_quiet n i (a i)" and n: "2 \<le> n" "n \<le> 7" and s: "agexec n ev a = Some a'"
  shows "\<forall>i < n. a_quiet n i (a' i)"
proof (cases ev)
  case (Timeout i rnd)
  then show ?thesis using s q quiet_receive [of n i "a i" rnd] n by (auto split: if_splits)
next
  case (Beat i)
  then show ?thesis using s q by (auto simp: a_hb_send_def a_quiet_def split: if_splits)
next
  case (Poll i rc rnd)
  then show ?thesis using s q quiet_poll [of n i "a i"] n by (auto split: if_splits)
next
  case (DReq j i k)
  then show ?thesis using s q by (auto simp: a_put_request_def a_quiet_def split: if_splits option.splits ctrl_msg.splits)
next
  case (DAck j k)
  then show ?thesis using s q by (auto simp: a_quiet_def Let_def split: if_splits option.splits ctrl_msg.splits)
next
  case (DHb j i k)
  then show ?thesis using s q by (auto simp: a_quiet_def split: if_splits option.splits ctrl_msg.splits)
qed

lemma quiet_init: "ginit_empty n g \<Longrightarrow> quiet n g"
  by (auto simp: ginit_empty_def quiet_def a_quiet_def absG_def absE_start a_start_def INIT_LEADER_def word_of_nat_eq_0_iff dest: nat_dvd_not_less)

interpretation empty_sys: layered_invariant "ginit_empty n" "gstep n" "ginv n" "quiet n" for n
proof unfold_locales
  show "ginv n g" if "ginit_empty n g" for g using that by (intro ginv_init) (auto simp: ginit_empty_def ginit_def)
  show "ginv n g'" if "ginv n g" "gstep n g g'" for g g' using that by (auto simp: gstep_def intro: ginv_step)
  show "quiet n g" if "ginit_empty n g" for g by (rule quiet_init [OF that])
  show "quiet n g'" if "ginv n g" "quiet n g" and s: "gstep n g g'" for g g'
  proof -
    obtain ev where "gexec n ev g = Some g'" using s by (auto simp: gstep_def)
    then have "agexec n ev (absG g) = Some (absG g')" using exec_ref [OF that(1), of ev] by simp
    then show ?thesis using quiet_exec [of n "absG g"] that(2) by (auto simp: quiet_def)
  qed
qed

section \<open>Properties\<close>

text \<open>
  C5: A server takes part at most once in every term: over any run of the group, with messages that are late,
  repeated or lost, the terms of the vote requests and vote acknowledgements a server
  sends are strictly increasing and never above its own term, so it supports one candidate
  per term.
\<close>

theorem votes_once_per_term:
  assumes "ginit n g" and "(gstep n)\<^sup>*\<^sup>* g g'" and "i < n"
  shows "sorted_wrt (<) (vote_terms (g' i)) \<and> (\<forall>t \<in> set (vote_terms (g' i)). t \<le> SID_GET_TERM (el_sid (g' i)))"
  using election_sys.reach_inv [OF assms(1,2)] assms(3) by (simp add: ginv_def einv_def)

definition fresh_group :: "nat \<Rightarrow> nat \<Rightarrow> election" where
  "fresh_group n i = el_start n i 0"

lemma fresh_init: "n \<le> 7 \<Longrightarrow> ginit n (fresh_group n)"
  by (auto simp: ginit_def fresh_group_def layout_simps)

lemma fresh_abs: "absG (fresh_group n) = (\<lambda>i. a_start n i 0)"
  by (simp add: absG_def fresh_group_def absE_start fun_eq_iff)

text \<open>A run of five servers, and what it ends in.\<close>

definition split_run :: "gev list" where
  "split_run = [Timeout 1 0, Timeout 1 0, Timeout 2 0, Timeout 3 0, DReq 1 2 1, Poll 2 0 0, DReq 1 3 1, Poll 3 0 0, DAck 2 1,
     Timeout 4 0, Timeout 4 0, Timeout 4 0, DReq 4 1 2, Poll 1 0 0, DAck 3 1, Poll 1 0 0,
     DReq 4 2 2, Poll 2 0 0, DReq 4 3 2, Poll 3 0 0, DAck 2 2, DAck 3 2, Poll 4 0 0]"

lemma split_run_abs:
  "case agrun 5 split_run (\<lambda>i. a_start 5 i 0) of None \<Rightarrow> False
   | Some a \<Rightarrow> a_sid (a 1) = 0x901 \<and> a_sid (a 4) = 0x904 \<and> a_sent (a 2) = [VoteRequest 0x402, VoteAck 0x601, VoteAck 0x804]
       \<and> a_sent (a 1) = [VoteRequest 0x401, VoteRequest 0x601]"
  by code_simp

lemma split_run_ends:
  "\<exists>g'. (gstep 5)\<^sup>*\<^sup>* (fresh_group 5) g' \<and> el_sid (g' 1) = 0x901 \<and> el_sid (g' 4) = 0x904 \<and>
     el_sent (g' 2) = [VoteRequest 0x402, VoteAck 0x601, VoteAck 0x804] \<and> el_sent (g' 1) = [VoteRequest 0x401, VoteRequest 0x601]"
proof -
  have "ginv 5 (fresh_group 5)" by (rule ginv_init [OF fresh_init]) simp
  from run_ref [OF this, of split_run] split_run_abs
  obtain g' where g': "grun 5 split_run (fresh_group 5) = Some g'"
      "a_sid (absG g' 1) = 0x901" "a_sid (absG g' 4) = 0x904"
      "a_sent (absG g' 2) = [VoteRequest 0x402, VoteAck 0x601, VoteAck 0x804]" "a_sent (absG g' 1) = [VoteRequest 0x401, VoteRequest 0x601]"
    unfolding fresh_abs by (cases "grun 5 split_run (fresh_group 5)") (auto split: option.splits)
  then show ?thesis using run_steps [OF g'(1)] by (auto simp: absG_def)
qed

theorem votes_once_per_term_witness:
  "\<exists>g'. (gstep 5)\<^sup>*\<^sup>* (fresh_group 5) g' \<and> vote_terms (g' 2) = [2, 3, 4] \<and> sorted_wrt (<) (vote_terms (g' 2))"
proof -
  obtain g' where g': "(gstep 5)\<^sup>*\<^sup>* (fresh_group 5) g'" "el_sent (g' 2) = [VoteRequest 0x402, VoteAck 0x601, VoteAck 0x804]"
    using split_run_ends by blast
  have "vote_terms (g' 2) = [2, 3, 4]" by (simp add: vote_terms_def g'(2) map_filter_simps SID_GET_TERM_def)
  then show ?thesis using votes_once_per_term [OF fresh_init g'(1), of 2] g'(1) by auto
qed

definition leads_term :: "election \<Rightarrow> u64 \<Rightarrow> bool" where
  "leads_term st t \<longleftrightarrow> SID_GET_L (el_sid st) \<noteq> 0 \<and> unat (SID_GET_IDX (el_sid st)) = unat (el_idx st) \<and> SID_GET_TERM (el_sid st) = t"




end
