(* ===== verification/Ibv_Ud.thy ===== *)
theory Ibv_Ud
  imports Ibv_Rc
begin

text \<open>
  The datagram messages of \<open>rdma/dare_ibv_ud.c\<close> by which servers join a group and exchange what they
  need to connect their queue pairs. Messages are the bytes of the C structures; the contents of
  freshly allocated memory, the numbers of the queue pairs and the identifiers of the ports are
  parameters. \<open>event_step\<close> is one turn of the loop that handles incoming messages; its \<open>switch\<close>
  has no \<open>break\<close>, so the code of every later label runs too. \<open>None\<close> is an access through a null
  pointer, outside the array of servers or outside the message buffer.
\<close>

section \<open>Messages\<close>

definition RC_SYN :: u32 where "RC_SYN = 1"
definition RC_SYNACK :: u32 where "RC_SYNACK = 2"
definition JOIN :: u32 where "JOIN = 211"
definition DESTROY :: u32 where "DESTROY = 213"
definition CFG_REPLY :: u32 where "CFG_REPLY = 214"

definition BUFSIZE :: nat where "BUFSIZE = 256"

text \<open>Offsets and sizes of \<open>ud_hdr_t\<close>, \<open>reconf_rep_t\<close>, \<open>rc_destroy_t\<close> and \<open>rc_syn_t\<close>.\<close>

definition H_TYPE :: nat where "H_TYPE = 0"
definition H_LENGTH :: nat where "H_LENGTH = 8"
definition UD_HDR_SIZE :: nat where "UD_HDR_SIZE = 16"
definition REP_IDX :: nat where "REP_IDX = 16"
definition REP_SIZE :: nat where "REP_SIZE = 24"
definition S_RADDR :: nat where "S_RADDR = 16"
definition S_RKEY :: nat where "S_RKEY = 24"
definition S_IDX :: nat where "S_IDX = 32"
definition S_LID :: nat where "S_LID = 36"
definition S_GID :: nat where "S_GID = 38"
definition S_DATA :: nat where "S_DATA = 54"
definition RC_SYN_SIZE :: nat where "RC_SYN_SIZE = 56"

lemmas ud_layout = H_TYPE_def H_LENGTH_def UD_HDR_SIZE_def REP_IDX_def REP_SIZE_def S_RADDR_def S_RKEY_def S_IDX_def
  S_LID_def S_GID_def S_DATA_def RC_SYN_SIZE_def BUFSIZE_def

section \<open>State\<close>

datatype dest = Mcast | Client

record 'v ud_env =
  env_verbs :: "'v verbs"
  env_qp_num :: "nat \<Rightarrow> u32"
  env_gid :: "u8 list option"
  env_junk :: mem
  env_leader :: bool

record 'v ud_state =
  ud_dev :: ib_device
  ud_srv :: server_data
  ud_leader :: u32
  ud_v :: 'v
  ud_out :: "(dest \<times> u8 list) list"

definition upd_ep :: "'v ud_state \<Rightarrow> nat \<Rightarrow> dare_ib_ep \<Rightarrow> 'v ud_state" where
  "upd_ep st i ep = st\<lparr>ud_srv := (ud_srv st)\<lparr>servers := (servers (ud_srv st))[i := ep]\<rparr>\<rparr>"

definition send_to :: "dest \<Rightarrow> u8 list \<Rightarrow> 'v ud_state \<Rightarrow> 'v ud_state" where
  "send_to d bs st = st\<lparr>ud_out := ud_out st @ [(d, bs)]\<rparr>"

text \<open>The own port identifier: zero without an index, not set when the query fails.\<close>

definition my_gid :: "'v ud_env \<Rightarrow> ib_device \<Rightarrow> u8 list" where
  "my_gid env dev =
     (if gid_idx dev \<ge> 0 then (case env_gid env of Some g \<Rightarrow> g | None \<Rightarrow> get_bytes (env_junk env) 0 16)
      else replicate 16 0)"

section \<open>Sending\<close>

definition mcast_send_message :: "u8 list \<Rightarrow> 'v ud_state \<Rightarrow> 'v ud_state" where
  "mcast_send_message bs st = send_to Mcast bs st"

definition ud_join_cluster :: "'v ud_state \<Rightarrow> 'v ud_state" where
  "ud_join_cluster st = mcast_send_message (get_bytes (put_u32 (\<lambda>_. 0) H_TYPE JOIN) 0 UD_HDR_SIZE) st"

definition ud_destroy_request :: "'v ud_state \<Rightarrow> 'v ud_state" where
  "ud_destroy_request st =
     mcast_send_message (get_bytes (put_u32 (put_u32 (\<lambda>_. 0) H_TYPE DESTROY) REP_IDX (srv_idx (ud_srv st))) 0 REP_SIZE) st"

definition handle_server_join_request :: "'v ud_env \<Rightarrow> 'v ud_state \<Rightarrow> u8 list" where
  "handle_server_join_request env st =
     get_bytes (put_u32 (put_u32 (env_junk env) H_TYPE CFG_REPLY) REP_IDX (srv_idx (ud_srv st))) 0 REP_SIZE"

text \<open>The numbers of the own queue pairs.\<close>

definition own_qpn :: "'v ud_env \<Rightarrow> dare_ib_ep list \<Rightarrow> nat \<Rightarrow> u32 option" where
  "own_qpn env eps i = (if i < length eps then map_option (env_qp_num env) (qp (eps ! i)) else None)"

fun put_qpns :: "'v ud_env \<Rightarrow> dare_ib_ep list \<Rightarrow> nat list \<Rightarrow> mem \<Rightarrow> mem option" where
  "put_qpns env eps [] m = Some m"
| "put_qpns env eps (i # is) m =
     (case own_qpn env eps i of
        None \<Rightarrow> None
      | Some q \<Rightarrow> if S_DATA + 4 * i + 4 \<le> BUFSIZE then put_qpns env eps is (put_u32 m (S_DATA + 4 * i) q) else None)"

definition put_syn :: "u32 \<Rightarrow> mr \<Rightarrow> u32 \<Rightarrow> u16 \<Rightarrow> mem \<Rightarrow> mem" where
  "put_syn ty r idx l m =
     put_u16 (put_u32 (put_u32 (put_u64 (put_u32 m H_TYPE ty) S_RADDR (mr_addr r)) S_RKEY (mr_rkey r)) S_IDX idx) S_LID l"

definition ud_exchange_rc_info :: "'v ud_env \<Rightarrow> 'v ud_state \<Rightarrow> 'v ud_state option" where
  "ud_exchange_rc_info env st =
     (case lcl_mr (ud_dev st) of
        None \<Rightarrow> None
      | Some r \<Rightarrow> do {
          let n = unat (srv_cid_size (ud_srv st));
          let m1 = put_syn RC_SYN r (srv_idx (ud_srv st)) (lid (ud_dev st)) (env_junk env);
          m2 \<leftarrow> put_qpns env (servers (ud_srv st)) [0..<n] m1;
          let m3 = put_bytes m2 S_GID (my_gid env (ud_dev st));
          Some (mcast_send_message (get_bytes m3 0 (RC_SYN_SIZE + 4 * n)) st)
        })"

section \<open>Receiving\<close>

definition handle_server_join_reply :: "mem \<Rightarrow> 'v ud_state \<Rightarrow> 'v ud_state" where
  "handle_server_join_reply msg st = st\<lparr>ud_leader := get_u32 msg REP_IDX\<rparr>"

definition handle_server_destroy_request :: "mem \<Rightarrow> 'v ud_state \<Rightarrow> 'v ud_state option" where
  "handle_server_destroy_request msg st =
     (let i = unat (get_u32 msg REP_IDX)
      in if i < length (servers (ud_srv st))
         then Some (upd_ep st i ((servers (ud_srv st) ! i)\<lparr>rc_connected := False\<rparr>)) else None)"

text \<open>What both halves of the handshake do with a peer that is not connected; \<open>q\<close> is its queue pair.\<close>

definition connect_peer :: "'v ud_env \<Rightarrow> mem \<Rightarrow> u32 \<Rightarrow> nat \<Rightarrow> 'v ud_state \<Rightarrow> int \<times> 'v ud_state" where
  "connect_peer env msg q i st =
     (let ep = (servers (ud_srv st) ! i)\<lparr>rmt_mr := \<lparr>raddr = get_u64 msg S_RADDR, rkey = get_u32 msg S_RKEY\<rparr>,
            qpn := q, rc_connected := True\<rparr>
      in case rc_connect_server (env_verbs env) (ud_dev st) ep (get_u16 msg S_LID) (get_bytes msg S_GID 16) (ud_v st) of
           (rc, ep', v') \<Rightarrow> (rc, (upd_ep st i ep')\<lparr>ud_v := v'\<rparr>))"

text \<open>The reply: the header part is cleared, the rest of the buffer is not.\<close>

definition syn_reply :: "'v ud_env \<Rightarrow> 'v ud_state \<Rightarrow> nat \<Rightarrow> u8 list option" where
  "syn_reply env st i =
     (case (lcl_mr (ud_dev st), own_qpn env (servers (ud_srv st)) i) of
        (Some r, Some q) \<Rightarrow>
          let m0 = put_bytes (env_junk env) 0 (replicate RC_SYN_SIZE 0);
              m1 = put_syn RC_SYNACK r (srv_idx (ud_srv st)) (lid (ud_dev st)) m0;
              len = RC_SYN_SIZE + 4;
              m2 = put_u64 (put_u32 m1 S_DATA q) H_LENGTH (of_nat len);
              m3 = put_bytes m2 S_GID (my_gid env (ud_dev st))
          in Some (get_bytes m3 0 len)
      | _ \<Rightarrow> None)"

definition handle_rc_syn :: "'v ud_env \<Rightarrow> mem \<Rightarrow> 'v ud_state \<Rightarrow> (u8 list \<times> 'v ud_state) option" where
  "handle_rc_syn env msg st =
     (let i = unat (get_u32 msg S_IDX); own = S_DATA + 4 * unat (srv_idx (ud_srv st))
      in if length (servers (ud_srv st)) \<le> i then None
         else if rc_connected (servers (ud_srv st) ! i) then map_option (\<lambda>bs. (bs, st)) (syn_reply env st i)
         else if BUFSIZE < own + 4 then None
         else
           let st1 = snd (connect_peer env msg (get_u32 msg own) i st)
           in map_option (\<lambda>bs. (bs, st1)) (syn_reply env st1 i))"

definition handle_rc_synack :: "'v ud_env \<Rightarrow> mem \<Rightarrow> 'v ud_state \<Rightarrow> (int \<times> 'v ud_state) option" where
  "handle_rc_synack env msg st =
     (let i = unat (get_u32 msg S_IDX)
      in if length (servers (ud_srv st)) \<le> i then None
         else if rc_connected (servers (ud_srv st) ! i) then Some (0, st)
         else (case connect_peer env msg (get_u32 msg S_DATA) i st of (rc, st1) \<Rightarrow> Some (if rc \<noteq> 0 then 1 else 0, st1)))"

section \<open>The event loop\<close>

text \<open>The buffer is cleared before a datagram is received into it.\<close>

definition recv_buffer :: "u8 list \<Rightarrow> mem" where
  "recv_buffer pkt = put_bytes (\<lambda>_. 0) 0 (take BUFSIZE pkt)"

text \<open>The code behind each label; the flag tells whether control goes on to the next label.\<close>

definition on_join :: "'v ud_env \<Rightarrow> mem \<Rightarrow> 'v ud_state \<Rightarrow> (bool \<times> 'v ud_state) option" where
  "on_join env msg st =
     (if \<not> env_leader env then Some (False, st)
      else Some (True, send_to Client (handle_server_join_request env st) st))"

definition on_syn :: "'v ud_env \<Rightarrow> mem \<Rightarrow> 'v ud_state \<Rightarrow> (bool \<times> 'v ud_state) option" where
  "on_syn env msg st = map_option (\<lambda>(bs, st1). (True, send_to Client bs st1)) (handle_rc_syn env msg st)"

definition on_synack :: "'v ud_env \<Rightarrow> mem \<Rightarrow> 'v ud_state \<Rightarrow> (bool \<times> 'v ud_state) option" where
  "on_synack env msg st = map_option (\<lambda>(rc, st1). (True, st1)) (handle_rc_synack env msg st)"

definition on_reply :: "'v ud_env \<Rightarrow> mem \<Rightarrow> 'v ud_state \<Rightarrow> (bool \<times> 'v ud_state) option" where
  "on_reply env msg st = map_option (\<lambda>st1. (True, st1)) (ud_exchange_rc_info env (handle_server_join_reply msg st))"

definition on_destroy :: "'v ud_env \<Rightarrow> mem \<Rightarrow> 'v ud_state \<Rightarrow> (bool \<times> 'v ud_state) option" where
  "on_destroy env msg st = map_option (\<lambda>st1. (True, st1)) (handle_server_destroy_request msg st)"

definition ud_cases :: "'v ud_env \<Rightarrow> (u32 \<times> (mem \<Rightarrow> 'v ud_state \<Rightarrow> (bool \<times> 'v ud_state) option)) list" where
  "ud_cases env = [(JOIN, on_join env), (RC_SYN, on_syn env), (RC_SYNACK, on_synack env), (CFG_REPLY, on_reply env),
     (DESTROY, on_destroy env)]"

fun run_cases :: "(u32 \<times> (mem \<Rightarrow> 'v ud_state \<Rightarrow> (bool \<times> 'v ud_state) option)) list \<Rightarrow> mem \<Rightarrow> 'v ud_state \<Rightarrow> 'v ud_state option" where
  "run_cases [] msg st = Some st"
| "run_cases ((l, h) # cs) msg st =
     (case h msg st of
        None \<Rightarrow> None
      | Some (go_on, st1) \<Rightarrow> if go_on then run_cases cs msg st1 else Some st1)"

definition event_step :: "'v ud_env \<Rightarrow> bool \<Rightarrow> u8 list \<Rightarrow> 'v ud_state \<Rightarrow> 'v ud_state option" where
  "event_step env from_self pkt st =
     (let msg = recv_buffer pkt
      in if from_self then Some st
         else run_cases (dropWhile (\<lambda>(l, _). l \<noteq> get_u32 msg H_TYPE) (ud_cases env)) msg st)"

section \<open>Bytes of a message\<close>

lemma low_half: "get_u32 m a = ucast (get_u64 m a)"
proof (rule bit_word_eqI)
  fix i assume "i < LENGTH(32)"
  then show "bit (get_u32 m a) i \<longleftrightarrow> bit (ucast (get_u64 m a) :: u32) i"
    by (auto simp: get_u32_def get_u64_def bit_ucast_iff bit_le_word)
qed

text \<open>A message that fits into the buffer is received as it was sent.\<close>

lemma recv_get:
  assumes "len \<le> BUFSIZE" and "a + k \<le> len"
  shows "get_bytes (recv_buffer (get_bytes m 0 len)) a k = get_bytes m a k"
  using assms by (auto intro!: get_bytes_cong simp: recv_buffer_def put_bytes_def ud_layout)

lemma recv_words:
  assumes "len \<le> BUFSIZE"
  shows "a + 2 \<le> len \<Longrightarrow> get_u16 (recv_buffer (get_bytes m 0 len)) a = get_u16 m a"
    "a + 4 \<le> len \<Longrightarrow> get_u32 (recv_buffer (get_bytes m 0 len)) a = get_u32 m a"
    "a + 8 \<le> len \<Longrightarrow> get_u64 (recv_buffer (get_bytes m 0 len)) a = get_u64 m a"
  using recv_get [OF assms] by (simp_all add: get_defs)

lemma put_syn_fields:
  "get_u32 (put_syn ty r idx l m) H_TYPE = ty" "get_u64 (put_syn ty r idx l m) S_RADDR = mr_addr r"
  "get_u32 (put_syn ty r idx l m) S_RKEY = mr_rkey r" "get_u32 (put_syn ty r idx l m) S_IDX = idx"
  "get_u16 (put_syn ty r idx l m) S_LID = l"
  by (simp_all add: put_syn_def ud_layout mem_simps)

lemma put_qpns_some:
  assumes "\<forall>i \<in> set is. i < length eps \<and> qp (eps ! i) \<noteq> None \<and> i < 50"
  shows "\<exists>m2. put_qpns env eps is m = Some m2 \<and> (\<forall>x < S_DATA. m2 x = m x) \<and>
    (\<forall>i. i \<notin> set is \<longrightarrow> get_u32 m2 (S_DATA + 4 * i) = get_u32 m (S_DATA + 4 * i)) \<and>
    (\<forall>i \<in> set is. get_u32 m2 (S_DATA + 4 * i) = env_qp_num env (the (qp (eps ! i))))"
  using assms
proof (induction "is" arbitrary: m)
  case (Cons i "is")
  then obtain q where q: "qp (eps ! i) = Some q" "i < length eps" "i < 50" by auto
  let ?m = "put_u32 m (S_DATA + 4 * i) (env_qp_num env q)"
  obtain m2 where m2: "put_qpns env eps is ?m = Some m2" "\<forall>x < S_DATA. m2 x = ?m x"
      "\<forall>j. j \<notin> set is \<longrightarrow> get_u32 m2 (S_DATA + 4 * j) = get_u32 ?m (S_DATA + 4 * j)"
      "\<forall>j \<in> set is. get_u32 m2 (S_DATA + 4 * j) = env_qp_num env (the (qp (eps ! j)))"
    using Cons.IH [of ?m] Cons.prems by auto
  have o: "get_u32 ?m (S_DATA + 4 * j) = (if j = i then env_qp_num env q else get_u32 m (S_DATA + 4 * j))" for j
  proof (cases "j = i")
    case False
    then have "S_DATA + 4 * j + 4 \<le> S_DATA + 4 * i \<or> S_DATA + 4 * i + 4 \<le> S_DATA + 4 * j" by arith
    then show ?thesis using False by (simp add: mem_simps)
  qed (simp add: mem_simps)
  have "put_qpns env eps (i # is) m = Some m2" using q m2(1) by (simp add: own_qpn_def ud_layout)
  moreover have "\<forall>x < S_DATA. m2 x = m x" using m2(2) by (simp add: put_u32_def put_bytes_def)
  moreover have "\<forall>j. j \<notin> set (i # is) \<longrightarrow> get_u32 m2 (S_DATA + 4 * j) = get_u32 m (S_DATA + 4 * j)" using m2(3) o by auto
  moreover have "\<forall>j \<in> set (i # is). get_u32 m2 (S_DATA + 4 * j) = env_qp_num env (the (qp (eps ! j)))"
    using m2(3,4) o q(1) by (cases "i \<in> set is") auto
  ultimately show ?case by blast
qed simp

lemma connect_ep: "fst (snd (rc_connect_server V dev ep dlid dgid v)) = ep\<lparr>send_count := 0\<rparr>"
  by (auto simp: rc_connect_server_def rc_qp_reset_to_init_def split: prod.split)

lemma connect_peer_state:
  assumes "connect_peer env msg q i st = (rc, st')"
  shows "ud_srv st' = (ud_srv st)\<lparr>servers := (servers (ud_srv st))[i := (servers (ud_srv st) ! i)
      \<lparr>rmt_mr := \<lparr>raddr = get_u64 msg S_RADDR, rkey = get_u32 msg S_RKEY\<rparr>, qpn := q, rc_connected := True, send_count := 0\<rparr>]\<rparr>"
    "ud_dev st' = ud_dev st" "ud_out st' = ud_out st" "ud_leader st' = ud_leader st"
proof -
  let ?ep = "(servers (ud_srv st) ! i)\<lparr>rmt_mr := \<lparr>raddr = get_u64 msg S_RADDR, rkey = get_u32 msg S_RKEY\<rparr>, qpn := q, rc_connected := True\<rparr>"
  obtain r e v where c: "rc_connect_server (env_verbs env) (ud_dev st) ?ep (get_u16 msg S_LID) (get_bytes msg S_GID 16) (ud_v st) = (r, e, v)"
    by (metis prod_cases3)
  have e: "e = ?ep\<lparr>send_count := 0\<rparr>" using connect_ep [of "env_verbs env" "ud_dev st" ?ep] c by (metis fst_conv snd_conv)
  have "st' = (upd_ep st i e)\<lparr>ud_v := v\<rparr>" using assms c by (simp add: connect_peer_def Let_def)
  then show "ud_srv st' = (ud_srv st)\<lparr>servers := (servers (ud_srv st))[i := (servers (ud_srv st) ! i)
      \<lparr>rmt_mr := \<lparr>raddr = get_u64 msg S_RADDR, rkey = get_u32 msg S_RKEY\<rparr>, qpn := q, rc_connected := True, send_count := 0\<rparr>]\<rparr>"
    "ud_dev st' = ud_dev st" "ud_out st' = ud_out st" "ud_leader st' = ud_leader st"
    by (simp_all add: upd_ep_def e)
qed

section \<open>The handshake\<close>

text \<open>The fields of a connection message.\<close>

definition syn_msg :: "mem \<Rightarrow> mr \<Rightarrow> u32 \<Rightarrow> u16 \<Rightarrow> u8 list \<Rightarrow> bool" where
  "syn_msg m r idx l g \<longleftrightarrow> get_u64 m S_RADDR = mr_addr r \<and> get_u32 m S_RKEY = mr_rkey r \<and> get_u32 m S_IDX = idx \<and>
     get_u16 m S_LID = l \<and> get_bytes m S_GID 16 = g"

lemma syn_msg_recv: "syn_msg m r idx l g \<Longrightarrow> S_DATA \<le> len \<Longrightarrow> len \<le> BUFSIZE \<Longrightarrow> syn_msg (recv_buffer (get_bytes m 0 len)) r idx l g"
  by (simp add: syn_msg_def recv_words recv_get ud_layout)

lemma exchange_msg:
  assumes "lcl_mr (ud_dev st) = Some r" and n: "unat (srv_cid_size (ud_srv st)) = n" "n \<le> 50" "n \<le> length (servers (ud_srv st))"
    and q: "\<forall>i < n. qp (servers (ud_srv st) ! i) \<noteq> None" and g: "length (my_gid env (ud_dev st)) = 16"
  shows "\<exists>m. ud_exchange_rc_info env st = Some (send_to Mcast (get_bytes m 0 (RC_SYN_SIZE + 4 * n)) st) \<and>
    get_u32 m H_TYPE = RC_SYN \<and> syn_msg m r (srv_idx (ud_srv st)) (lid (ud_dev st)) (my_gid env (ud_dev st)) \<and>
    (\<forall>i < n. get_u32 m (S_DATA + 4 * i) = env_qp_num env (the (qp (servers (ud_srv st) ! i))))"
proof -
  let ?m1 = "put_syn RC_SYN r (srv_idx (ud_srv st)) (lid (ud_dev st)) (env_junk env)"
  obtain m2 where m2: "put_qpns env (servers (ud_srv st)) [0..<n] ?m1 = Some m2" "\<forall>x < S_DATA. m2 x = ?m1 x"
      "\<forall>i < n. get_u32 m2 (S_DATA + 4 * i) = env_qp_num env (the (qp (servers (ud_srv st) ! i)))"
    using put_qpns_some [of "[0..<n]" "servers (ud_srv st)" env ?m1] n q by fastforce
  let ?m = "put_bytes m2 S_GID (my_gid env (ud_dev st))"
  have h: "get_bytes m2 a k = get_bytes ?m1 a k" if "a + k \<le> S_DATA" for a k using m2(2) that by (intro get_bytes_cong) auto
  have "get_u32 ?m H_TYPE = RC_SYN \<and> syn_msg ?m r (srv_idx (ud_srv st)) (lid (ud_dev st)) (my_gid env (ud_dev st))"
    using put_syn_fields [of RC_SYN r "srv_idx (ud_srv st)" "lid (ud_dev st)" "env_junk env"] g
    by (simp add: syn_msg_def get_defs mem_simps h ud_layout)
  moreover have "get_u32 ?m (S_DATA + 4 * i) = get_u32 m2 (S_DATA + 4 * i)" for i using g by (simp add: mem_simps ud_layout)
  ultimately show ?thesis
    using m2 assms(1) n by (intro exI [of _ ?m]) (simp add: ud_exchange_rc_info_def mcast_send_message_def)
qed

lemma reply_msg:
  assumes "lcl_mr (ud_dev st) = Some r" and "own_qpn env (servers (ud_srv st)) i = Some q" and g: "length (my_gid env (ud_dev st)) = 16"
  shows "\<exists>m. syn_reply env st i = Some (get_bytes m 0 (RC_SYN_SIZE + 4)) \<and> get_u32 m S_DATA = q \<and>
    syn_msg m r (srv_idx (ud_srv st)) (lid (ud_dev st)) (my_gid env (ud_dev st))"
proof -
  let ?clr = "put_bytes (env_junk env) 0 (replicate RC_SYN_SIZE 0)"
  let ?syn = "put_syn RC_SYNACK r (srv_idx (ud_srv st)) (lid (ud_dev st)) ?clr"
  let ?res = "put_bytes (put_u64 (put_u32 ?syn S_DATA q) H_LENGTH (of_nat (RC_SYN_SIZE + 4))) S_GID (my_gid env (ud_dev st))"
  have "get_u32 ?res S_DATA = q \<and> syn_msg ?res r (srv_idx (ud_srv st)) (lid (ud_dev st)) (my_gid env (ud_dev st))"
    using put_syn_fields [of RC_SYNACK r "srv_idx (ud_srv st)" "lid (ud_dev st)" ?clr] g
    by (simp add: syn_msg_def mem_simps ud_layout)
  then show ?thesis using assms by (intro exI [of _ ?res]) (simp add: syn_reply_def Let_def)
qed

lemma handle_syn:
  assumes msg: "syn_msg msg r (of_nat a) l g" and a: "a < length (servers (ud_srv st))" "length (servers (ud_srv st)) = MAX_SERVER_COUNT"
    and b: "srv_idx (ud_srv st) = of_nat b" "b < MAX_SERVER_COUNT"
    and "\<not> rc_connected (servers (ud_srv st) ! a)"
  shows "\<exists>st1. handle_rc_syn env msg st = map_option (\<lambda>bs. (bs, st1)) (syn_reply env st1 a) \<and> ud_dev st1 = ud_dev st \<and>
    ud_srv st1 = (ud_srv st)\<lparr>servers := (servers (ud_srv st))[a := (servers (ud_srv st) ! a)
      \<lparr>rmt_mr := \<lparr>raddr = mr_addr r, rkey = mr_rkey r\<rparr>, qpn := get_u32 msg (S_DATA + 4 * b), rc_connected := True, send_count := 0\<rparr>]\<rparr>"
proof -
  have u: "unat (of_nat a :: u32) = a" "unat (of_nat b :: u32) = b" using a b by (simp_all add: unat_of_nat take_bit_nat_eq_self layout_simps)
  obtain rc st1 where c: "connect_peer env msg (get_u32 msg (S_DATA + 4 * b)) a st = (rc, st1)" by force
  show ?thesis
    using assms connect_peer_state [OF c] msg u c
    by (intro exI [of _ st1]) (simp add: handle_rc_syn_def Let_def syn_msg_def ud_layout layout_simps)
qed

lemma handle_synack:
  assumes msg: "syn_msg msg r (of_nat b) l g" and b: "b < length (servers (ud_srv st))" "length (servers (ud_srv st)) = MAX_SERVER_COUNT"
    and "\<not> rc_connected (servers (ud_srv st) ! b)"
  shows "\<exists>rc st1. handle_rc_synack env msg st = Some (rc, st1) \<and>
    ud_srv st1 = (ud_srv st)\<lparr>servers := (servers (ud_srv st))[b := (servers (ud_srv st) ! b)
      \<lparr>rmt_mr := \<lparr>raddr = mr_addr r, rkey = mr_rkey r\<rparr>, qpn := get_u32 msg S_DATA, rc_connected := True, send_count := 0\<rparr>]\<rparr>"
proof -
  have u: "unat (of_nat b :: u32) = b" using b by (simp add: unat_of_nat take_bit_nat_eq_self layout_simps)
  obtain rc st1 where c: "connect_peer env msg (get_u32 msg S_DATA) b st = (rc, st1)" by force
  show ?thesis
    using assms connect_peer_state [OF c] msg u c
    by (intro exI [of _ st1] exI [of _ "if rc \<noteq> 0 then 1 else 0"]) (simp add: handle_rc_synack_def Let_def syn_msg_def)
qed

section \<open>Properties\<close>

text \<open>
  C9: The connection handshake pairs the queue pairs of two servers: after server \<open>a\<close> has sent its connection
  message and \<open>b\<close> has answered it, each of them has the memory region of the other, the number of
  the queue pair the other uses for it, and marks the other as connected. The other endpoints stay.
\<close>

theorem handshake_pairs:
  assumes mr: "lcl_mr (ud_dev sa) = Some ra" "lcl_mr (ud_dev sb) = Some rb"
    and n: "unat (srv_cid_size (ud_srv sa)) = n" "n \<le> MAX_SERVER_COUNT"
    and len: "length (servers (ud_srv sa)) = MAX_SERVER_COUNT" "length (servers (ud_srv sb)) = MAX_SERVER_COUNT"
    and ab: "srv_idx (ud_srv sa) = of_nat a" "srv_idx (ud_srv sb) = of_nat b" "a < n" "b < n"
    and qps: "\<forall>i < n. qp (servers (ud_srv sa) ! i) \<noteq> None" "qp (servers (ud_srv sa) ! b) = Some qa" "qp (servers (ud_srv sb) ! a) = Some qb"
    and dis: "\<not> rc_connected (servers (ud_srv sa) ! b)" "\<not> rc_connected (servers (ud_srv sb) ! a)"
    and gids: "length (my_gid ea (ud_dev sa)) = 16" "length (my_gid eb (ud_dev sb)) = 16"
  shows "\<exists>syn sa1 ack sb1 rc sa2. ud_exchange_rc_info ea sa = Some sa1 \<and> ud_out sa1 = ud_out sa @ [(Mcast, syn)] \<and>
     handle_rc_syn eb (recv_buffer syn) sb = Some (ack, sb1) \<and> handle_rc_synack ea (recv_buffer ack) sa1 = Some (rc, sa2) \<and>
     servers (ud_srv sb1) = (servers (ud_srv sb))[a := (servers (ud_srv sb) ! a)
       \<lparr>rmt_mr := \<lparr>raddr = mr_addr ra, rkey = mr_rkey ra\<rparr>, qpn := env_qp_num ea qa, rc_connected := True, send_count := 0\<rparr>] \<and>
     servers (ud_srv sa2) = (servers (ud_srv sa))[b := (servers (ud_srv sa) ! b)
       \<lparr>rmt_mr := \<lparr>raddr = mr_addr rb, rkey = mr_rkey rb\<rparr>, qpn := env_qp_num eb qb, rc_connected := True, send_count := 0\<rparr>]"
proof -
  have n7: "n \<le> 7" using n(2) by (simp add: layout_simps)
  obtain m where m: "ud_exchange_rc_info ea sa = Some (send_to Mcast (get_bytes m 0 (RC_SYN_SIZE + 4 * n)) sa)"
      "syn_msg m ra (of_nat a) (lid (ud_dev sa)) (my_gid ea (ud_dev sa))"
      "get_u32 m (S_DATA + 4 * b) = env_qp_num ea qa"
    using exchange_msg [OF mr(1) n(1) _ _ qps(1) gids(1)] n len ab qps(2) by (auto simp: layout_simps)
  let ?syn = "get_bytes m 0 (RC_SYN_SIZE + 4 * n)" and ?sa1 = "send_to Mcast (get_bytes m 0 (RC_SYN_SIZE + 4 * n)) sa"
  have b4: "RC_SYN_SIZE + 4 * n \<le> BUFSIZE" "S_DATA \<le> RC_SYN_SIZE + 4 * n" "S_DATA + 4 * b + 4 \<le> RC_SYN_SIZE + 4 * n"
    using n7 ab(4) by (simp_all add: ud_layout)
  have am: "a < length (servers (ud_srv sb))" "b < MAX_SERVER_COUNT" using ab n len by simp_all
  obtain sb1 where sb1: "handle_rc_syn eb (recv_buffer ?syn) sb = map_option (\<lambda>bs. (bs, sb1)) (syn_reply eb sb1 a)" "ud_dev sb1 = ud_dev sb"
      "ud_srv sb1 = (ud_srv sb)\<lparr>servers := (servers (ud_srv sb))[a := (servers (ud_srv sb) ! a)
        \<lparr>rmt_mr := \<lparr>raddr = mr_addr ra, rkey = mr_rkey ra\<rparr>, qpn := env_qp_num ea qa, rc_connected := True, send_count := 0\<rparr>]\<rparr>"
    using handle_syn [OF syn_msg_recv [OF m(2) b4(2,1)] am(1) len(2) ab(2) am(2) dis(2)] recv_words(2) [OF b4(1,3), of m] m(3) by auto
  have "own_qpn eb (servers (ud_srv sb1)) a = Some (env_qp_num eb qb)" using sb1(3) qps(3) am(1) by (simp add: own_qpn_def)
  then obtain w where w: "syn_reply eb sb1 a = Some (get_bytes w 0 (RC_SYN_SIZE + 4))" "get_u32 w S_DATA = env_qp_num eb qb"
      "syn_msg w rb (of_nat b) (lid (ud_dev sb1)) (my_gid eb (ud_dev sb1))"
    using reply_msg [of sb1 rb eb a] mr(2) gids(2) sb1(2,3) ab(2) by auto
  have b5: "RC_SYN_SIZE + 4 \<le> BUFSIZE" "S_DATA \<le> RC_SYN_SIZE + 4" "S_DATA + 4 \<le> RC_SYN_SIZE + 4" by (simp_all add: ud_layout)
  have s1: "ud_srv ?sa1 = ud_srv sa" by (simp add: send_to_def)
  obtain rc sa2 where sa2: "handle_rc_synack ea (recv_buffer (get_bytes w 0 (RC_SYN_SIZE + 4))) ?sa1 = Some (rc, sa2)"
      "ud_srv sa2 = (ud_srv sa)\<lparr>servers := (servers (ud_srv sa))[b := (servers (ud_srv sa) ! b)
        \<lparr>rmt_mr := \<lparr>raddr = mr_addr rb, rkey = mr_rkey rb\<rparr>, qpn := env_qp_num eb qb, rc_connected := True, send_count := 0\<rparr>]\<rparr>"
    using handle_synack [OF syn_msg_recv [OF w(3) b5(2,1)], of ?sa1 ea] recv_words(2) [OF b5(1,3), of w] w(2) s1 len(1) am(2) dis(1) by auto
  show ?thesis
    using m(1) sb1 w(1) sa2
    by (intro exI [of _ ?syn] exI [of _ ?sa1] exI [of _ "get_bytes w 0 (RC_SYN_SIZE + 4)"] exI [of _ sb1] exI [of _ rc] exI [of _ sa2])
      (simp add: send_to_def)
qed

definition sample_env :: "hca ud_env" where
  "sample_env = \<lparr>env_verbs = hca_verbs, env_qp_num = (\<lambda>q. of_nat q + 100), env_gid = Some (replicate 16 9), env_junk = (\<lambda>_. 5),
     env_leader = False\<rparr>"

definition sample_ud :: "nat \<Rightarrow> hca ud_state" where
  "sample_ud i = \<lparr>ud_dev = sample_dev,
     ud_srv = \<lparr>srv_log = \<lambda>_. 0, srv_idx = of_nat i, srv_cid_size = 3, servers = replicate 7 (sample_ep\<lparr>rc_connected := False\<rparr>)\<rparr>,
     ud_leader = 0, ud_v = sample_hca QPS_RESET, ud_out = []\<rparr>"

theorem handshake_pairs_witness:
  "\<exists>syn sa1 ack sb1 rc sa2. ud_exchange_rc_info sample_env (sample_ud 0) = Some sa1 \<and> ud_out sa1 = [(Mcast, syn)] \<and>
     handle_rc_syn sample_env (recv_buffer syn) (sample_ud 1) = Some (ack, sb1) \<and>
     handle_rc_synack sample_env (recv_buffer ack) sa1 = Some (rc, sa2) \<and>
     rc_connected (servers (ud_srv sb1) ! 0) \<and> rc_connected (servers (ud_srv sa2) ! 1) \<and> qpn (servers (ud_srv sa2) ! 1) = 100"
  using handshake_pairs [of "sample_ud 0" "\<lparr>mr_addr = 4096, mr_len = 100, mr_lkey = 1, mr_rkey = 2\<rparr>" "sample_ud 1"
      "\<lparr>mr_addr = 4096, mr_len = 100, mr_lkey = 1, mr_rkey = 2\<rparr>" 3 0 1 0 0 sample_env sample_env]
  by (auto simp: sample_ud_def sample_dev_def sample_ep_def sample_env_def my_gid_def layout_simps)

lemma case_lengths:
  "on_syn env msg st = Some (b, st1) \<Longrightarrow> length (servers (ud_srv st1)) = length (servers (ud_srv st))"
  "on_synack env msg st = Some (b, st1) \<Longrightarrow> length (servers (ud_srv st1)) = length (servers (ud_srv st))"
  "on_reply env msg st = Some (b, st1) \<Longrightarrow> length (servers (ud_srv st1)) = length (servers (ud_srv st))"
proof -
  have c: "length (servers (ud_srv (snd (connect_peer env msg q i st)))) = length (servers (ud_srv st))" for q i
    using connect_peer_state(1) [of env msg q i st] by (cases "connect_peer env msg q i st") simp
  show "on_syn env msg st = Some (b, st1) \<Longrightarrow> length (servers (ud_srv st1)) = length (servers (ud_srv st))"
    using c by (auto simp: on_syn_def handle_rc_syn_def Let_def send_to_def split: if_splits)
  show "on_synack env msg st = Some (b, st1) \<Longrightarrow> length (servers (ud_srv st1)) = length (servers (ud_srv st))"
    using c by (auto simp: on_synack_def handle_rc_synack_def Let_def split: if_splits prod.splits) (metis snd_conv)
  show "on_reply env msg st = Some (b, st1) \<Longrightarrow> length (servers (ud_srv st1)) = length (servers (ud_srv st))"
    by (auto simp: on_reply_def ud_exchange_rc_info_def handle_server_join_reply_def mcast_send_message_def send_to_def Let_def
        split: option.splits bind_splits)
qed

lemma case_flags:
  "on_syn env msg st = Some (b, st1) \<Longrightarrow> b" "on_synack env msg st = Some (b, st1) \<Longrightarrow> b" "on_reply env msg st = Some (b, st1) \<Longrightarrow> b"
  by (auto simp: on_syn_def on_synack_def on_reply_def)

lemma tail_faults:
  assumes "length (servers (ud_srv st)) \<le> unat (get_u32 msg REP_IDX)"
  shows "run_cases [(CFG_REPLY, on_reply env), (DESTROY, on_destroy env)] msg st = None"
    "run_cases [(RC_SYNACK, on_synack env), (CFG_REPLY, on_reply env), (DESTROY, on_destroy env)] msg st = None"
    "run_cases [(RC_SYN, on_syn env), (RC_SYNACK, on_synack env), (CFG_REPLY, on_reply env), (DESTROY, on_destroy env)] msg st = None"
proof -
  have r: "run_cases [(CFG_REPLY, on_reply env), (DESTROY, on_destroy env)] msg st = None"
    if "length (servers (ud_srv st)) \<le> unat (get_u32 msg REP_IDX)" for st
    using that case_lengths(3) [of env msg st] case_flags(3) [of env msg st]
    by (cases "on_reply env msg st") (auto simp: on_destroy_def handle_server_destroy_request_def Let_def)
  have a: "run_cases [(RC_SYNACK, on_synack env), (CFG_REPLY, on_reply env), (DESTROY, on_destroy env)] msg st = None"
    if "length (servers (ud_srv st)) \<le> unat (get_u32 msg REP_IDX)" for st
    using that case_lengths(2) [of env msg st] case_flags(2) [of env msg st] r
    by (cases "on_synack env msg st") (auto simp del: run_cases.simps(2) simp: run_cases.simps(2) [of RC_SYNACK])
  show "run_cases [(CFG_REPLY, on_reply env), (DESTROY, on_destroy env)] msg st = None" by (rule r [OF assms])
  show "run_cases [(RC_SYNACK, on_synack env), (CFG_REPLY, on_reply env), (DESTROY, on_destroy env)] msg st = None" by (rule a [OF assms])
  show "run_cases [(RC_SYN, on_syn env), (RC_SYNACK, on_synack env), (CFG_REPLY, on_reply env), (DESTROY, on_destroy env)] msg st = None"
    using assms case_lengths(1) [of env msg st] case_flags(1) [of env msg st] a
    by (cases "on_syn env msg st") (auto simp del: run_cases.simps(2) simp: run_cases.simps(2) [of RC_SYN])
qed

text \<open>
  C26: The loop around the handlers does not survive a connection message. Its \<open>switch\<close> has no \<open>break\<close>, so
  a connection request or answer is also taken as a join reply and as a request to leave, whose
  server index lies where the message has the lower half of the address of the sender's log; unless
  that number happens to be the index of a server, the access to the array of servers is out of bounds.
\<close>

theorem connection_message_faults:
  assumes "get_u32 (recv_buffer pkt) H_TYPE \<in> {RC_SYN, RC_SYNACK}"
    and "length (servers (ud_srv st)) \<le> unat (ucast (get_u64 (recv_buffer pkt) S_RADDR) :: u32)"
  shows "event_step env False pkt st = None"
proof -
  have "length (servers (ud_srv st)) \<le> unat (get_u32 (recv_buffer pkt) REP_IDX)" using assms(2) by (simp add: low_half ud_layout)
  note t = tail_faults [OF this, of env]
  consider "get_u32 (recv_buffer pkt) H_TYPE = RC_SYN" | "get_u32 (recv_buffer pkt) H_TYPE = RC_SYNACK" using assms(1) by blast
  then show ?thesis
  proof cases
    case 1
    then have "dropWhile (\<lambda>(l, _). l \<noteq> get_u32 (recv_buffer pkt) H_TYPE) (ud_cases env) =
        [(RC_SYN, on_syn env), (RC_SYNACK, on_synack env), (CFG_REPLY, on_reply env), (DESTROY, on_destroy env)]"
      by (simp add: ud_cases_def RC_SYN_def JOIN_def)
    then show ?thesis using t(3) by (simp add: event_step_def Let_def del: run_cases.simps)
  next
    case 2
    then have "dropWhile (\<lambda>(l, _). l \<noteq> get_u32 (recv_buffer pkt) H_TYPE) (ud_cases env) =
        [(RC_SYNACK, on_synack env), (CFG_REPLY, on_reply env), (DESTROY, on_destroy env)]"
      by (simp add: ud_cases_def RC_SYN_def RC_SYNACK_def JOIN_def)
    then show ?thesis using t(2) by (simp add: event_step_def Let_def del: run_cases.simps)
  qed
qed

theorem connection_message_faults_witness:
  "event_step sample_env False (get_bytes (put_u64 (put_u32 (\<lambda>_. 0) H_TYPE RC_SYN) S_RADDR 0x7F0000001000) 0 RC_SYN_SIZE) (sample_ud 1) = None"
proof -
  let ?m = "put_u64 (put_u32 (\<lambda>_. 0) H_TYPE RC_SYN) S_RADDR 0x7F0000001000"
  have b: "RC_SYN_SIZE \<le> BUFSIZE" by (simp add: ud_layout)
  have "get_u32 (recv_buffer (get_bytes ?m 0 RC_SYN_SIZE)) H_TYPE = RC_SYN"
    using recv_words(2) [OF b, of H_TYPE ?m] by (simp add: ud_layout mem_simps)
  moreover have "get_u64 (recv_buffer (get_bytes ?m 0 RC_SYN_SIZE)) S_RADDR = 0x7F0000001000"
    using recv_words(3) [OF b, of S_RADDR ?m] by (simp add: ud_layout mem_simps)
  ultimately show ?thesis
    by (intro connection_message_faults) (simp_all add: sample_ud_def)
qed

end
