(* ===== verification/Consensus.thy ===== *)
theory Consensus
  imports Rdma_Types Db_Interface Output
begin

text \<open>
  The consensus component of \<open>consensus/consensus.c\<close>. The leader gives every request the next view
  stamp and a slot of its log, fills the slot, stores the request, writes the slot into the log
  of every connected peer and waits until a majority has acknowledged it in the slot. A follower
  watches the next slot of its own log; a complete entry is stored, acknowledged into the slot of
  the leader's log, and the entries the leader has committed meanwhile are executed.

  \<open>leader_handle_submit_req\<close> runs in several threads at once; it is cut into the part under the
  spin lock and the parts after it, each a function of the component and the log, so that
  other steps can come in between. \<open>None\<close> is a fault: an access outside the log region or through
  a null pointer.
\<close>

definition P_TCP_CONNECT :: u8 where "P_TCP_CONNECT = 1"
definition P_SEND :: u8 where "P_SEND = 2"
definition P_CLOSE :: u8 where "P_CLOSE = 3"
definition P_OUTPUT :: u8 where "P_OUTPUT = 4"
definition P_NOP :: u8 where "P_NOP = 5"
definition P_UDP_CONNECT :: u8 where "P_UDP_CONNECT = 6"

definition DUMMY_END :: u8 where "DUMMY_END = 102"

datatype con_role = LEADER | SECONDARY

record 'd consensus_component =
  my_role :: con_role
  cc_node_id :: u32
  cc_group_size :: u32
  cur_view :: "view"
  highest_seen_vs :: view_stamp
  highest_to_commit_vs :: view_stamp
  highest_committed_vs :: view_stamp
  db_ptr :: "'d db option"

definition init_consensus_comp :: "u32 \<Rightarrow> 'd db option \<Rightarrow> u32 \<Rightarrow> view \<Rightarrow> 'd consensus_component" where
  "init_consensus_comp node_id db_p group_size v =
     \<lparr>my_role = (if leader_id v = node_id then LEADER else SECONDARY),
      cc_node_id = node_id, cc_group_size = group_size, cur_view = v,
      highest_seen_vs = \<lparr>view_id = 1, req_id = 0\<rparr>,
      highest_to_commit_vs = \<lparr>view_id = 1, req_id = 0\<rparr>,
      highest_committed_vs = \<lparr>view_id = 1, req_id = 0\<rparr>,
      db_ptr = db_p\<rparr>"

section \<open>The leader\<close>

definition get_next_view_stamp :: "'d consensus_component \<Rightarrow> view_stamp" where
  "get_next_view_stamp cc =
     \<lparr>view_id = view_id (highest_seen_vs cc), req_id = req_id (highest_seen_vs cc) + 1\<rparr>"

definition popcount :: "u64 \<Rightarrow> nat" where
  "popcount w = length (filter (bit w) [0..<64])"

definition reached_quorum :: "u64 \<Rightarrow> u32 \<Rightarrow> bool" where
  "reached_quorum bit_map group_size \<longleftrightarrow> popcount bit_map \<ge> unat group_size div 2 + 1"

text \<open>\<open>1 << i\<close> is an \<open>int\<close> that is widened to 64 bits.\<close>

definition node_bit :: "u32 \<Rightarrow> u64" where
  "node_bit i = scast (push_bit (unat i) (1 :: u32))"

text \<open>The flags of the sends to the connected peers, and their counters.\<close>

fun mark_sends :: "u32 \<Rightarrow> nat \<Rightarrow> dare_ib_ep list \<Rightarrow> dare_ib_ep list \<times> (u32 \<times> bool) option list" where
  "mark_sends idx i [] = ([], [])"
| "mark_sends idx i (ep # eps) =
     (case mark_sends idx (Suc i) eps of (eps', fl) \<Rightarrow>
        if i = unat idx \<or> \<not> rc_connected ep then (ep # eps', None # fl)
        else (ep\<lparr>send_count := send_count ep + 1\<rparr> # eps',
              Some (send_flags (send_count ep), send_polls (send_count ep)) # fl))"

text \<open>What a submitting thread knows after the locked part.\<close>

record slot =
  s_next :: view_stamp
  s_record_no :: u64
  s_clt :: "view_stamp option"
  s_entry :: nat
  s_offset :: u32
  s_flags :: "(u32 \<times> bool) option list"

text \<open>
  The locked part: stamp, slot and send flags. The entry is taken before the offset is wrapped.
  An entry that does not fit into the region at that place is an overflow of the block.
\<close>

definition leader_reserve ::
    "'d consensus_component \<Rightarrow> server_data \<Rightarrow> nat \<Rightarrow> u8 \<Rightarrow> view_stamp option
      \<Rightarrow> ('d consensus_component \<times> server_data \<times> slot) option" where
  "leader_reserve cc sv data_size ty clt_id =
     (let next_vs = get_next_view_stamp cc;
          clt' = (if ty = P_TCP_CONNECT then Some next_vs else clt_id);
          record_no = vstol next_vs;
          cc' = cc\<lparr>highest_seen_vs := (highest_seen_vs cc)\<lparr>req_id := req_id (highest_seen_vs cc) + 1\<rparr>\<rparr>;
          m0 = srv_log sv;
          entry = log_add_new_entry m0
      in if ty = P_TCP_CONNECT \<and> clt_id = None \<or> \<not> in_region entry (ENTRY_SIZE + data_size + 1)
            \<or> length (servers sv) < unat (cc_group_size cc) \<or> unat (cc_group_size cc) > MAX_SERVER_COUNT
         then None
         else
           let m1 = (if log_fit_entry_header m0 (log_end m0) then m0 else set_end m0 0);
               m2 = set_tail m1 (log_end m1);
               m3 = put_u64 m2 (entry + E_DATA_SIZE) (of_nat data_size + 1);
               m4 = set_end m3 (log_end m3 + ucast (log_entry_len m3 entry));
               offset = ucast (of_nat OFF_ENTRIES + log_tail m4);
               (eps, fl) = mark_sends (srv_idx sv) 0 (take (unat (cc_group_size cc)) (servers sv))
           in Some (cc', sv\<lparr>srv_log := m4, servers := eps @ drop (unat (cc_group_size cc)) (servers sv)\<rparr>,
                    \<lparr>s_next = next_vs, s_record_no = record_no, s_clt = clt', s_entry = entry,
                     s_offset = offset, s_flags = fl\<rparr>))"

text \<open>Filling the slot; \<open>data\<close> holds \<open>data_size\<close> bytes when it is given.\<close>

definition leader_fill ::
    "'d consensus_component \<Rightarrow> mem \<Rightarrow> slot \<Rightarrow> u8 list option \<Rightarrow> u8 \<Rightarrow> mem option" where
  "leader_fill cc m s data ty =
     (let e = s_entry s;
          m1 = put_vs m (e + E_CANBE) (highest_committed_vs cc);
          m2 = (case data of None \<Rightarrow> m1 | Some bs \<Rightarrow> put_bytes m1 (e + E_DATA) bs);
          m3 = put_vs m2 (e + E_MSG_VS) (s_next s);
          m4 = put_u32 m3 (e + E_NODE_ID) (cc_node_id cc);
          m5 = put_u8 m4 (e + E_TYPE) ty
      in case (if ty \<noteq> P_NOP then s_clt s else Some \<lparr>view_id = 0, req_id = 0\<rparr>) of
           None \<Rightarrow> None
         | Some c \<Rightarrow> Some (put_vs m5 (e + E_CLT_ID) c))"

text \<open>The bytes of the entry that go into the record store: \<open>REQ_RECORD_SIZE - 1\<close> from \<open>data_size\<close> on.\<close>

definition REQ_RECORD_SIZE :: "mem \<Rightarrow> nat \<Rightarrow> nat" where
  "REQ_RECORD_SIZE m e = 24 + unat (e_data_size m e)"

definition record_bytes :: "mem \<Rightarrow> nat \<Rightarrow> u8 list" where
  "record_bytes m e = get_bytes m (e + E_DATA_SIZE) (REQ_RECORD_SIZE m e - 1)"

definition db_key :: "u64 \<Rightarrow> u8 list" where
  "db_key record_no = word_le 8 record_no"

definition leader_store ::
    "'d bdb \<Rightarrow> 'd consensus_component \<Rightarrow> mem \<Rightarrow> slot \<Rightarrow> int \<times> 'd consensus_component" where
  "leader_store B cc m s =
     (case store_record B (db_ptr cc) (db_key (s_record_no s)) (record_bytes m (s_entry s)) of
        (ret, db_p) \<Rightarrow> (ret, cc\<lparr>db_ptr := db_p\<rparr>))"

definition leader_dummy :: "mem \<Rightarrow> slot \<Rightarrow> mem" where
  "leader_dummy m s = put_u8 m (s_entry s + unat (log_entry_len m (s_entry s)) - 1) DUMMY_END"

text \<open>The send to peer \<open>i\<close>; a peer that is the server itself or is not connected is skipped.\<close>

definition leader_post :: "server_data \<Rightarrow> mem \<Rightarrow> slot \<Rightarrow> nat \<Rightarrow> post_args option" where
  "leader_post sv m s i =
     (let ep = servers sv ! i
      in if i = unat (srv_idx sv) \<or> \<not> rc_connected ep then None
         else Some \<lparr>pa_server = i,
                    pa_buf = get_bytes m (s_entry s) (unat (log_entry_len m (s_entry s))),
                    pa_rm = \<lparr>raddr = raddr (rmt_mr ep) + ucast (s_offset s), rkey = rkey (rmt_mr ep)\<rparr>,
                    pa_flags = (case s_flags s ! i of None \<Rightarrow> 0 | Some (f, p) \<Rightarrow> f),
                    pa_poll = (case s_flags s ! i of None \<Rightarrow> False | Some (f, p) \<Rightarrow> p)\<rparr>)"

definition scan_ack :: "mem \<Rightarrow> slot \<Rightarrow> nat \<Rightarrow> u64 \<Rightarrow> u64" where
  "scan_ack m s i bit_map =
     (if ack_msg_vs m (s_entry s) i = s_next s
      then bit_map OR node_bit (ack_node_id m (s_entry s) i) else bit_map)"

definition scan_acks :: "mem \<Rightarrow> slot \<Rightarrow> u64 \<Rightarrow> u64" where
  "scan_acks m s bit_map = fold (scan_ack m s) [0..<MAX_SERVER_COUNT] bit_map"

text \<open>
  The end of the call: the thread spins while an earlier request is not committed, which is
  modelled by the commit being not enabled.
\<close>

definition may_commit :: "'d consensus_component \<Rightarrow> mem \<Rightarrow> slot \<Rightarrow> bool" where
  "may_commit cc m s \<longleftrightarrow>
     \<not> (req_id (e_msg_vs m (s_entry s)) > req_id (highest_committed_vs cc) + 1)"

definition leader_commit :: "'d consensus_component \<Rightarrow> 'd consensus_component" where
  "leader_commit cc =
     cc\<lparr>highest_committed_vs := (highest_committed_vs cc)\<lparr>req_id := req_id (highest_committed_vs cc) + 1\<rparr>\<rparr>"

text \<open>
  The whole call, run by one thread alone. \<open>views\<close> are the contents of the log the waiting loop
  sees at its successive passes, as the acknowledgements arrive; the result is \<open>None\<close> when the
  call faults or is still waiting after the last of them. The flag tells whether the request was
  committed: when the record cannot be stored, the call returns early and nothing is sent.
\<close>

fun recheck :: "slot \<Rightarrow> u32 \<Rightarrow> mem list \<Rightarrow> u64 \<Rightarrow> mem option" where
  "recheck s group_size [] bit_map = None"
| "recheck s group_size (m # ms) bit_map =
     (let b = scan_acks m s bit_map
      in if reached_quorum b group_size then Some m else recheck s group_size ms b)"

definition leader_handle_submit_req ::
    "'d bdb \<Rightarrow> 'd consensus_component \<Rightarrow> server_data \<Rightarrow> nat \<Rightarrow> u8 list option \<Rightarrow> u8 \<Rightarrow> view_stamp option \<Rightarrow> mem list
      \<Rightarrow> ('d consensus_component \<times> server_data \<times> post_args list \<times> nat \<times> bool) option" where
  "leader_handle_submit_req B cc sv data_size data ty clt_id views = do {
     (cc1, sv1, s) \<leftarrow> leader_reserve cc sv data_size ty clt_id;
     m1 \<leftarrow> leader_fill cc1 (srv_log sv1) s data ty;
     (case leader_store B cc1 m1 s of (ret, cc2) \<Rightarrow>
        if ret \<noteq> 0 then Some (cc2, sv1\<lparr>srv_log := m1\<rparr>, [], s_entry s, False)
        else do {
          let m2 = leader_dummy m1 s;
          let posts = List.map_filter (leader_post sv1 m2 s) [0..<unat (cc_group_size cc)];
          m3 \<leftarrow> recheck s (cc_group_size cc) views (node_bit (cc_node_id cc));
          (if may_commit cc2 m3 s
           then Some (leader_commit cc2, sv1\<lparr>srv_log := m3\<rparr>, posts, s_entry s, True)
           else None)
        })
   }"

section \<open>The follower\<close>

text \<open>The indices handed to the user callback; a range up to the last index would never end.\<close>

definition exec_range :: "u64 \<Rightarrow> u64 \<Rightarrow> u64 list option" where
  "exec_range start end_ix =
     (if end_ix = - 1 then None else Some (map word_of_nat [unat start..<Suc (unat end_ix)]))"

record 'd accept_result =
  ar_cc :: "'d consensus_component"
  ar_srv :: server_data
  ar_out :: out_state
  ar_posts :: "post_args list"
  ar_exec :: "u64 list"

text \<open>The acknowledgement written into the own slot and sent to the leader.\<close>

definition put_ack :: "mem \<Rightarrow> nat \<Rightarrow> u32 \<Rightarrow> view_stamp \<Rightarrow> u64 option \<Rightarrow> mem" where
  "put_ack m e my_id vs hash =
     (let r = ack_off e (unat my_id);
          m1 = put_u32 m (r + ACK_NODE_ID) my_id;
          m2 = put_vs m1 (r + ACK_MSG_VS) vs
      in case hash of None \<Rightarrow> m2 | Some h \<Rightarrow> put_u64 m2 (r + ACK_HASH) h)"

text \<open>The committed entries are executed in order, then the mark moves.\<close>

definition apply_committed :: "'d consensus_component \<Rightarrow> view_stamp \<Rightarrow> ('d consensus_component \<times> u64 list) option" where
  "apply_committed cc canbe =
     (if view_stamp_comp canbe (highest_committed_vs cc) > 0
      then do {
        ixs \<leftarrow> exec_range (vstol (highest_committed_vs cc) + 1) (vstol canbe);
        Some (cc\<lparr>highest_committed_vs := canbe\<rparr>, ixs)
      }
      else Some (cc, []))"

text \<open>The highest request seen and the record of a complete entry at offset \<open>e\<close>.\<close>

definition accept_store :: "'d bdb \<Rightarrow> 'd consensus_component \<Rightarrow> mem \<Rightarrow> nat \<Rightarrow> 'd consensus_component" where
  "accept_store B cc m e =
     (let vs = e_msg_vs m e;
          cc1 = (if view_stamp_comp vs (highest_seen_vs cc) > 0 then cc\<lparr>highest_seen_vs := vs\<rparr> else cc)
      in cc1\<lparr>db_ptr := snd (store_record B (db_ptr cc1) (db_key (vstol vs)) (record_bytes m e))\<rparr>)"

text \<open>The hash of an output entry; \<open>ug\<close> finds the local connection of the client.\<close>

definition accept_hash :: "(view_stamp \<Rightarrow> int) \<Rightarrow> out_state \<Rightarrow> mem \<Rightarrow> nat \<Rightarrow> (out_state \<times> u64 option) option" where
  "accept_hash ug out m e =
     (if e_type m e = P_OUTPUT
      then do {
        (out', h) \<leftarrow> get_output_hash out (ug (e_clt_id m e)) (sint (get_u64 m (e + E_DATA)));
        Some (out', Some h)
      }
      else Some (out, None))"

text \<open>The acknowledgement is sent to the node named by the entry.\<close>

definition accept_post :: "server_data \<Rightarrow> mem \<Rightarrow> nat \<Rightarrow> u32 \<Rightarrow> u32 \<Rightarrow> (server_data \<times> post_args) option" where
  "accept_post sv m e my_id offset =
     (let j = unat (e_node_id m e); ep = servers sv ! j
      in if length (servers sv) \<le> j then None
         else Some (sv\<lparr>srv_log := m, servers := (servers sv)[j := ep\<lparr>send_count := send_count ep + 1\<rparr>]\<rparr>,
           \<lparr>pa_server = j, pa_buf = get_bytes m (ack_off e (unat my_id)) ACCEPT_ACK_SIZE,
            pa_rm = \<lparr>raddr = raddr (rmt_mr ep) + ucast offset, rkey = rkey (rmt_mr ep)\<rparr>,
            pa_flags = send_flags (send_count ep), pa_poll = send_polls (send_count ep)\<rparr>))"

definition accept_entry ::
    "'d bdb \<Rightarrow> (view_stamp \<Rightarrow> int) \<Rightarrow> 'd consensus_component \<Rightarrow> server_data \<Rightarrow> out_state \<Rightarrow> nat
      \<Rightarrow> 'd accept_result option" where
  "accept_entry B ug cc sv out e = do {
     let m = srv_log sv;
     let cc1 = accept_store B cc m e;
     let m1 = set_tail m (log_end m);
     let m2 = set_end m1 (log_end m1 + ucast (log_entry_len m1 e));
     let my_id = cc_node_id cc;
     let offset = ucast (of_nat OFF_ENTRIES + log_tail m2 + of_nat ACCEPT_ACK_SIZE * ucast my_id);
     (out', hash) \<leftarrow> accept_hash ug out m e;
     (sv', post) \<leftarrow> accept_post sv (put_ack m2 e my_id (e_msg_vs m e) hash) e my_id offset;
     (cc2, ixs) \<leftarrow> apply_committed cc1 (e_canbe m e);
     Some \<lparr>ar_cc = cc2, ar_srv = sv', ar_out = out', ar_posts = [post], ar_exec = ixs\<rparr>
   }"

text \<open>
  One turn of the loop of \<open>handle_accept_req\<close>: the entry is complete when its size is set and the
  byte after its data is the end mark.
\<close>

definition entry_complete :: "mem \<Rightarrow> nat \<Rightarrow> bool" where
  "entry_complete m e \<longleftrightarrow> e_data_size m e \<noteq> 0 \<and> m (e + unat (log_entry_len m e) - 1) = DUMMY_END"

definition handle_accept_req ::
    "'d bdb \<Rightarrow> (view_stamp \<Rightarrow> int) \<Rightarrow> 'd consensus_component \<Rightarrow> server_data \<Rightarrow> out_state
      \<Rightarrow> 'd accept_result option" where
  "handle_accept_req B ug cc sv out =
     (if leader_id (cur_view cc) \<noteq> cc_node_id cc then
        (case log_get_entry (srv_log sv) (log_end (srv_log sv)) of (off, e) \<Rightarrow>
           let m = set_end (srv_log sv) off;
               sv1 = sv\<lparr>srv_log := m\<rparr>
           in if \<not> in_region e ENTRY_SIZE
                 \<or> e_data_size m e \<noteq> 0 \<and> \<not> in_region e (unat (log_entry_len m e)) then None
              else if entry_complete m e then accept_entry B ug cc sv1 out e
              else Some \<lparr>ar_cc = cc, ar_srv = sv1, ar_out = out, ar_posts = [], ar_exec = []\<rparr>)
      else Some \<lparr>ar_cc = cc, ar_srv = sv, ar_out = out, ar_posts = [], ar_exec = []\<rparr>)"

end
