(* ===== verification/Cluster.thy ===== *)
theory Cluster
  imports Consensus
begin

text \<open>
  A group of servers with a fixed leader. The steps are the parts of \<open>consensus.c\<close> run by the
  threads of the servers, in any interleaving, and the arrival of remote writes. A write is taken
  from the sender's memory when it is posted; the bytes of an entry arrive in increasing order
  but in pieces of any size, and writes overtake each other, while an acknowledgement becomes
  visible at once. The group is considered as long as the log has not wrapped around: a slot is
  reserved only if another entry header fits behind it.
\<close>

section \<open>State\<close>

datatype tpc = TReserved | TFilled | TPosting nat | TWaiting | TCommitted | TFailed

record thread =
  t_slot :: slot
  t_size :: nat
  t_data :: "u8 list option"
  t_type :: u8
  t_pc :: tpc
  t_bits :: u64

datatype msg_kind = MEntry nat | MAck

record msg =
  m_kind :: msg_kind
  m_dst :: nat
  m_off :: nat
  m_bytes :: "u8 list"

record 'd cnode =
  nd_cc :: "'d consensus_component"
  nd_srv :: server_data
  nd_out :: out_state
  nd_exec :: "u64 list"

record 'd cluster =
  nodes :: "nat \<Rightarrow> 'd cnode"
  threads :: "thread list"
  net :: "msg list"

abbreviation node_log :: "'d cluster \<Rightarrow> nat \<Rightarrow> mem" where
  "node_log c j \<equiv> srv_log (nd_srv (nodes c j))"

abbreviation node_cc :: "'d cluster \<Rightarrow> nat \<Rightarrow> 'd consensus_component" where
  "node_cc c j \<equiv> nd_cc (nodes c j)"

definition upd_node :: "'d cluster \<Rightarrow> nat \<Rightarrow> 'd cnode \<Rightarrow> 'd cluster" where
  "upd_node c j nd = c\<lparr>nodes := (nodes c)(j := nd)\<rparr>"

definition set_node_log :: "'d cnode \<Rightarrow> mem \<Rightarrow> 'd cnode" where
  "set_node_log nd m = nd\<lparr>nd_srv := (nd_srv nd)\<lparr>srv_log := m\<rparr>\<rparr>"

definition upd_thread :: "'d cluster \<Rightarrow> nat \<Rightarrow> thread \<Rightarrow> 'd cluster" where
  "upd_thread c k t = c\<lparr>threads := (threads c)[k := t]\<rparr>"

text \<open>
  The remote write of a posted request: \<open>base j\<close> is the address at which server \<open>j\<close> has
  registered its log.
\<close>

definition msg_of :: "(nat \<Rightarrow> u64) \<Rightarrow> msg_kind \<Rightarrow> post_args \<Rightarrow> msg" where
  "msg_of base kind pa = \<lparr>m_kind = kind, m_dst = pa_server pa,
     m_off = unat (raddr (pa_rm pa) - base (pa_server pa)), m_bytes = pa_buf pa\<rparr>"

text \<open>There is room for another entry header behind the last slot.\<close>

definition log_room :: "server_data \<Rightarrow> bool" where
  "log_room sv \<longleftrightarrow> unat (log_end (srv_log sv)) + ENTRY_SIZE \<le> unat LOG_SIZE"

section \<open>Steps\<close>

inductive cstep ::
    "'d bdb \<Rightarrow> (nat \<Rightarrow> view_stamp \<Rightarrow> int) \<Rightarrow> (nat \<Rightarrow> u64) \<Rightarrow> nat \<Rightarrow> nat \<Rightarrow> 'd cluster \<Rightarrow> 'd cluster \<Rightarrow> bool"
  for B :: "'d bdb" and ug :: "nat \<Rightarrow> view_stamp \<Rightarrow> int" and base :: "nat \<Rightarrow> u64" and n :: nat and ld :: nat
where
  reserve:
    "leader_reserve (node_cc c ld) (nd_srv (nodes c ld)) ds ty clt = Some (cc', sv', s) \<Longrightarrow>
     log_room sv' \<Longrightarrow> (\<forall>bs. data = Some bs \<longrightarrow> length bs = ds) \<Longrightarrow>
     cstep B ug base n ld c
       ((upd_node c ld ((nodes c ld)\<lparr>nd_cc := cc', nd_srv := sv'\<rparr>))\<lparr>threads := threads c @
          [\<lparr>t_slot = s, t_size = ds, t_data = data, t_type = ty, t_pc = TReserved, t_bits = 0\<rparr>]\<rparr>)"
| fill:
    "k < length (threads c) \<Longrightarrow> t = threads c ! k \<Longrightarrow> t_pc t = TReserved \<Longrightarrow>
     leader_fill (node_cc c ld) (node_log c ld) (t_slot t) (t_data t) (t_type t) = Some m' \<Longrightarrow>
     cstep B ug base n ld c
       (upd_thread (upd_node c ld (set_node_log (nodes c ld) m')) k (t\<lparr>t_pc := TFilled\<rparr>))"
| store:
    "k < length (threads c) \<Longrightarrow> t = threads c ! k \<Longrightarrow> t_pc t = TFilled \<Longrightarrow>
     leader_store B (node_cc c ld) (node_log c ld) (t_slot t) = (ret, cc') \<Longrightarrow>
     cstep B ug base n ld c
       (if ret \<noteq> 0
        then upd_thread (upd_node c ld ((nodes c ld)\<lparr>nd_cc := cc'\<rparr>)) k (t\<lparr>t_pc := TFailed\<rparr>)
        else upd_thread (upd_node c ld
               ((set_node_log (nodes c ld) (leader_dummy (node_log c ld) (t_slot t)))\<lparr>nd_cc := cc'\<rparr>)) k
               (t\<lparr>t_pc := TPosting 0\<rparr>))"
| post:
    "k < length (threads c) \<Longrightarrow> t = threads c ! k \<Longrightarrow> t_pc t = TPosting i \<Longrightarrow> i < n \<Longrightarrow>
     leader_post (nd_srv (nodes c ld)) (node_log c ld) (t_slot t) i = pa \<Longrightarrow>
     cstep B ug base n ld c
       ((upd_thread c k (t\<lparr>t_pc := TPosting (Suc i)\<rparr>))\<lparr>net := net c @
          (case pa of None \<Rightarrow> [] | Some p \<Rightarrow> [msg_of base (MEntry k) p])\<rparr>)"
| posted:
    "k < length (threads c) \<Longrightarrow> t = threads c ! k \<Longrightarrow> t_pc t = TPosting n \<Longrightarrow>
     cstep B ug base n ld c
       (upd_thread c k (t\<lparr>t_pc := TWaiting, t_bits := node_bit (cc_node_id (node_cc c ld))\<rparr>))"
| scan:
    "k < length (threads c) \<Longrightarrow> t = threads c ! k \<Longrightarrow> t_pc t = TWaiting \<Longrightarrow> i < MAX_SERVER_COUNT \<Longrightarrow>
     cstep B ug base n ld c
       (upd_thread c k (t\<lparr>t_bits := scan_ack (node_log c ld) (t_slot t) i (t_bits t)\<rparr>))"
| commit:
    "k < length (threads c) \<Longrightarrow> t = threads c ! k \<Longrightarrow> t_pc t = TWaiting \<Longrightarrow>
     reached_quorum (t_bits t) (cc_group_size (node_cc c ld)) \<Longrightarrow>
     may_commit (node_cc c ld) (node_log c ld) (t_slot t) \<Longrightarrow>
     cstep B ug base n ld c
       (upd_thread (upd_node c ld ((nodes c ld)\<lparr>nd_cc := leader_commit (node_cc c ld)\<rparr>)) k
         (t\<lparr>t_pc := TCommitted\<rparr>))"
| deliver:
    "i < length (net c) \<Longrightarrow> x = net c ! i \<Longrightarrow> cnt \<le> length (m_bytes x) \<Longrightarrow>
     m_kind x = MAck \<longrightarrow> cnt = length (m_bytes x) \<Longrightarrow>
     cstep B ug base n ld c
       ((upd_node c (m_dst x) (set_node_log (nodes c (m_dst x))
          (put_bytes (node_log c (m_dst x)) (m_off x) (take cnt (m_bytes x)))))\<lparr>net := (net c)[i :=
            x\<lparr>m_off := m_off x + cnt, m_bytes := drop cnt (m_bytes x)\<rparr>]\<rparr>)"
| accept:
    "j < n \<Longrightarrow> j \<noteq> ld \<Longrightarrow>
     handle_accept_req B (ug j) (node_cc c j) (nd_srv (nodes c j)) (nd_out (nodes c j)) = Some r \<Longrightarrow>
     cstep B ug base n ld c
       ((upd_node c j \<lparr>nd_cc = ar_cc r, nd_srv = ar_srv r, nd_out = ar_out r,
           nd_exec = nd_exec (nodes c j) @ ar_exec r\<rparr>)\<lparr>net := net c @ map (msg_of base MAck) (ar_posts r)\<rparr>)"

text \<open>The start: empty logs and databases, view 1 with the given leader, connections in place.\<close>

definition init_node :: "'d db option \<Rightarrow> dare_ib_ep list \<Rightarrow> out_state \<Rightarrow> nat \<Rightarrow> nat \<Rightarrow> nat \<Rightarrow> 'd cnode" where
  "init_node d eps out n ld j =
     \<lparr>nd_cc = init_consensus_comp (of_nat j) d (of_nat n)
         \<lparr>cv_view_id = 1, leader_id = of_nat ld, cv_req_id = 0\<rparr>,
      nd_srv = \<lparr>srv_log = the (log_new True), srv_idx = of_nat j, srv_cid_size = of_nat n, servers = eps\<rparr>,
      nd_out = out, nd_exec = []\<rparr>"

definition cinit :: "(nat \<Rightarrow> u64) \<Rightarrow> nat \<Rightarrow> nat \<Rightarrow> 'd cluster \<Rightarrow> bool" where
  "cinit base n ld c \<longleftrightarrow> ld < n \<and> n \<le> MAX_SERVER_COUNT \<and> threads c = [] \<and> net c = [] \<and>
     (\<forall>j < n. \<exists>d eps out. nodes c j = init_node d eps out n ld j \<and> length eps = n \<and>
        (\<forall>i < n. raddr (rmt_mr (eps ! i)) = base i))"

end
