(* ===== verification/Cluster_Inv.thy ===== *)
theory Cluster_Inv
  imports Cluster
begin

text \<open>
  The invariant of the group of servers and its consequences: nobody acts on an entry that has
  arrived only in part, every follower works through the requests in the leader's order, a
  committed request is held by a majority, and followers execute committed requests only, in
  order and without gaps.
\<close>

section \<open>Writes and ranges\<close>

definition unch :: "nat set \<Rightarrow> mem \<Rightarrow> mem \<Rightarrow> bool" where
  "unch S m m' \<longleftrightarrow> (\<forall>x. x \<notin> S \<longrightarrow> m' x = m x)"

lemma unch_refl [simp, intro]: "unch S m m"
  by (simp add: unch_def)

lemma unch_trans: "unch S m m1 \<Longrightarrow> unch S m1 m2 \<Longrightarrow> unch S m m2"
  by (simp add: unch_def)

lemma unch_mono: "unch S m m' \<Longrightarrow> S \<subseteq> S' \<Longrightarrow> unch S' m m'"
  by (auto simp: unch_def)

lemma unchD: "unch S m m' \<Longrightarrow> x \<notin> S \<Longrightarrow> m' x = m x"
  by (simp add: unch_def)

lemma unch_put_bytes: "{a..<a + length bs} \<subseteq> S \<Longrightarrow> unch S m (put_bytes m a bs)"
  by (auto simp: unch_def put_bytes_def)

lemma unch_put_words:
  "{a..<a + 1} \<subseteq> S \<Longrightarrow> unch S m (put_u8 m a w8)"
  "{a..<a + 4} \<subseteq> S \<Longrightarrow> unch S m (put_u32 m a w32)"
  "{a..<a + 8} \<subseteq> S \<Longrightarrow> unch S m (put_u64 m a w64)"
  "{a..<a + 8} \<subseteq> S \<Longrightarrow> unch S m (put_vs m a vs)"
  unfolding put_defs put_vs_def
  by (rule unch_put_bytes, simp)+ (rule unch_trans; rule unch_put_bytes; force)

lemma unch_set:
  "unch {0..<OFF_ENTRIES} m (set_end m v)" "unch {0..<OFF_ENTRIES} m (set_tail m v)"
  by (simp_all add: set_end_def set_tail_def unch_put_words layout_simps)

lemma unch_same_on: "unch S m m' \<Longrightarrow> {a..<a + n} \<inter> S = {} \<Longrightarrow> same_on a n m m'"
  by (auto simp: unch_def same_on_def disjoint_iff)

section \<open>Partial values\<close>

lemma word_le_bits:
  fixes a b :: "'a::len word"
  assumes "\<And>i. bit a i \<Longrightarrow> bit b i"
  shows "a \<le> b"
proof -
  have "a = a AND b" by (rule bit_word_eqI) (use assms in \<open>auto simp: bit_and_iff\<close>)
  then show ?thesis by (metis word_and_le1)
qed

text \<open>A number of which only the low bytes have arrived is at most the number sent.\<close>

lemma get_u64_partial:
  assumes "\<And>x. a \<le> x \<Longrightarrow> x < a + 8 \<Longrightarrow> F x = L x \<or> F x = 0"
  shows "get_u64 F a \<le> get_u64 L a"
proof (rule word_le_bits)
  fix i assume "bit (get_u64 F a) i"
  then have i: "i < 64" "bit (F (a + i div 8)) (i mod 8)"
    by (auto simp: get_u64_def bit_le_word)
  then have "F (a + i div 8) = L (a + i div 8) \<or> F (a + i div 8) = 0"
    by (intro assms) auto
  with i show "bit (get_u64 L a) i" by (auto simp: get_u64_def bit_le_word)
qed

lemma get_u64_zero: "(\<And>x. a \<le> x \<Longrightarrow> x < a + 8 \<Longrightarrow> F x = 0) \<Longrightarrow> get_u64 F a = 0"
  by (rule bit_word_eqI) (auto simp: get_u64_def bit_le_word)

section \<open>Slots\<close>

definition width :: "thread \<Rightarrow> nat" where
  "width t = ENTRY_SIZE + t_size t + 1"

definition start :: "thread list \<Rightarrow> nat \<Rightarrow> nat" where
  "start T k = OFF_ENTRIES + sum_list (map width (take k T))"

definition stamp :: "nat \<Rightarrow> view_stamp" where
  "stamp k = \<lparr>view_id = 1, req_id = of_nat k\<rparr>"

lemma start_0 [simp]: "start T 0 = OFF_ENTRIES"
  by (simp add: start_def)

lemma start_Suc: "k < length T \<Longrightarrow> start T (Suc k) = start T k + width (T ! k)"
  by (simp add: start_def take_Suc_conv_app_nth)

lemma start_append: "k \<le> length T \<Longrightarrow> start (T @ U) k = start T k"
  by (simp add: start_def)

lemma start_upd: "width t = width (T ! k) \<Longrightarrow> start (T[k := t]) i = start T i"
proof -
  assume "width t = width (T ! k)"
  then have "map width (T[k := t]) = map width T"
    by (cases "k < length T") (simp_all add: map_update list_update_same_conv list_update_beyond)
  then show ?thesis by (simp add: start_def take_map [symmetric])
qed

lemma start_mono: "k \<le> k' \<Longrightarrow> start T k \<le> start T k'"
proof -
  assume "k \<le> k'"
  then have "take k' T = take k T @ take (k' - k) (drop k T)"
    by (metis le_add_diff_inverse take_add)
  then show ?thesis by (simp add: start_def)
qed

lemma start_next: "k < k' \<Longrightarrow> k' \<le> length T \<Longrightarrow> start T k + width (T ! k) \<le> start T k'"
  using start_mono [of "Suc k" k' T] start_Suc [of k T] by simp

lemma start_ge: "OFF_ENTRIES \<le> start T k"
  by (simp add: start_def)

lemma width_ge: "ENTRY_SIZE < width t" "0 < width t"
  by (simp_all add: width_def)

lemma start_count: "k \<le> length T \<Longrightarrow> OFF_ENTRIES + k \<le> start T k"
proof (induction k)
  case (Suc k)
  then show ?case using start_Suc [of k T] width_ge(2) [of "T ! k"] by simp
qed simp

text \<open>Two different slots do not overlap.\<close>

lemma slots_disjoint:
  assumes "k < length T" "k' < length T" "k \<noteq> k'" "x < width (T ! k)" "y < width (T ! k')"
  shows "start T k + x \<noteq> start T k' + y"
  using assms start_next [of k k' T] start_next [of k' k T] by (cases "k < k'") auto

lemma slot_before_end: "k < length T \<Longrightarrow> x < width (T ! k) \<Longrightarrow> start T k + x < start T (length T)"
  using start_next [of k "length T" T] by simp

lemma stamp_simps [simp]: "view_id (stamp k) = 1" "req_id (stamp k) = of_nat k"
  by (simp_all add: stamp_def)

lemma stamp_eq_iff: "k < 2 ^ 32 \<Longrightarrow> k' < 2 ^ 32 \<Longrightarrow> stamp k = stamp k' \<longleftrightarrow> k = k'"
  by (simp add: stamp_def word_of_nat_eq_iff take_bit_nat_eq_self)

lemma unat_req_stamp: "k < 2 ^ 32 \<Longrightarrow> unat (of_nat k :: u32) = k"
  by (simp add: unsigned_of_nat take_bit_nat_eq_self)

lemma unat_vstol_stamp: "k < 2 ^ 32 \<Longrightarrow> unat (vstol (stamp k)) = 2 ^ 32 + k"
  by (simp add: unat_vstol unat_req_stamp)

lemma stamp_comp_pos: "k < 2 ^ 32 \<Longrightarrow> k' < 2 ^ 32 \<Longrightarrow> 0 < view_stamp_comp (stamp k) (stamp k') \<longleftrightarrow> k' < k"
  by (simp add: view_stamp_comp_pos_iff view_stamp_less_iff word_less_nat_alt unat_req_stamp)


section \<open>The invariant\<close>

fun filled :: "tpc \<Rightarrow> bool" where
  "filled TReserved = False"
| "filled _ = True"

fun posted :: "tpc \<Rightarrow> bool" where
  "posted (TPosting _) = True"
| "posted TWaiting = True"
| "posted TCommitted = True"
| "posted _ = False"

fun past :: "tpc \<Rightarrow> nat \<Rightarrow> bool" where
  "past (TPosting i) j = (j < i)"
| "past TWaiting j = True"
| "past TCommitted j = True"
| "past _ j = False"

lemma past_posted: "past pc j \<Longrightarrow> posted pc"
  by (cases pc) auto

lemma posted_filled: "posted pc \<Longrightarrow> filled pc"
  by (cases pc) auto

text \<open>Where the slots are, and what the leader's header says.\<close>

definition slot_ok :: "thread list \<Rightarrow> nat \<Rightarrow> thread \<Rightarrow> bool" where
  "slot_ok T k t \<longleftrightarrow> s_next (t_slot t) = stamp (Suc k) \<and> s_record_no (t_slot t) = vstol (stamp (Suc k)) \<and>
     s_entry (t_slot t) = start T k \<and> s_offset (t_slot t) = of_nat (start T k) \<and>
     (\<forall>bs. t_data t = Some bs \<longrightarrow> length bs = t_size t)"

definition geom :: "thread list \<Rightarrow> mem \<Rightarrow> 'd consensus_component \<Rightarrow> bool" where
  "geom T L cc \<longleftrightarrow> (\<forall>k < length T. slot_ok T k (T ! k)) \<and> start T (length T) + ENTRY_SIZE \<le> REGION_SIZE \<and>
     log_len L = LOG_SIZE \<and>
     log_end L = (if T = [] then LOG_SIZE else of_nat (start T (length T) - OFF_ENTRIES)) \<and>
     highest_seen_vs cc = stamp (length T)"

text \<open>The bytes beyond the last slot are untouched.\<close>

definition fresh :: "thread list \<Rightarrow> mem \<Rightarrow> bool" where
  "fresh T m \<longleftrightarrow> (\<forall>x. start T (length T) \<le> x \<longrightarrow> m x = 0)"

text \<open>What the leader has written into a slot; \<open>cm\<close> is the number of committed requests.\<close>

definition entry_has :: "mem \<Rightarrow> nat \<Rightarrow> thread \<Rightarrow> bool" where
  "entry_has L e t \<longleftrightarrow> e_type L e = t_type t \<and>
     (\<forall>bs. t_data t = Some bs \<longrightarrow> length bs = t_size t \<longrightarrow> get_bytes L (e + E_DATA) (t_size t) = bs)"

definition entry_ok :: "nat \<Rightarrow> nat \<Rightarrow> thread list \<Rightarrow> mem \<Rightarrow> nat \<Rightarrow> bool" where
  "entry_ok ld cm T L k \<longleftrightarrow>
     e_data_size L (start T k) = of_nat (t_size (T ! k)) + 1 \<and>
     (filled (t_pc (T ! k)) \<longrightarrow> e_msg_vs L (start T k) = stamp (Suc k) \<and>
        e_node_id L (start T k) = of_nat ld \<and> entry_has L (start T k) (T ! k) \<and> (\<exists>v. v \<le> cm \<and> v \<le> k \<and> e_canbe L (start T k) = stamp v)) \<and>
     (posted (t_pc (T ! k)) \<longrightarrow> L (start T k + width (T ! k) - 1) = DUMMY_END)"

definition leader_ok :: "nat \<Rightarrow> nat \<Rightarrow> thread list \<Rightarrow> mem \<Rightarrow> bool" where
  "leader_ok ld cm T L \<longleftrightarrow> (\<forall>k < length T. entry_ok ld cm T L k)"

text \<open>An acknowledgement in the leader's log means that its sender has processed the request.\<close>

definition acks_ok :: "nat \<Rightarrow> nat \<Rightarrow> thread list \<Rightarrow> mem \<Rightarrow> (nat \<Rightarrow> nat) \<Rightarrow> bool" where
  "acks_ok n ld T L P \<longleftrightarrow> (\<forall>k < length T. \<forall>i < MAX_SERVER_COUNT.
     ack_msg_vs L (start T k) i = stamp (Suc k) \<longrightarrow>
     ack_node_id L (start T k) i = of_nat i \<and> i < n \<and> i \<noteq> ld \<and> k < P i)"

text \<open>
  The writes of an entry to follower \<open>j\<close>: the bytes before the cursor \<open>c\<close> have arrived, those from
  the cursor on are still zero.
\<close>

definition is_entry :: "msg \<Rightarrow> nat \<Rightarrow> nat \<Rightarrow> bool" where
  "is_entry x j k \<longleftrightarrow> m_kind x = MEntry k \<and> m_dst x = j"

definition arrived :: "thread list \<Rightarrow> mem \<Rightarrow> mem \<Rightarrow> nat \<Rightarrow> nat \<Rightarrow> bool" where
  "arrived T L F k c \<longleftrightarrow>
     (\<forall>x. start T k + E_MSG_VS \<le> x \<and> x < start T k + c \<longrightarrow> F x = L x) \<and>
     (\<forall>x. start T k + E_MSG_VS \<le> x \<and> start T k + c \<le> x \<and> x < start T k + width (T ! k) \<longrightarrow> F x = 0)"

lemma arrivedD:
  assumes "arrived T L F k c" and "start T k + E_MSG_VS \<le> x"
  shows "x < start T k + c \<Longrightarrow> F x = L x"
    and "start T k + c \<le> x \<Longrightarrow> x < start T k + width (T ! k) \<Longrightarrow> F x = 0"
  using assms by (auto simp: arrived_def)

definition flight :: "thread list \<Rightarrow> mem \<Rightarrow> mem \<Rightarrow> nat \<Rightarrow> msg \<Rightarrow> nat \<Rightarrow> bool" where
  "flight T L F j x k \<longleftrightarrow> k < length T \<and> past (t_pc (T ! k)) j \<and>
     (\<exists>c. m_off x = start T k + c \<and> c + length (m_bytes x) = width (T ! k) \<and>
        (\<forall>y < length (m_bytes x). E_MSG_VS \<le> c + y \<longrightarrow> m_bytes x ! y = L (start T k + c + y)) \<and>
        arrived T L F k c)"

definition flight_ok :: "thread list \<Rightarrow> mem \<Rightarrow> mem \<Rightarrow> nat \<Rightarrow> msg list \<Rightarrow> bool" where
  "flight_ok T L F j ms \<longleftrightarrow>
     (\<forall>i < length ms. \<forall>k. is_entry (ms ! i) j k \<longrightarrow> flight T L F j (ms ! i) k) \<and>
     (\<forall>i < length ms. \<forall>i' < length ms. \<forall>k. is_entry (ms ! i) j k \<longrightarrow> is_entry (ms ! i') j k \<longrightarrow> i = i') \<and>
     (\<forall>k < length T. (\<forall>i < length ms. \<not> is_entry (ms ! i) j k) \<longrightarrow> arrived T L F k 0)"

definition dst_ok :: "nat \<Rightarrow> nat \<Rightarrow> msg list \<Rightarrow> bool" where
  "dst_ok n ld ms \<longleftrightarrow> (\<forall>x \<in> set ms. \<forall>k. m_kind x = MEntry k \<longrightarrow> m_dst x < n \<and> m_dst x \<noteq> ld)"

text \<open>The acknowledgements on their way to the leader.\<close>

definition is_ack :: "u8 list \<Rightarrow> nat \<Rightarrow> nat \<Rightarrow> bool" where
  "is_ack bs j k \<longleftrightarrow> length bs = ACCEPT_ACK_SIZE \<and>
     (\<forall>m a. get_vs (put_bytes m a bs) (a + ACK_MSG_VS) = stamp (Suc k) \<and>
            get_u32 (put_bytes m a bs) (a + ACK_NODE_ID) = of_nat j)"

definition ackmsg :: "nat \<Rightarrow> nat \<Rightarrow> thread list \<Rightarrow> (nat \<Rightarrow> nat) \<Rightarrow> msg \<Rightarrow> bool" where
  "ackmsg n ld T P x \<longleftrightarrow> m_bytes x = [] \<or>
     (\<exists>j k. k < length T \<and> j < n \<and> j \<noteq> ld \<and> k < P j \<and> m_dst x = ld \<and>
        m_off x = start T k + ACCEPT_ACK_SIZE * j \<and> is_ack (m_bytes x) j k)"

definition ackmsg_ok :: "nat \<Rightarrow> nat \<Rightarrow> thread list \<Rightarrow> (nat \<Rightarrow> nat) \<Rightarrow> msg list \<Rightarrow> bool" where
  "ackmsg_ok n ld T P ms \<longleftrightarrow> (\<forall>x \<in> set ms. m_kind x = MAck \<longrightarrow> ackmsg n ld T P x)"

text \<open>A follower that has processed the first \<open>p\<close> requests and executed the first \<open>cj\<close>.\<close>

definition foll_ok :: "thread list \<Rightarrow> 'd consensus_component \<Rightarrow> mem \<Rightarrow> msg list \<Rightarrow> nat \<Rightarrow> nat \<Rightarrow> nat \<Rightarrow> u64 list \<Rightarrow> bool" where
  "foll_ok T cc F ms cm j p ex \<longleftrightarrow> p \<le> length T \<and> highest_seen_vs cc = stamp p \<and> log_len F = LOG_SIZE \<and>
     (log_end F = of_nat (start T p - OFF_ENTRIES) \<or> p = 0 \<and> log_end F = LOG_SIZE) \<and>
     (\<forall>k < p. \<exists>x \<in> set ms. is_entry x j k \<and> m_bytes x = []) \<and>
     (\<exists>cj. cj \<le> cm \<and> cj \<le> p \<and> highest_committed_vs cc = stamp cj \<and>
        ex = map (\<lambda>i. vstol (stamp i)) [1..<Suc cj])"

text \<open>The leader's commits: in order, each with a majority of acknowledgements.\<close>

definition commit_ok :: "nat \<Rightarrow> nat \<Rightarrow> thread list \<Rightarrow> nat \<Rightarrow> (nat \<Rightarrow> nat) \<Rightarrow> bool" where
  "commit_ok n ld T cm P \<longleftrightarrow> cm \<le> length T \<and> (\<forall>k < length T.
     (t_pc (T ! k) = TCommitted \<longleftrightarrow> k < cm) \<and>
     (t_pc (T ! k) \<in> {TWaiting, TCommitted} \<longrightarrow> (\<forall>b. bit (t_bits (T ! k)) b \<longrightarrow> b < n \<and> (b = ld \<or> k < P b))) \<and>
     (t_pc (T ! k) = TCommitted \<longrightarrow> n div 2 + 1 \<le> popcount (t_bits (T ! k))))"

text \<open>What never changes: identities, the view and the addresses of the peers.\<close>

definition static_ok :: "(nat \<Rightarrow> u64) \<Rightarrow> nat \<Rightarrow> nat \<Rightarrow> nat \<Rightarrow> 'd cnode \<Rightarrow> bool" where
  "static_ok base n ld j nd \<longleftrightarrow> cc_node_id (nd_cc nd) = of_nat j \<and> cc_group_size (nd_cc nd) = of_nat n \<and>
     leader_id (cur_view (nd_cc nd)) = of_nat ld \<and> srv_idx (nd_srv nd) = of_nat j \<and>
     length (servers (nd_srv nd)) = n \<and> (\<forall>i < n. raddr (rmt_mr (servers (nd_srv nd) ! i)) = base i)"

definition proc :: "'d cluster \<Rightarrow> nat \<Rightarrow> nat" where
  "proc c j = unat (req_id (highest_seen_vs (node_cc c j)))"

definition committed :: "'d cluster \<Rightarrow> nat \<Rightarrow> nat" where
  "committed c ld = unat (req_id (highest_committed_vs (node_cc c ld)))"

definition cinv :: "(nat \<Rightarrow> u64) \<Rightarrow> nat \<Rightarrow> nat \<Rightarrow> 'd cluster \<Rightarrow> bool" where
  "cinv base n ld c \<longleftrightarrow> ld < n \<and> n \<le> MAX_SERVER_COUNT \<and>
     (\<forall>j < n. static_ok base n ld j (nodes c j)) \<and>
     geom (threads c) (node_log c ld) (node_cc c ld) \<and>
     (\<forall>j < n. fresh (threads c) (node_log c j)) \<and>
     leader_ok ld (committed c ld) (threads c) (node_log c ld) \<and>
     acks_ok n ld (threads c) (node_log c ld) (proc c) \<and>
     (\<forall>j < n. j \<noteq> ld \<longrightarrow> flight_ok (threads c) (node_log c ld) (node_log c j) j (net c)) \<and>
     dst_ok n ld (net c) \<and>
     ackmsg_ok n ld (threads c) (proc c) (net c) \<and>
     (\<forall>j < n. j \<noteq> ld \<longrightarrow> foll_ok (threads c) (node_cc c j) (node_log c j) (net c) (committed c ld) j
        (proc c j) (nd_exec (nodes c j))) \<and>
     commit_ok n ld (threads c) (committed c ld) (proc c) \<and>
     highest_committed_vs (node_cc c ld) = stamp (committed c ld)"

section \<open>Complete entries\<close>

lemma geom_bound:
  assumes "geom T L cc"
  shows "start T (length T) + ENTRY_SIZE \<le> REGION_SIZE" "length T < 2 ^ 28"
  using assms start_count [of "length T" T] by (auto simp: geom_def layout_simps)

lemma width_bound: "geom T L cc \<Longrightarrow> k < length T \<Longrightarrow> start T k + width (T ! k) + ENTRY_SIZE \<le> REGION_SIZE"
  using start_next [of k "length T" T] by (auto simp: geom_def)

lemma arrived_same_on:
  "arrived T L F k (width (T ! k)) \<Longrightarrow> same_on (start T k + E_MSG_VS) (width (T ! k) - E_MSG_VS) L F"
  using width_ge(1) [of "T ! k"] by (auto simp: same_on_def arrived_def layout_simps)

lemma body_same: "same_on (e + E_MSG_VS) (w - E_MSG_VS) L F \<Longrightarrow> ENTRY_SIZE \<le> w \<Longrightarrow>
    same_on (e + E_MSG_VS) (ENTRY_SIZE - E_MSG_VS) L F"
  by (erule same_on_sub) (auto simp: layout_simps)

text \<open>The length of an entry, read off the leader's log.\<close>

lemma entry_len:
  assumes "geom T L cc" and "k < length T" and "e_data_size m (start T k) = of_nat (t_size (T ! k)) + 1"
  shows "unat (e_data_size m (start T k)) = Suc (t_size (T ! k))"
    and "unat (log_entry_len m (start T k)) = width (T ! k)"
proof -
  have b: "t_size (T ! k) + 1 < 2 ^ 28"
    using width_bound [OF assms(1,2)] start_ge [of T k] by (simp add: width_def layout_simps)
  then show d: "unat (e_data_size m (start T k)) = Suc (t_size (T ! k))"
    unfolding assms(3) by (simp add: unat_word_ariths unsigned_of_nat take_bit_nat_eq_self)
  show "unat (log_entry_len m (start T k)) = width (T ! k)"
    using b by (subst unat_log_entry_len) (simp_all add: d width_def layout_simps)
qed

text \<open>
  The reader's test never succeeds on an entry of which a byte is missing: before the size has
  arrived in full, the place where the end mark would be is still zero.
\<close>

lemma complete_arrived:
  assumes g: "geom T L cc" and k: "k < length T" and l: "entry_ok ld cm T L k"
    and a: "arrived T L F k c" and c: "c \<le> width (T ! k)" and cmp: "entry_complete F (start T k)"
  shows "c = width (T ! k)"
proof (rule ccontr)
  assume "c \<noteq> width (T ! k)"
  with c have cw: "c < width (T ! k)" by simp
  let ?e = "start T k"
  have zero: "F x = 0" if "?e + c \<le> x" "?e + E_MSG_VS \<le> x" "x < ?e + width (T ! k)" for x
    by (rule arrivedD(2) [OF a that(2,1,3)])
  have part: "F x = L x \<or> F x = 0" if "?e + E_DATA_SIZE \<le> x" "x < ?e + E_DATA_SIZE + 8" for x
    using arrivedD [OF a, of x] that width_ge(1) [of "T ! k"]
    by (cases "x < ?e + c") (auto simp: layout_simps)
  have ds: "e_data_size L ?e = of_nat (t_size (T ! k)) + 1" using l by (simp add: entry_ok_def)
  have "e_data_size F ?e \<le> e_data_size L ?e"
    unfolding e_data_size_def by (rule get_u64_partial) (use part in auto)
  then have le: "unat (e_data_size F ?e) \<le> Suc (t_size (T ! k))"
    using entry_len(1) [OF g k ds] by (simp add: word_le_nat_alt)
  have sz: "t_size (T ! k) + 1 < 2 ^ 28"
    using width_bound [OF g k] start_ge [of T k] by (simp add: width_def layout_simps)
  then have len: "unat (log_entry_len F ?e) = ENTRY_SIZE + unat (e_data_size F ?e)"
    using le by (intro unat_log_entry_len) (simp add: layout_simps)
  have pos: "0 < unat (e_data_size F ?e)" and mark: "F (?e + (ENTRY_SIZE + unat (e_data_size F ?e) - 1)) = DUMMY_END"
    using cmp len by (auto simp: entry_complete_def unat_gt_0 layout_simps ac_simps)
  have "c \<le> ENTRY_SIZE + unat (e_data_size F ?e) - 1"
  proof (cases "c \<le> E_DATA_SIZE + 7")
    case True
    then show ?thesis using pos by (simp add: layout_simps)
  next
    case False
    have "F x = L x" if "?e + E_DATA_SIZE \<le> x" "x < ?e + E_DATA_SIZE + 8" for x
      using arrivedD(1) [OF a, of x] False that by (simp add: layout_simps)
    then have "same_on (?e + E_DATA_SIZE) 8 L F" by (auto simp: same_on_def)
    then have "e_data_size F ?e = e_data_size L ?e"
      unfolding e_data_size_def by (rule same_on_get_u64)
    then have "unat (e_data_size F ?e) = Suc (t_size (T ! k))" using entry_len(1) [OF g k ds] by simp
    then show ?thesis using cw by (simp add: width_def)
  qed
  then have "F (?e + (ENTRY_SIZE + unat (e_data_size F ?e) - 1)) = 0"
    using le by (intro zero) (auto simp: width_def layout_simps)
  with mark show False by (simp add: DUMMY_END_def)
qed

section \<open>Frame lemmas\<close>

abbreviation slot_set :: "thread list \<Rightarrow> nat \<Rightarrow> nat set" where
  "slot_set T k \<equiv> {start T k..<start T k + width (T ! k)}"

abbreviation body_set :: "thread list \<Rightarrow> nat \<Rightarrow> nat set" where
  "body_set T k \<equiv> {start T k + E_MSG_VS..<start T k + width (T ! k)}"

abbreviation acks_set :: "thread list \<Rightarrow> nat \<Rightarrow> nat set" where
  "acks_set T k \<equiv> {start T k..<start T k + E_MSG_VS}"

lemma slot_parts: "body_set T k \<subseteq> slot_set T k" "acks_set T k \<subseteq> slot_set T k" "body_set T k \<inter> acks_set T k = {}"
  using width_ge(1) [of "T ! k"] by (auto simp: layout_simps)

lemma slot_sets_disjoint:
  assumes "k < length T" "k' < length T" "k \<noteq> k'"
  shows "slot_set T k \<inter> slot_set T k' = {}"
  using assms start_next [of k k' T] start_next [of k' k T] by (cases "k < k'") auto

lemma slot_header: "slot_set T k \<inter> {0..<OFF_ENTRIES} = {}"
  using start_ge [of T k] by auto

lemma slot_fresh: "k < length T \<Longrightarrow> start T (length T) \<le> x \<Longrightarrow> x \<notin> slot_set T k"
  using start_next [of k "length T" T] by auto

lemma unch_header:
  assumes "unch S m m'" and "S \<inter> {0..<OFF_ENTRIES} = {}"
  shows "log_end m' = log_end m" "log_len m' = log_len m"
  using same_on_header [of m m'] unch_same_on [OF assms(1), of 0 OFF_ENTRIES] assms(2) by auto

lemma unch_body:
  assumes "unch S L L'" and "S \<inter> body_set T k = {}"
  shows "same_on (start T k + E_MSG_VS) (width (T ! k) - E_MSG_VS) L L'"
  using assms width_ge(1) [of "T ! k"] by (intro unch_same_on) (auto simp: layout_simps)

lemma entry_has_same:
  assumes "same_on (e + E_MSG_VS) (w - E_MSG_VS) L L'" and "e_type L' e = e_type L e" and "ENTRY_SIZE + t_size t \<le> w"
  shows "entry_has L' e t = entry_has L e t"
  using same_on_get_bytes [OF same_on_sub [OF assms(1), of "e + E_DATA" "t_size t"]] assms(2,3)
  by (simp add: entry_has_def layout_simps)

lemma entry_ok_same:
  assumes "entry_ok ld cm T L k" and s: "same_on (start T k + E_MSG_VS) (width (T ! k) - E_MSG_VS) L L'"
  shows "entry_ok ld cm T L' k"
proof -
  note b = same_on_body [OF body_same [OF s less_imp_le [OF width_ge(1)]]]
  have "L' (start T k + width (T ! k) - 1) = L (start T k + width (T ! k) - 1)"
    using s width_ge(1) [of "T ! k"] by (simp add: same_on_def layout_simps)
  moreover have "entry_has L' (start T k) (T ! k) = entry_has L (start T k) (T ! k)"
    by (rule entry_has_same [OF s b(5)]) (simp add: width_def)
  ultimately show ?thesis using assms(1) b by (simp add: entry_ok_def)
qed

lemma entry_ok_mono: "entry_ok ld cm T L k \<Longrightarrow> cm \<le> cm' \<Longrightarrow> entry_ok ld cm' T L k"
  unfolding entry_ok_def by (meson le_trans)

lemma ack_unch:
  assumes "unch S L L'" and "S \<inter> acks_set T k = {}" and "i < MAX_SERVER_COUNT"
  shows "ack_msg_vs L' (start T k) i = ack_msg_vs L (start T k) i"
    "ack_node_id L' (start T k) i = ack_node_id L (start T k) i"
  unfolding ack_msg_vs_def ack_node_id_def
  using assms by (auto intro!: same_on_get_vs same_on_get_u32 unch_same_on [OF assms(1)]
      simp: ack_off_def layout_simps)

lemma arrived_same:
  assumes "arrived T L F k c" and "c \<le> width (T ! k)"
    and "same_on (start T k + E_MSG_VS) (width (T ! k) - E_MSG_VS) L L'"
    and "same_on (start T k + E_MSG_VS) (width (T ! k) - E_MSG_VS) F F'"
  shows "arrived T L' F' k c"
  using assms width_ge(1) [of "T ! k"] by (auto simp: arrived_def same_on_def layout_simps)

lemma flight_same:
  assumes "flight T L F j x k"
    and "same_on (start T k + E_MSG_VS) (width (T ! k) - E_MSG_VS) L L'"
    and "same_on (start T k + E_MSG_VS) (width (T ! k) - E_MSG_VS) F F'"
  shows "flight T L' F' j x k"
proof -
  obtain c where c: "k < length T" "past (t_pc (T ! k)) j" "m_off x = start T k + c"
      "c + length (m_bytes x) = width (T ! k)"
      "\<forall>y < length (m_bytes x). E_MSG_VS \<le> c + y \<longrightarrow> m_bytes x ! y = L (start T k + c + y)"
      "arrived T L F k c"
    using assms(1) by (auto simp: flight_def)
  have "\<forall>y < length (m_bytes x). E_MSG_VS \<le> c + y \<longrightarrow> m_bytes x ! y = L' (start T k + c + y)"
    using c(4,5) assms(2) by (auto simp: same_on_def layout_simps)
  moreover have "arrived T L' F' k c" using c(4) by (intro arrived_same [OF c(6) _ assms(2,3)]) simp
  ultimately show ?thesis using c(1-4) by (auto simp: flight_def)
qed

lemma flight_ok_same:
  assumes f: "flight_ok T L F j ms"
    and L: "\<And>k. k < length T \<Longrightarrow> posted (t_pc (T ! k)) \<Longrightarrow>
      same_on (start T k + E_MSG_VS) (width (T ! k) - E_MSG_VS) L L'"
    and F: "\<And>k. k < length T \<Longrightarrow> same_on (start T k + E_MSG_VS) (width (T ! k) - E_MSG_VS) F F'"
  shows "flight_ok T L' F' j ms"
  unfolding flight_ok_def
proof (intro conjI allI impI)
  fix i k
  assume "i < length ms" "is_entry (ms ! i) j k"
  then have fl: "flight T L F j (ms ! i) k" using f unfolding flight_ok_def by blast
  then have kl: "k < length T" and "posted (t_pc (T ! k))"
    using past_posted [of "t_pc (T ! k)" j] unfolding flight_def by blast+
  then show "flight T L' F' j (ms ! i) k" by (intro flight_same [OF fl L F])
next
  fix i i' k
  assume "i < length ms" "i' < length ms" "is_entry (ms ! i) j k" "is_entry (ms ! i') j k"
  then show "i = i'" using f unfolding flight_ok_def by blast
next
  fix k
  assume k: "k < length T" "\<forall>i < length ms. \<not> is_entry (ms ! i) j k"
  then have "arrived T L F k 0" using f unfolding flight_ok_def by blast
  then show "arrived T L' F' k 0"
    using F [OF k(1)] width_ge(1) [of "T ! k"] by (auto simp: arrived_def same_on_def layout_simps)
qed

text \<open>Changing the state of a thread.\<close>

lemma nth_upd: "xs[k := x] ! i = (if i = k \<and> k < length xs then x else xs ! i)"
  by (cases "k < length xs") (auto simp: nth_list_update list_update_beyond)

definition same_req :: "thread \<Rightarrow> thread \<Rightarrow> bool" where
  "same_req t t' \<longleftrightarrow> t_slot t' = t_slot t \<and> t_size t' = t_size t \<and> t_data t' = t_data t \<and> t_type t' = t_type t"

lemma width_same: "same_req t t' \<Longrightarrow> width t' = width t"
  by (simp add: same_req_def width_def)

lemma start_req: "same_req (T ! k) t' \<Longrightarrow> start (T[k := t']) i = start T i"
  by (rule start_upd) (simp add: same_req_def width_def)

lemma width_req: "same_req (T ! k) t' \<Longrightarrow> width (T[k := t'] ! i) = width (T ! i)"
  by (auto simp: nth_upd same_req_def width_def)

lemma geom_req: "same_req (T ! k) t' \<Longrightarrow> geom T L cc \<Longrightarrow> geom (T[k := t']) L cc"
  by (auto simp: geom_def start_req slot_ok_def nth_upd same_req_def)

lemma fresh_req: "same_req (T ! k) t' \<Longrightarrow> fresh (T[k := t']) m = fresh T m"
  by (simp add: fresh_def start_req)

lemma acks_req: "same_req (T ! k) t' \<Longrightarrow> acks_ok n ld (T[k := t']) L P = acks_ok n ld T L P"
  by (simp add: acks_ok_def start_req)

lemma ackmsg_req: "same_req (T ! k) t' \<Longrightarrow> ackmsg_ok n ld (T[k := t']) P ms = ackmsg_ok n ld T P ms"
  by (simp add: ackmsg_ok_def ackmsg_def start_req)

lemma foll_req: "same_req (T ! k) t' \<Longrightarrow> foll_ok (T[k := t']) cc F ms cm j p ex = foll_ok T cc F ms cm j p ex"
  by (simp add: foll_ok_def start_req)

lemma arrived_req: "same_req (T ! k) t' \<Longrightarrow> arrived (T[k := t']) L F i c = arrived T L F i c"
  by (simp add: arrived_def start_req width_req)

lemma flight_req:
  assumes "same_req (T ! k) t'" and "\<And>j. past (t_pc (T ! k)) j \<Longrightarrow> past (t_pc t') j"
    and "flight T L F j x i"
  shows "flight (T[k := t']) L F j x i"
  using assms by (auto simp: flight_def start_req width_req arrived_req nth_upd dest: width_same)

lemma flight_ok_req:
  assumes "same_req (T ! k) t'" and "\<And>j. past (t_pc (T ! k)) j \<Longrightarrow> past (t_pc t') j"
    and "flight_ok T L F j ms"
  shows "flight_ok (T[k := t']) L F j ms"
  using assms flight_req [OF assms(1,2)] by (auto simp: flight_ok_def arrived_req)

lemma entry_req: "same_req (T ! k) t' \<Longrightarrow> i \<noteq> k \<Longrightarrow> entry_ok ld cm (T[k := t']) L i = entry_ok ld cm T L i"
  by (simp add: entry_ok_def start_req width_req nth_upd)

lemma entry_self:
  assumes "same_req (T ! k) t'" and "k < length T"
  shows "entry_ok ld cm (T[k := t']) L k \<longleftrightarrow>
     e_data_size L (start T k) = of_nat (t_size (T ! k)) + 1 \<and>
     (filled (t_pc t') \<longrightarrow> e_msg_vs L (start T k) = stamp (Suc k) \<and>
        e_node_id L (start T k) = of_nat ld \<and> entry_has L (start T k) (T ! k) \<and> (\<exists>v. v \<le> cm \<and> v \<le> k \<and> e_canbe L (start T k) = stamp v)) \<and>
     (posted (t_pc t') \<longrightarrow> L (start T k + width (T ! k) - 1) = DUMMY_END)"
  using assms width_same [OF assms(1)] by (simp add: entry_ok_def entry_has_def start_req same_req_def)

section \<open>Leader steps\<close>

lemma acks_mono: "acks_ok n ld T L P \<Longrightarrow> (\<And>j. P j \<le> P' j) \<Longrightarrow> acks_ok n ld T L P'"
  unfolding acks_ok_def using order_less_le_trans by blast

lemma ackmsg_mono: "ackmsg_ok n ld T P ms \<Longrightarrow> (\<And>j. P j \<le> P' j) \<Longrightarrow> ackmsg_ok n ld T P' ms"
  unfolding ackmsg_ok_def ackmsg_def using order_less_le_trans by blast

lemma commit_mono: "commit_ok n ld T cm P \<Longrightarrow> (\<And>j. P j \<le> P' j) \<Longrightarrow> commit_ok n ld T cm P'"
  unfolding commit_ok_def using order_less_le_trans by blast

lemma foll_mono: "foll_ok T cc F ms cm j p ex \<Longrightarrow> cm \<le> cm' \<Longrightarrow> foll_ok T cc F ms cm' j p ex"
  unfolding foll_ok_def using le_trans by blast

lemma leader_mono: "leader_ok ld cm T L \<Longrightarrow> cm \<le> cm' \<Longrightarrow> leader_ok ld cm' T L"
  unfolding leader_ok_def using entry_ok_mono by blast

lemma geom_same:
  "geom T L cc \<Longrightarrow> log_end L' = log_end L \<Longrightarrow> log_len L' = log_len L \<Longrightarrow> highest_seen_vs cc' = highest_seen_vs cc \<Longrightarrow>
     geom T L' cc'"
  by (simp add: geom_def)

lemma fresh_same: "fresh T m \<Longrightarrow> unch S m m' \<Longrightarrow> (\<And>x. start T (length T) \<le> x \<Longrightarrow> x \<notin> S) \<Longrightarrow> fresh T m'"
  by (simp add: fresh_def unch_def)

lemma acks_same:
  assumes "acks_ok n ld T L P" and "unch S L L'" and "\<And>k. k < length T \<Longrightarrow> S \<inter> acks_set T k = {}"
  shows "acks_ok n ld T L' P"
  using assms(1,3) ack_unch [OF assms(2)] by (simp add: acks_ok_def)

text \<open>What a write into the body of one slot leaves alone.\<close>

lemma body_write:
  assumes "k < length T" and "S \<subseteq> body_set T k"
  shows "S \<inter> {0..<OFF_ENTRIES} = {}"
    and "\<And>x. start T (length T) \<le> x \<Longrightarrow> x \<notin> S"
    and "\<And>i. i < length T \<Longrightarrow> S \<inter> acks_set T i = {}"
    and "\<And>i. i < length T \<Longrightarrow> i \<noteq> k \<Longrightarrow> S \<inter> body_set T i = {}"
proof -
  show "S \<inter> {0..<OFF_ENTRIES} = {}" using assms(2) slot_header [of T k] slot_parts(1) [of T k] by blast
  show "\<And>x. start T (length T) \<le> x \<Longrightarrow> x \<notin> S"
    using assms slot_fresh [of k T] slot_parts(1) [of T k] by blast
  show "S \<inter> acks_set T i = {}" if "i < length T" for i
    using assms slot_sets_disjoint [OF assms(1) that] slot_parts [of T k] slot_parts(2) [of T i]
    by (cases "i = k") blast+
  show "S \<inter> body_set T i = {}" if "i < length T" "i \<noteq> k" for i
    using assms(2) slot_sets_disjoint [OF assms(1) that(1)] that(2) slot_parts(1) [of T k] slot_parts(1) [of T i]
    by blast
qed

lemma cinvD:
  assumes "cinv base n ld c"
  shows "ld < n" "n \<le> MAX_SERVER_COUNT" "\<And>j. j < n \<Longrightarrow> static_ok base n ld j (nodes c j)"
    "geom (threads c) (node_log c ld) (node_cc c ld)"
    "\<And>j. j < n \<Longrightarrow> fresh (threads c) (node_log c j)"
    "leader_ok ld (committed c ld) (threads c) (node_log c ld)"
    "acks_ok n ld (threads c) (node_log c ld) (proc c)"
    "\<And>j. j < n \<Longrightarrow> j \<noteq> ld \<Longrightarrow> flight_ok (threads c) (node_log c ld) (node_log c j) j (net c)"
    "dst_ok n ld (net c)" "ackmsg_ok n ld (threads c) (proc c) (net c)"
    "\<And>j. j < n \<Longrightarrow> j \<noteq> ld \<Longrightarrow> foll_ok (threads c) (node_cc c j) (node_log c j) (net c) (committed c ld) j
        (proc c j) (nd_exec (nodes c j))"
    "commit_ok n ld (threads c) (committed c ld) (proc c)"
    "highest_committed_vs (node_cc c ld) = stamp (committed c ld)"
  using assms unfolding cinv_def by blast+

lemma leader_frame:
  assumes inv: "cinv base n ld c" and k: "k < length (threads c)"
    and L: "unch S (node_log c ld) L'" "S \<subseteq> body_set (threads c) k" "S = {} \<or> \<not> posted (t_pc (threads c ! k))"
  shows "geom (threads c) L' (node_cc c ld)" "fresh (threads c) L'"
    "\<And>i. i < length (threads c) \<Longrightarrow> i \<noteq> k \<Longrightarrow> entry_ok ld (committed c ld) (threads c) L' i"
    "acks_ok n ld (threads c) L' (proc c)"
    "\<And>j. j < n \<Longrightarrow> j \<noteq> ld \<Longrightarrow> flight_ok (threads c) L' (node_log c j) j (net c)"
proof -
  let ?T = "threads c"
  note bw = body_write [OF k L(2)]
  show "geom ?T L' (node_cc c ld)"
    by (rule geom_same [OF cinvD(4) [OF inv] unch_header [OF L(1) bw(1)] refl])
  show "fresh ?T L'" by (rule fresh_same [OF cinvD(5) [OF inv cinvD(1) [OF inv]] L(1) bw(2)])
  show "entry_ok ld (committed c ld) ?T L' i" if "i < length ?T" "i \<noteq> k" for i
    by (rule entry_ok_same [OF _ unch_body [OF L(1) bw(4) [OF that]]])
      (use cinvD(6) [OF inv] that(1) in \<open>simp add: leader_ok_def\<close>)
  show "acks_ok n ld ?T L' (proc c)" by (rule acks_same [OF cinvD(7) [OF inv] L(1) bw(3)])
  show "flight_ok ?T L' (node_log c j) j (net c)" if "j < n" "j \<noteq> ld" for j
  proof (rule flight_ok_same [OF cinvD(8) [OF inv that]])
    fix i assume i: "i < length ?T" "posted (t_pc (?T ! i))"
    then have "S \<inter> body_set ?T i = {}" using L(3) bw(4) [OF i(1)] by (cases "i = k") auto
    then show "same_on (start ?T i + E_MSG_VS) (width (?T ! i) - E_MSG_VS) (node_log c ld) L'"
      by (rule unch_body [OF L(1)])
  qed simp
qed

text \<open>
  A step of the thread of request \<open>k\<close> that may write the body of its own slot as long as nothing
  of it has been posted.
\<close>

lemma cinv_leader_step:
  assumes inv: "cinv base n ld c" and k: "k < length (threads c)" and t: "t = threads c ! k"
    and req: "same_req t t'" and past: "\<And>j. past (t_pc t) j \<Longrightarrow> past (t_pc t') j"
    and st: "static_ok base n ld ld nd"
    and cc: "highest_seen_vs (nd_cc nd) = highest_seen_vs (node_cc c ld)"
      "highest_committed_vs (nd_cc nd) = highest_committed_vs (node_cc c ld)"
    and L: "unch S (node_log c ld) (srv_log (nd_srv nd))" "S \<subseteq> body_set (threads c) k"
      "S = {} \<or> \<not> posted (t_pc t)"
    and entry: "entry_ok ld (committed c ld) ((threads c)[k := t']) (srv_log (nd_srv nd)) k"
    and com: "commit_ok n ld ((threads c)[k := t']) (committed c ld) (proc c)"
  shows "cinv base n ld (upd_thread (upd_node c ld nd) k t')"
proof -
  let ?c = "upd_thread (upd_node c ld nd) k t'"
  let ?T = "threads c" let ?L' = "srv_log (nd_srv nd)"
  have c': "threads ?c = ?T[k := t']" "net ?c = net c" "nodes ?c = (nodes c)(ld := nd)"
    by (simp_all add: upd_thread_def upd_node_def)
  have pr: "proc ?c = proc c" "committed ?c ld = committed c ld"
    using cc by (auto simp: proc_def committed_def fun_eq_iff c')
  have req': "same_req (?T ! k) t'" using req t by simp
  note lf = leader_frame [OF inv k L(1,2) L(3) [unfolded t]]
  have "leader_ok ld (committed c ld) (?T[k := t']) ?L'"
    unfolding leader_ok_def
  proof (intro allI impI)
    fix i assume "i < length (?T[k := t'])"
    then show "entry_ok ld (committed c ld) (?T[k := t']) ?L' i"
      using entry lf(3) [of i] entry_req [OF req', of i] by (cases "i = k") simp_all
  qed
  moreover have "flight_ok (?T[k := t']) ?L' (node_log c j) j (net c)" if "j < n" "j \<noteq> ld" for j
    using past t by (intro flight_ok_req [OF req' _ lf(5) [OF that]]) simp
  moreover have "geom (?T[k := t']) ?L' (nd_cc nd)"
    by (rule geom_req [OF req' geom_same [OF lf(1) refl refl cc(1)]])
  moreover have "acks_ok n ld (?T[k := t']) ?L' (proc c)" using lf(4) by (simp add: acks_req [OF req'])
  moreover have "highest_committed_vs (nd_cc nd) = stamp (committed c ld)" using cc(2) cinvD(13) [OF inv] by simp
  ultimately show ?thesis
    unfolding cinv_def c' pr
    using cinvD(1,2) [OF inv] cinvD(3) [OF inv] cinvD(5) [OF inv] lf(2) cinvD(9,10) [OF inv] cinvD(11) [OF inv] st com
    by (simp add: ackmsg_req [OF req'] foll_req [OF req'] fresh_req [OF req'])
qed

text \<open>Filling the slot.\<close>

lemma leader_fill_ok:
  assumes f: "leader_fill cc m s data ty = Some m'" and e: "e = s_entry s"
    and len: "\<And>bs. data = Some bs \<Longrightarrow> length bs = ds"
  shows "unch {e + E_MSG_VS..<e + (ENTRY_SIZE + ds + 1)} m m'" "e_data_size m' e = e_data_size m e"
    "e_msg_vs m' e = s_next s" "e_canbe m' e = highest_committed_vs cc" "e_node_id m' e = cc_node_id cc"
    "e_type m' e = ty" "\<And>bs. data = Some bs \<Longrightarrow> get_bytes m' (e + E_DATA) ds = bs"
proof -
  let ?m1 = "put_vs m (e + E_CANBE) (highest_committed_vs cc)"
  define m2 where "m2 = (case data of None \<Rightarrow> ?m1 | Some bs \<Rightarrow> put_bytes ?m1 (e + E_DATA) bs)"
  obtain v where m': "m' = put_vs (put_u8 (put_u32 (put_vs m2 (e + E_MSG_VS) (s_next s)) (e + E_NODE_ID)
      (cc_node_id cc)) (e + E_TYPE) ty) (e + E_CLT_ID) v"
    using f by (auto simp: leader_fill_def Let_def e m2_def split: option.splits if_splits)
  let ?S = "{e + E_MSG_VS..<e + (ENTRY_SIZE + ds + 1)}"
  have u1: "unch ?S m ?m1" by (rule unch_put_words) (auto simp: layout_simps)
  have u2: "unch ?S ?m1 m2" using len by (auto simp: m2_def layout_simps intro!: unch_put_bytes split: option.splits)
  have u3: "unch ?S m2 m'"
    unfolding m' by (rule unch_trans [OF unch_trans [OF unch_trans [OF unch_put_words(4) unch_put_words(2)] unch_put_words(1)] unch_put_words(4)])
      (auto simp: layout_simps)
  show "unch ?S m m'" by (rule unch_trans [OF unch_trans [OF u1 u2] u3])
  have m2c: "a + 4 \<le> e + E_DATA \<Longrightarrow> get_u32 m2 a = get_u32 ?m1 a"
      "a + 8 \<le> e + E_DATA \<Longrightarrow> get_u64 m2 a = get_u64 ?m1 a" for a
    by (auto simp: m2_def mem_simps split: option.splits)
  show "e_data_size m' e = e_data_size m e"
    unfolding m' e_data_size_def put_vs_def
    by (simp add: mem_simps layout_simps m2c put_vs_def)
  show "e_msg_vs m' e = s_next s"
    unfolding m' e_msg_vs_def get_vs_def put_vs_def by (simp add: mem_simps layout_simps)
  show "e_canbe m' e = highest_committed_vs cc"
    unfolding m' e_canbe_def get_vs_def put_vs_def
    by (simp add: mem_simps layout_simps m2c put_vs_def)
  show "e_node_id m' e = cc_node_id cc"
    unfolding m' e_node_id_def put_vs_def by (simp add: mem_simps layout_simps)
  show "e_type m' e = ty"
    unfolding m' e_type_def put_vs_def by (simp add: mem_simps layout_simps)
  fix bs assume bs: "data = Some bs"
  have "unch {e + E_MSG_VS..<e + E_DATA} m2 m'"
    unfolding m' by (rule unch_trans [OF unch_trans [OF unch_trans [OF unch_put_words(4) unch_put_words(2)] unch_put_words(1)] unch_put_words(4)])
      (auto simp: layout_simps)
  then have "same_on (e + E_DATA) ds m2 m'" by (intro unch_same_on) auto
  then show "get_bytes m' (e + E_DATA) ds = bs"
    using same_on_get_bytes [of "e + E_DATA" ds m2 m'] bs len [OF bs] by (simp add: m2_def mem_simps)
qed

lemma commit_pc:
  assumes "commit_ok n ld T cm P" and "k < length T" and "t_pc (T ! k) \<noteq> TCommitted" and "t_pc t' \<noteq> TCommitted"
    and "t_pc t' = TWaiting \<Longrightarrow> \<forall>b. bit (t_bits t') b \<longrightarrow> b < n \<and> (b = ld \<or> k < P b)"
  shows "commit_ok n ld (T[k := t']) cm P"
  using assms by (auto simp: commit_ok_def nth_upd)

lemma uncommitted_le:
  assumes "commit_ok n ld T cm P" and "k < length T" and "t_pc (T ! k) \<noteq> TCommitted"
  shows "cm \<le> k"
  using assms by (auto simp: commit_ok_def not_less)

lemma static_log: "static_ok base n ld j nd \<Longrightarrow> static_ok base n ld j (set_node_log nd m)"
  by (simp add: static_ok_def set_node_log_def)

lemma slot_at:
  assumes "cinv base n ld c" and "k < length (threads c)"
  shows "slot_ok (threads c) k (threads c ! k)" "k < 2 ^ 28" "Suc k < 2 ^ 32"
    "start (threads c) k + width (threads c ! k) + ENTRY_SIZE \<le> REGION_SIZE"
    "entry_ok ld (committed c ld) (threads c) (node_log c ld) k"
  using cinvD(4) [OF assms(1)] assms(2) geom_bound [OF cinvD(4) [OF assms(1)]]
    width_bound [OF cinvD(4) [OF assms(1)] assms(2)] cinvD(6) [OF assms(1)]
  by (auto simp: geom_def leader_ok_def)

lemma cinv_fill:
  assumes inv: "cinv base n ld c" and k: "k < length (threads c)" and t: "t = threads c ! k"
    and pc: "t_pc t = TReserved"
    and f: "leader_fill (node_cc c ld) (node_log c ld) (t_slot t) (t_data t) (t_type t) = Some m'"
  shows "cinv base n ld (upd_thread (upd_node c ld (set_node_log (nodes c ld) m')) k (t\<lparr>t_pc := TFilled\<rparr>))"
proof (rule cinv_leader_step [OF inv k t])
  note sl = slot_at [OF inv k, folded t]
  have e: "start (threads c) k = s_entry (t_slot t)" using sl(1) by (simp add: slot_ok_def)
  note ff = leader_fill_ok [OF f e, of "t_size t"]
  have len: "\<And>bs. t_data t = Some bs \<Longrightarrow> length bs = t_size t" using sl(1) by (simp add: slot_ok_def)
  note cm = uncommitted_le [OF cinvD(12) [OF inv] k]
  have st: "static_ok base n ld ld (nodes c ld)" by (rule cinvD(3) [OF inv cinvD(1) [OF inv]])
  show "same_req t (t\<lparr>t_pc := TFilled\<rparr>)" by (simp add: same_req_def)
  then have req: "same_req (threads c ! k) (t\<lparr>t_pc := TFilled\<rparr>)" using t by simp
  show "past (t_pc t) j \<Longrightarrow> past (t_pc (t\<lparr>t_pc := TFilled\<rparr>)) j" for j using pc by simp
  show "static_ok base n ld ld (set_node_log (nodes c ld) m')" by (rule static_log [OF st])
  show "unch (body_set (threads c) k) (node_log c ld) (srv_log (nd_srv (set_node_log (nodes c ld) m')))"
    using ff(1) [OF len] t by (simp add: set_node_log_def width_def)
  show "body_set (threads c) k = {} \<or> \<not> posted (t_pc t)" using pc by simp
  show "entry_ok ld (committed c ld) ((threads c)[k := t\<lparr>t_pc := TFilled\<rparr>])
      (srv_log (nd_srv (set_node_log (nodes c ld) m'))) k"
    unfolding entry_self [OF req k]
    using ff(2-7) [OF len] sl(1,5) cm pc st cinvD(13) [OF inv] t
    by (auto simp: entry_ok_def entry_has_def set_node_log_def slot_ok_def static_ok_def)
  show "commit_ok n ld ((threads c)[k := t\<lparr>t_pc := TFilled\<rparr>]) (committed c ld) (proc c)"
    using pc t by (intro commit_pc [OF cinvD(12) [OF inv] k]) simp_all
qed (simp_all add: set_node_log_def)

lemma leader_dummy_ok:
  assumes "unat (log_entry_len m (s_entry s)) = w" and "ENTRY_SIZE < w"
  shows "unch {s_entry s + E_MSG_VS..<s_entry s + w} m (leader_dummy m s)"
    "leader_dummy m s (s_entry s + w - 1) = DUMMY_END"
    "same_on (s_entry s + E_MSG_VS) (w - 1 - E_MSG_VS) m (leader_dummy m s)"
proof -
  have d: "leader_dummy m s = put_bytes m (s_entry s + w - 1) [DUMMY_END]"
    by (simp add: leader_dummy_def put_u8_def assms(1))
  show "unch {s_entry s + E_MSG_VS..<s_entry s + w} m (leader_dummy m s)"
    unfolding d using assms(2) by (intro unch_put_bytes) (auto simp: layout_simps)
  show "leader_dummy m s (s_entry s + w - 1) = DUMMY_END" by (simp add: d put_bytes_def)
  show "same_on (s_entry s + E_MSG_VS) (w - 1 - E_MSG_VS) m (leader_dummy m s)"
    unfolding d using assms(2) by (intro same_on_put) (auto simp: layout_simps)
qed

lemma leader_store_fields:
  "leader_store B cc m s = (ret, cc') \<Longrightarrow> \<exists>d. cc' = cc\<lparr>db_ptr := d\<rparr>"
  by (auto simp: leader_store_def split: prod.splits)

lemma static_db: "static_ok base n ld j nd \<Longrightarrow> static_ok base n ld j (nd\<lparr>nd_cc := (nd_cc nd)\<lparr>db_ptr := d\<rparr>\<rparr>)"
  by (simp add: static_ok_def)

lemma cinv_store:
  assumes inv: "cinv base n ld c" and k: "k < length (threads c)" and t: "t = threads c ! k"
    and pc: "t_pc t = TFilled"
    and s: "leader_store B (node_cc c ld) (node_log c ld) (t_slot t) = (ret, cc')"
  shows "cinv base n ld (if ret \<noteq> 0
        then upd_thread (upd_node c ld ((nodes c ld)\<lparr>nd_cc := cc'\<rparr>)) k (t\<lparr>t_pc := TFailed\<rparr>)
        else upd_thread (upd_node c ld
               ((set_node_log (nodes c ld) (leader_dummy (node_log c ld) (t_slot t)))\<lparr>nd_cc := cc'\<rparr>)) k
               (t\<lparr>t_pc := TPosting 0\<rparr>))"
proof -
  let ?T = "threads c" let ?L = "node_log c ld"
  let ?m = "leader_dummy ?L (t_slot t)"
  note sl = slot_at [OF inv k, folded t]
  have e: "s_entry (t_slot t) = start ?T k" using sl(1) by (simp add: slot_ok_def)
  have st: "static_ok base n ld ld (nodes c ld)" by (rule cinvD(3) [OF inv cinvD(1) [OF inv]])
  obtain d where d: "cc' = (node_cc c ld)\<lparr>db_ptr := d\<rparr>" using leader_store_fields [OF s] by blast
  have ds: "e_data_size ?L (start ?T k) = of_nat (t_size (?T ! k)) + 1" using sl(5) by (simp add: entry_ok_def)
  note dm = leader_dummy_ok [of ?L "t_slot t" "width t", unfolded e, OF entry_len(2) [OF cinvD(4) [OF inv] k ds, folded t] width_ge(1)]
  have "cinv base n ld (upd_thread (upd_node c ld ((nodes c ld)\<lparr>nd_cc := cc'\<rparr>)) k (t\<lparr>t_pc := TFailed\<rparr>))"
  proof (rule cinv_leader_step [OF inv k t, where S = "{}"])
    show "static_ok base n ld ld ((nodes c ld)\<lparr>nd_cc := cc'\<rparr>)" unfolding d by (rule static_db [OF st])
    show "entry_ok ld (committed c ld) (?T[k := t\<lparr>t_pc := TFailed\<rparr>]) (srv_log (nd_srv ((nodes c ld)\<lparr>nd_cc := cc'\<rparr>))) k"
      using sl(5) pc t by (subst entry_self [OF _ k]) (auto simp: entry_ok_def same_req_def)
    show "commit_ok n ld (?T[k := t\<lparr>t_pc := TFailed\<rparr>]) (committed c ld) (proc c)"
      using pc t by (intro commit_pc [OF cinvD(12) [OF inv] k]) simp_all
  qed (use pc in \<open>simp_all add: same_req_def d\<close>)
  moreover have "cinv base n ld (upd_thread (upd_node c ld ((set_node_log (nodes c ld) ?m)\<lparr>nd_cc := cc'\<rparr>)) k
      (t\<lparr>t_pc := TPosting 0\<rparr>))"
  proof (rule cinv_leader_step [OF inv k t, where S = "body_set ?T k"])
    let ?t = "t\<lparr>t_pc := TPosting 0\<rparr>"
    have req: "same_req (?T ! k) ?t" using t by (simp add: same_req_def)
    show "static_ok base n ld ld ((set_node_log (nodes c ld) ?m)\<lparr>nd_cc := cc'\<rparr>)"
      using static_db [OF static_log [OF st, of ?m], of d] by (simp add: d set_node_log_def)
    show "unch (body_set ?T k) ?L (srv_log (nd_srv ((set_node_log (nodes c ld) ?m)\<lparr>nd_cc := cc'\<rparr>)))"
      using dm(1) t by (simp add: set_node_log_def)
    note b = same_on_body [OF body_same [OF dm(3)]]
    have "ENTRY_SIZE \<le> width t - 1" by (simp add: width_def)
    note b = b [OF this]
    show "entry_ok ld (committed c ld) (?T[k := ?t])
        (srv_log (nd_srv ((set_node_log (nodes c ld) ?m)\<lparr>nd_cc := cc'\<rparr>))) k"
      unfolding entry_self [OF req k]
      using sl(5) b entry_has_same [OF dm(3) b(5), of t] dm(2) pc t
      by (auto simp: entry_ok_def set_node_log_def width_def)
    show "commit_ok n ld (?T[k := ?t]) (committed c ld) (proc c)"
      using pc t by (intro commit_pc [OF cinvD(12) [OF inv] k]) simp_all
  qed (use pc in \<open>simp_all add: same_req_def d set_node_log_def\<close>)
  ultimately show ?thesis by simp
qed

text \<open>Waiting, scanning and committing.\<close>

lemma upd_node_same: "upd_node c j (nodes c j) = c"
  by (simp add: upd_node_def)

lemma bit_node_bit:
  assumes "i < MAX_SERVER_COUNT"
  shows "bit (node_bit (of_nat i)) b \<longleftrightarrow> b = i"
proof -
  have "i \<in> {0, 1, 2, 3, 4, 5, 6}" using assms by (auto simp: MAX_SERVER_COUNT_def)
  then have "node_bit (of_nat i) = push_bit i 1" by (auto simp: node_bit_def)
  then show ?thesis using assms by (auto simp: bit_exp_iff MAX_SERVER_COUNT_def)
qed

lemma unat_small: "i < MAX_SERVER_COUNT \<Longrightarrow> unat (of_nat i :: u32) = i"
  by (rule unat_req_stamp) (simp add: MAX_SERVER_COUNT_def)

lemma cinv_thread_only:
  assumes inv: "cinv base n ld c" and k: "k < length (threads c)" and t: "t = threads c ! k"
    and req: "same_req t t'" and past: "\<And>j. past (t_pc t) j \<Longrightarrow> past (t_pc t') j"
    and pc: "posted (t_pc t)" and com: "commit_ok n ld ((threads c)[k := t']) (committed c ld) (proc c)"
  shows "cinv base n ld (upd_thread c k t')"
proof -
  have req': "same_req (threads c ! k) t'" using req t by simp
  have "cinv base n ld (upd_thread (upd_node c ld (nodes c ld)) k t')"
  proof (rule cinv_leader_step [OF inv k t req past _ refl refl, where S = "{}"])
    show "static_ok base n ld ld (nodes c ld)" by (rule cinvD(3) [OF inv cinvD(1) [OF inv]])
    show "entry_ok ld (committed c ld) ((threads c)[k := t']) (node_log c ld) k"
      unfolding entry_self [OF req' k]
      using slot_at(5) [OF inv k] pc t posted_filled [OF pc] by (auto simp: entry_ok_def entry_has_def)
  qed (use com in simp_all)
  then show ?thesis by (simp add: upd_node_same)
qed

lemma cinv_posted:
  assumes inv: "cinv base n ld c" and k: "k < length (threads c)" and t: "t = threads c ! k"
    and pc: "t_pc t = TPosting n"
  shows "cinv base n ld (upd_thread c k (t\<lparr>t_pc := TWaiting, t_bits := node_bit (cc_node_id (node_cc c ld))\<rparr>))"
proof (rule cinv_thread_only [OF inv k t])
  have ld: "ld < n" "n \<le> MAX_SERVER_COUNT" by (rule cinvD(1,2) [OF inv])+
  have id: "cc_node_id (node_cc c ld) = of_nat ld" using cinvD(3) [OF inv ld(1)] by (simp add: static_ok_def)
  show "commit_ok n ld ((threads c)[k := t\<lparr>t_pc := TWaiting, t_bits := node_bit (cc_node_id (node_cc c ld))\<rparr>])
      (committed c ld) (proc c)"
    using pc t ld id by (intro commit_pc [OF cinvD(12) [OF inv] k]) (auto simp: bit_node_bit)
qed (simp_all add: same_req_def pc)

lemma cinv_scan:
  assumes inv: "cinv base n ld c" and k: "k < length (threads c)" and t: "t = threads c ! k"
    and pc: "t_pc t = TWaiting" and i: "i < MAX_SERVER_COUNT"
  shows "cinv base n ld (upd_thread c k (t\<lparr>t_bits := scan_ack (node_log c ld) (t_slot t) i (t_bits t)\<rparr>))"
proof (rule cinv_thread_only [OF inv k t])
  have old: "\<forall>b. bit (t_bits t) b \<longrightarrow> b < n \<and> (b = ld \<or> k < proc c b)"
    using cinvD(12) [OF inv] k pc t by (auto simp: commit_ok_def)
  have "b < n \<and> (b = ld \<or> k < proc c b)" if b: "bit (scan_ack (node_log c ld) (t_slot t) i (t_bits t)) b" for b
  proof (cases "bit (t_bits t) b")
    case False
    then have m: "ack_msg_vs (node_log c ld) (start (threads c) k) i = stamp (Suc k)"
        "bit (node_bit (ack_node_id (node_log c ld) (start (threads c) k) i)) b"
      using b slot_at(1) [OF inv k] t by (auto simp: scan_ack_def slot_ok_def bit_or_iff split: if_splits)
    then have "ack_node_id (node_log c ld) (start (threads c) k) i = of_nat i" "i < n" "k < proc c i"
      using cinvD(7) [OF inv] k i by (auto simp: acks_ok_def)
    then show ?thesis using m(2) bit_node_bit [OF i, of b] by simp
  qed (use old in blast)
  then show "commit_ok n ld ((threads c)[k := t\<lparr>t_bits := scan_ack (node_log c ld) (t_slot t) i (t_bits t)\<rparr>])
      (committed c ld) (proc c)"
    using pc t by (intro commit_pc [OF cinvD(12) [OF inv] k]) auto
qed (simp_all add: same_req_def pc)

text \<open>Only the oldest uncommitted request can be committed.\<close>

lemma commit_next:
  assumes inv: "cinv base n ld c" and k: "k < length (threads c)" and pc: "t_pc (threads c ! k) = TWaiting"
    and may: "may_commit (node_cc c ld) (node_log c ld) (t_slot (threads c ! k))"
  shows "k = committed c ld"
proof -
  have le: "committed c ld \<le> k" using uncommitted_le [OF cinvD(12) [OF inv] k] pc by simp
  have "e_msg_vs (node_log c ld) (s_entry (t_slot (threads c ! k))) = stamp (Suc k)"
    using slot_at(1,5) [OF inv k] pc by (simp add: entry_ok_def slot_ok_def)
  then have "\<not> (of_nat (Suc k) :: u32) > of_nat (committed c ld) + 1"
    using may cinvD(13) [OF inv] by (simp add: may_commit_def)
  moreover have "(of_nat (committed c ld) :: u32) + 1 = of_nat (Suc (committed c ld))" by simp
  ultimately have "\<not> unat (of_nat (Suc (committed c ld)) :: u32) < unat (of_nat (Suc k) :: u32)"
    unfolding word_less_nat_alt by metis
  moreover have "unat (of_nat (Suc k) :: u32) = Suc k" "unat (of_nat (Suc (committed c ld)) :: u32) = Suc (committed c ld)"
    using slot_at(3) [OF inv k] le by (simp_all only: unat_req_stamp)
  ultimately show ?thesis using le by simp
qed

lemma cinv_commit:
  assumes inv: "cinv base n ld c" and k: "k < length (threads c)" and t: "t = threads c ! k"
    and pc: "t_pc t = TWaiting" and q: "reached_quorum (t_bits t) (cc_group_size (node_cc c ld))"
    and may: "may_commit (node_cc c ld) (node_log c ld) (t_slot t)"
  shows "cinv base n ld (upd_thread (upd_node c ld ((nodes c ld)\<lparr>nd_cc := leader_commit (node_cc c ld)\<rparr>)) k
         (t\<lparr>t_pc := TCommitted\<rparr>))" (is "cinv base n ld ?c")
proof -
  let ?T = "threads c" let ?t = "t\<lparr>t_pc := TCommitted\<rparr>"
  have ld: "ld < n" "n \<le> MAX_SERVER_COUNT" by (rule cinvD(1,2) [OF inv])+
  have st: "static_ok base n ld ld (nodes c ld)" by (rule cinvD(3) [OF inv ld(1)])
  have kc: "committed c ld = k" using commit_next [OF inv k] pc may t by simp
  have req: "same_req (?T ! k) ?t" using t by (simp add: same_req_def)
  have com: "commit_ok n ld (?T[k := ?t]) (Suc k) (proc c)"
    using cinvD(12) [OF inv] k pc q t st ld
    by (auto simp: commit_ok_def nth_upd kc less_Suc_eq reached_quorum_def static_ok_def unat_req_stamp MAX_SERVER_COUNT_def)
  have c': "threads ?c = ?T[k := ?t]" "net ?c = net c"
      "nodes ?c = (nodes c)(ld := (nodes c ld)\<lparr>nd_cc := leader_commit (node_cc c ld)\<rparr>)"
    by (simp_all add: upd_thread_def upd_node_def)
  have hc: "highest_committed_vs (leader_commit (node_cc c ld)) = stamp (Suc k)"
    using cinvD(13) [OF inv] kc by (simp add: leader_commit_def stamp_def)
  have cm: "committed ?c ld = Suc k"
    using slot_at(3) [OF inv k] unfolding committed_def c' by (simp add: hc unat_req_stamp del: of_nat_Suc)
  have pr: "proc ?c = proc c" unfolding proc_def c' fun_eq_iff by (simp add: leader_commit_def)
  have lead: "leader_ok ld (Suc k) (?T[k := ?t]) (node_log c ld)"
    unfolding leader_ok_def
  proof (intro allI impI)
    fix i assume i: "i < length (?T[k := ?t])"
    then have "entry_ok ld (Suc k) ?T (node_log c ld) i"
      using slot_at(5) [OF inv, of i] kc by (auto intro: entry_ok_mono)
    then show "entry_ok ld (Suc k) (?T[k := ?t]) (node_log c ld) i"
      using entry_self [OF req k] entry_req [OF req, of i] pc t by (cases "i = k") (auto simp: entry_ok_def entry_has_def)
  qed
  have fl: "flight_ok (?T[k := ?t]) (node_log c ld) (node_log c j) j (net c)" if "j < n" "j \<noteq> ld" for j
    using pc t by (intro flight_ok_req [OF req _ cinvD(8) [OF inv that]]) simp
  have fo: "foll_ok (?T[k := ?t]) (node_cc c j) (node_log c j) (net c) (Suc k) j (proc c j) (nd_exec (nodes c j))"
    if "j < n" "j \<noteq> ld" for j
    unfolding foll_req [OF req] using kc by (intro foll_mono [OF cinvD(11) [OF inv that]]) simp
  have ge: "geom (?T[k := ?t]) (node_log c ld) (leader_commit (node_cc c ld))"
    by (intro geom_req [OF req] geom_same [OF cinvD(4) [OF inv] refl refl]) (simp add: leader_commit_def)
  have st': "static_ok base n ld ld ((nodes c ld)\<lparr>nd_cc := leader_commit (node_cc c ld)\<rparr>)"
    using st by (simp add: static_ok_def leader_commit_def)
  show ?thesis
    unfolding cinv_def c' cm pr
    using ld st' cinvD(3) [OF inv] cinvD(5) [OF inv] cinvD(7,9,10) [OF inv] com hc lead fl fo ge
    by (simp add: ackmsg_req [OF req] fresh_req [OF req] acks_req [OF req])
qed

end
