(* ===== verification/Cluster_Step.thy ===== *)
theory Cluster_Step
  imports Cluster_Inv Transition
begin

text \<open>
  The other steps of the group: posting, the arrival of remote writes, the follower and new
  requests. Together with the leader's steps they keep the invariant of \<open>Cluster_Inv\<close>, which
  therefore holds in every reachable state.
\<close>

section \<open>The network\<close>

lemma flight_okD:
  assumes "flight_ok T L F j ms"
  shows "i < length ms \<Longrightarrow> is_entry (ms ! i) j k \<Longrightarrow> flight T L F j (ms ! i) k"
    "i < length ms \<Longrightarrow> i' < length ms \<Longrightarrow> is_entry (ms ! i) j k \<Longrightarrow> is_entry (ms ! i') j k \<Longrightarrow> i = i'"
    "k < length T \<Longrightarrow> (\<And>i. i < length ms \<Longrightarrow> \<not> is_entry (ms ! i) j k) \<Longrightarrow> arrived T L F k 0"
  using assms unfolding flight_ok_def by blast+

lemma flight_past: "flight T L F j x k \<Longrightarrow> k < length T \<and> past (t_pc (T ! k)) j"
  by (simp add: flight_def)

lemma flight_new:
  assumes "same_req (T ! k) t'" and "k < length T" and "past (t_pc t') j" and "m_off x = start T k"
    and "m_bytes x = get_bytes L (start T k) (width (T ! k))" and "arrived T L F k 0"
  shows "flight (T[k := t']) L F j x k"
  using assms by (auto simp: flight_def start_req arrived_req dest: width_same)

lemma flight_ok_append:
  assumes "flight_ok T L F j ms" and "\<And>k. is_entry x j k \<Longrightarrow> flight T L F j x k \<and> (\<forall>i < length ms. \<not> is_entry (ms ! i) j k)"
  shows "flight_ok T L F j (ms @ [x])"
  using assms unfolding flight_ok_def by (auto simp: nth_append less_Suc_eq) 

lemma flight_ok_acks: "flight_ok T L F j ms \<Longrightarrow> \<forall>x \<in> set xs. m_kind x = MAck \<Longrightarrow> flight_ok T L F j (ms @ xs)"
proof (induction xs arbitrary: ms)
  case (Cons x xs)
  have "flight_ok T L F j (ms @ [x])"
    using Cons.prems by (intro flight_ok_append) (auto simp: is_entry_def)
  with Cons show ?case by (metis append.assoc append_Cons append_Nil list.set_intros(2))
qed simp

lemma foll_more: "foll_ok T cc F ms cm j p ex \<Longrightarrow> set ms \<subseteq> set ms' \<Longrightarrow> foll_ok T cc F ms' cm j p ex"
  unfolding foll_ok_def by blast

text \<open>New messages.\<close>

lemma cinv_net:
  assumes inv: "cinv base n ld c"
    and f: "\<And>j. j < n \<Longrightarrow> j \<noteq> ld \<Longrightarrow> flight_ok (threads c) (node_log c ld) (node_log c j) j (net c @ xs)"
    and d: "dst_ok n ld xs" and a: "ackmsg_ok n ld (threads c) (proc c) xs"
  shows "cinv base n ld (c\<lparr>net := net c @ xs\<rparr>)"
proof -
  let ?c = "c\<lparr>net := net c @ xs\<rparr>"
  have pr: "proc ?c = proc c" "committed ?c ld = committed c ld"
    by (simp_all add: proc_def committed_def fun_eq_iff)
  have c': "threads ?c = threads c" "net ?c = net c @ xs" "nodes ?c = nodes c" by simp_all
  have "dst_ok n ld (net c @ xs)" using cinvD(9) [OF inv] d by (auto simp: dst_ok_def)
  moreover have "ackmsg_ok n ld (threads c) (proc c) (net c @ xs)"
    using cinvD(10) [OF inv] a by (auto simp: ackmsg_ok_def)
  moreover have "foll_ok (threads c) (node_cc c j) (node_log c j) (net c @ xs) (committed c ld) j (proc c j) (nd_exec (nodes c j))"
    if "j < n" "j \<noteq> ld" for j
    using cinvD(11) [OF inv that] by (rule foll_more) simp
  ultimately show ?thesis
    using inv f unfolding cinv_def pr c' by blast
qed

lemma unat_offset: "k \<le> REGION_SIZE \<Longrightarrow> unat (ucast (of_nat k :: u32) :: u64) = k"
  by (simp add: unsigned_ucast_eq unsigned_of_nat take_bit_nat_eq_self layout_simps)

lemma leader_postD:
  assumes "leader_post sv m s i = Some p"
  shows "i \<noteq> unat (srv_idx sv)" "pa_server p = i"
    "pa_buf p = get_bytes m (s_entry s) (unat (log_entry_len m (s_entry s)))"
    "raddr (pa_rm p) = raddr (rmt_mr (servers sv ! i)) + ucast (s_offset s)"
  using assms by (auto simp: leader_post_def Let_def split: if_splits)

text \<open>A posted entry has not been sent to this peer before, and its slot there is still empty.\<close>

lemma cinv_post:
  assumes inv: "cinv base n ld c" and k: "k < length (threads c)" and t: "t = threads c ! k"
    and pc: "t_pc t = TPosting i" and i: "i < n"
    and pa: "leader_post (nd_srv (nodes c ld)) (node_log c ld) (t_slot t) i = pa"
  shows "cinv base n ld ((upd_thread c k (t\<lparr>t_pc := TPosting (Suc i)\<rparr>))\<lparr>net := net c @
          (case pa of None \<Rightarrow> [] | Some p \<Rightarrow> [msg_of base (MEntry k) p])\<rparr>)"
proof -
  let ?T = "threads c" let ?L = "node_log c ld" let ?t = "t\<lparr>t_pc := TPosting (Suc i)\<rparr>"
  let ?c = "upd_thread c k ?t"
  have req: "same_req (?T ! k) ?t" using t by (simp add: same_req_def)
  have inv1: "cinv base n ld ?c"
  proof (rule cinv_thread_only [OF inv k t])
    show "commit_ok n ld ((threads c)[k := ?t]) (committed c ld) (proc c)"
      using pc t by (intro commit_pc [OF cinvD(12) [OF inv] k]) auto
  qed (simp_all add: same_req_def pc)
  show ?thesis
  proof (cases pa)
    case None
    then show ?thesis using inv1 by (simp add: upd_thread_def)
  next
    case (Some p)
    let ?x = "msg_of base (MEntry k) p"
    have st: "static_ok base n ld ld (nodes c ld)" by (rule cinvD(3) [OF inv cinvD(1) [OF inv]])
    note sl = slot_at [OF inv k, folded t]
    have ds: "e_data_size ?L (start ?T k) = of_nat (t_size (?T ! k)) + 1" using sl(5) by (simp add: entry_ok_def)
    have len: "unat (log_entry_len ?L (start ?T k)) = width t"
      using entry_len(2) [OF cinvD(4) [OF inv] k ds] t by simp
    note lp = leader_postD [OF pa [unfolded Some]]
    have ild: "i \<noteq> ld" using lp(1) st cinvD(1,2) [OF inv] by (simp add: static_ok_def unat_small)
    have x: "m_kind ?x = MEntry k" "m_dst ?x = i" "m_off ?x = start ?T k" "m_bytes ?x = get_bytes ?L (start ?T k) (width t)"
      using lp(2-) sl(1,4) st i len unat_offset [of "start ?T k"]
      by (simp_all add: slot_ok_def msg_of_def static_ok_def)
    have none: "\<not> is_entry (net c ! a) i k" if "a < length (net c)" for a
      using flight_past [OF flight_okD(1) [OF cinvD(8) [OF inv i ild] that], of k] pc t by auto
    have fl: "flight_ok (threads ?c) (node_log ?c ld) (node_log ?c j) j (net ?c @ [?x])" if "j < n" "j \<noteq> ld" for j
    proof (rule flight_ok_append [OF cinvD(8) [OF inv1 that]])
      fix k' assume "is_entry ?x j k'"
      then have e: "k' = k" "j = i" using x by (auto simp: is_entry_def)
      have "arrived ?T ?L (node_log c i) k 0" by (rule flight_okD(3) [OF cinvD(8) [OF inv i ild] k none])
      then have "flight (?T[k := ?t]) ?L (node_log c i) i ?x k"
        by (intro flight_new [OF req k _ x(3) x(4) [unfolded t]]) simp
      then show "flight (threads ?c) (node_log ?c ld) (node_log ?c j) j ?x k' \<and> (\<forall>a < length (net ?c). \<not> is_entry (net ?c ! a) j k')"
        using none e by (simp add: upd_thread_def)
    qed
    have "cinv base n ld (?c\<lparr>net := net ?c @ [?x]\<rparr>)"
      using x(1,2) i ild by (intro cinv_net [OF inv1 fl]) (simp_all add: dst_ok_def ackmsg_ok_def)
    then show ?thesis using Some by (simp add: upd_thread_def)
  qed
qed

text \<open>A piece of an entry arrives.\<close>

definition advance :: "msg \<Rightarrow> nat \<Rightarrow> msg" where
  "advance x cnt = x\<lparr>m_off := m_off x + cnt, m_bytes := drop cnt (m_bytes x)\<rparr>"

lemma is_entry_advance [simp]: "is_entry (advance x cnt) j k = is_entry x j k"
  by (simp add: is_entry_def advance_def)

lemma flight_advance:
  assumes f: "flight T L F j x k" and cnt: "cnt \<le> length (m_bytes x)"
  shows "flight T L (put_bytes F (m_off x) (take cnt (m_bytes x))) j (advance x cnt) k"
    "unch (slot_set T k) F (put_bytes F (m_off x) (take cnt (m_bytes x)))"
proof -
  obtain c where c: "k < length T" "past (t_pc (T ! k)) j" "m_off x = start T k + c"
      "c + length (m_bytes x) = width (T ! k)"
      "\<forall>y < length (m_bytes x). E_MSG_VS \<le> c + y \<longrightarrow> m_bytes x ! y = L (start T k + c + y)"
      "arrived T L F k c"
    using f by (auto simp: flight_def)
  show "unch (slot_set T k) F (put_bytes F (m_off x) (take cnt (m_bytes x)))"
    using c(3,4) cnt by (intro unch_put_bytes) auto
  let ?F = "put_bytes F (m_off x) (take cnt (m_bytes x))"
  have "?F y = L y" if y: "start T k + E_MSG_VS \<le> y" "y < start T k + (c + cnt)" for y
  proof (cases "y < start T k + c")
    case True
    then show ?thesis using arrivedD(1) [OF c(6) y(1)] c(3) by (simp add: put_bytes_def)
  next
    case False
    then obtain z where z: "y = start T k + c + z" by (metis le_Suc_ex not_less)
    then show ?thesis using y cnt c(3,5) by (simp add: put_bytes_def)
  qed
  moreover have "?F y = 0" if "start T k + E_MSG_VS \<le> y" "start T k + (c + cnt) \<le> y" "y < start T k + width (T ! k)" for y
    using arrivedD(2) [OF c(6) that(1)] that cnt c(3) by (simp add: put_bytes_def)
  ultimately have "arrived T L ?F k (c + cnt)" by (auto simp: arrived_def)
  then show "flight T L ?F j (advance x cnt) k"
    using c cnt by (auto simp: flight_def advance_def add.assoc intro!: exI [of _ "c + cnt"])
qed

lemma flight_ok_deliver:
  assumes f: "flight_ok T L F j ms" and i: "i < length ms" and e: "is_entry (ms ! i) j k" and cnt: "cnt \<le> length (m_bytes (ms ! i))"
  shows "flight_ok T L (put_bytes F (m_off (ms ! i)) (take cnt (m_bytes (ms ! i)))) j (ms[i := advance (ms ! i) cnt])"
proof -
  let ?F = "put_bytes F (m_off (ms ! i)) (take cnt (m_bytes (ms ! i)))"
  let ?ms = "ms[i := advance (ms ! i) cnt]"
  have fl: "flight T L F j (ms ! i) k" using f i e unfolding flight_ok_def by blast
  then have k: "k < length T" by (simp add: flight_def)
  note adv = flight_advance [OF fl cnt]
  have ent: "is_entry (?ms ! a) j b \<longleftrightarrow> is_entry (ms ! a) j b" for a b by (simp add: nth_upd)
  have same: "same_on (start T b + E_MSG_VS) (width (T ! b) - E_MSG_VS) F ?F" if "b < length T" "b \<noteq> k" for b
    using slot_sets_disjoint [OF k that(1)] that(2) slot_parts(1) [of T b] by (intro unch_body [OF adv(2)]) blast
  have "flight T L ?F j (?ms ! a) b" if a: "a < length ms" "is_entry (ms ! a) j b" for a b
  proof (cases "a = i")
    case True
    then have "b = k" using a(2) e by (auto simp: is_entry_def)
    then show ?thesis using True a(1) adv(1) by simp
  next
    case False
    then have b: "b \<noteq> k" using f i e a unfolding flight_ok_def by blast
    have fb: "flight T L F j (ms ! a) b" using f a unfolding flight_ok_def by blast
    then have "b < length T" by (simp add: flight_def)
    then show ?thesis using False flight_same [OF fb same_on_refl same [OF _ b]] by simp
  qed
  moreover have "arrived T L ?F b 0" if b: "b < length T" "\<forall>a < length ms. \<not> is_entry (ms ! a) j b" for b
  proof -
    have "b \<noteq> k" using b(2) i e by blast
    moreover have "arrived T L F b 0" using f b unfolding flight_ok_def by blast
    ultimately show ?thesis using same [OF b(1)] by (auto intro: arrived_same)
  qed
  moreover have "a = b" if "a < length ms" "b < length ms" "is_entry (ms ! a) j k'" "is_entry (ms ! b) j k'" for a b k'
    using f that unfolding flight_ok_def by blast
  ultimately show ?thesis unfolding flight_ok_def ent by auto
qed

text \<open>A remote write into the log of one server.\<close>

lemma foll_write:
  assumes f: "foll_ok T cc F ms cm j p ex" and h: "log_end F' = log_end F" "log_len F' = log_len F"
    and m: "\<And>x k. x \<in> set ms \<Longrightarrow> is_entry x j k \<Longrightarrow> m_bytes x = [] \<Longrightarrow> \<exists>y \<in> set ms'. is_entry y j k \<and> m_bytes y = []"
  shows "foll_ok T cc F' ms' cm j p ex"
proof -
  have "\<exists>y \<in> set ms'. is_entry y j k \<and> m_bytes y = []" if "k < p" for k
    using f that m [of _ k] unfolding foll_ok_def by blast
  then show ?thesis using f unfolding foll_ok_def h by blast
qed

lemma cinv_write:
  assumes inv: "cinv base n ld c" and j: "j < n" and u: "unch S (node_log c j) F'"
    and S: "S \<inter> {0..<OFF_ENTRIES} = {}" "\<And>x. start (threads c) (length (threads c)) \<le> x \<Longrightarrow> x \<notin> S"
    and body: "\<And>k. j = ld \<Longrightarrow> k < length (threads c) \<Longrightarrow> S \<inter> body_set (threads c) k = {}"
    and acks: "j = ld \<Longrightarrow> acks_ok n ld (threads c) F' (proc c)"
    and fl: "\<And>i. i < n \<Longrightarrow> i \<noteq> ld \<Longrightarrow> flight_ok (threads c) (node_log c ld) (if i = j then F' else node_log c i) i ms"
    and net: "dst_ok n ld ms" "ackmsg_ok n ld (threads c) (proc c) ms"
      "\<And>x i k. x \<in> set (net c) \<Longrightarrow> is_entry x i k \<Longrightarrow> m_bytes x = [] \<Longrightarrow> \<exists>y \<in> set ms. is_entry y i k \<and> m_bytes y = []"
  shows "cinv base n ld ((upd_node c j (set_node_log (nodes c j) F'))\<lparr>net := ms\<rparr>)"
proof -
  let ?c = "(upd_node c j (set_node_log (nodes c j) F'))\<lparr>net := ms\<rparr>" let ?T = "threads c"
  let ?G = "\<lambda>i. if i = j then F' else node_log c i"
  have c': "threads ?c = ?T" "net ?c = ms" "\<And>i. node_log ?c i = ?G i" "\<And>i. node_cc ?c i = node_cc c i"
      "\<And>i. nd_exec (nodes ?c i) = nd_exec (nodes c i)"
    by (simp_all add: upd_node_def set_node_log_def)
  have pr: "proc ?c = proc c" "committed ?c ld = committed c ld"
    unfolding proc_def committed_def c' by simp_all
  have same: "same_on (start ?T k + E_MSG_VS) (width (?T ! k) - E_MSG_VS) (node_log c ld) (?G ld)" if "k < length ?T" for k
    using unch_body [OF u body [OF _ that]] by auto
  note h = unch_header [OF u S(1)]
  have hd: "log_end (?G i) = log_end (node_log c i)" "log_len (?G i) = log_len (node_log c i)" for i
    using h by auto
  have "static_ok base n ld i (nodes ?c i)" if "i < n" for i
    using cinvD(3) [OF inv that] static_log by (auto simp: upd_node_def)
  moreover have "geom ?T (?G ld) (node_cc c ld)" by (rule geom_same [OF cinvD(4) [OF inv] hd refl])
  moreover have "fresh ?T (?G i)" if "i < n" for i
    using cinvD(5) [OF inv that] fresh_same [OF _ u S(2), of ?T] by auto
  moreover have "leader_ok ld (committed c ld) ?T (?G ld)"
    using cinvD(6) [OF inv] entry_ok_same [OF _ same] unfolding leader_ok_def by blast
  moreover have "acks_ok n ld ?T (?G ld) (proc c)" using cinvD(7) [OF inv] acks by auto
  moreover have "flight_ok ?T (?G ld) (?G i) i ms" if "i < n" "i \<noteq> ld" for i
    by (rule flight_ok_same [OF fl [OF that] same]) simp_all
  moreover have "foll_ok ?T (node_cc c i) (?G i) ms (committed c ld) i (proc c i) (nd_exec (nodes c i))"
    if "i < n" "i \<noteq> ld" for i
    by (rule foll_write [OF cinvD(11) [OF inv that] hd net(3)])
  ultimately show ?thesis
    using cinvD(1,2,12,13) [OF inv] net(1,2) unfolding cinv_def pr c' by blast
qed

text \<open>The messages after a delivery.\<close>

lemma advance_net:
  assumes i: "i < length ms"
  shows "dst_ok n ld ms \<Longrightarrow> dst_ok n ld (ms[i := advance (ms ! i) cnt])"
    and "ackmsg_ok n ld T P ms \<Longrightarrow> m_kind (ms ! i) = MAck \<longrightarrow> length (m_bytes (ms ! i)) \<le> cnt \<Longrightarrow>
       ackmsg_ok n ld T P (ms[i := advance (ms ! i) cnt])"
    and "x \<in> set ms \<Longrightarrow> is_entry x j k \<Longrightarrow> m_bytes x = [] \<Longrightarrow>
       \<exists>y \<in> set (ms[i := advance (ms ! i) cnt]). is_entry y j k \<and> m_bytes y = []"
    and "flight_ok T L F j ms \<Longrightarrow> (\<And>k. \<not> is_entry (ms ! i) j k) \<Longrightarrow> flight_ok T L F j (ms[i := advance (ms ! i) cnt])"
proof -
  let ?ms = "ms[i := advance (ms ! i) cnt]"
  have at: "?ms ! a = (if a = i then advance (ms ! i) cnt else ms ! a)" for a using i by (simp add: nth_upd)
  have sub: "x = advance (ms ! i) cnt \<or> x \<in> set ms" if "x \<in> set ?ms" for x
    using that set_update_subset_insert [of ms i "advance (ms ! i) cnt"] by blast
  have adv: "m_kind (advance x cnt) = m_kind x" "m_dst (advance x cnt) = m_dst x" "m_bytes (advance x cnt) = drop cnt (m_bytes x)" for x
    by (simp_all add: advance_def)
  show "dst_ok n ld ms \<Longrightarrow> dst_ok n ld ?ms"
    unfolding dst_ok_def using sub adv(1,2) nth_mem [OF i] by metis
  show "ackmsg_ok n ld T P ms \<Longrightarrow> m_kind (ms ! i) = MAck \<longrightarrow> length (m_bytes (ms ! i)) \<le> cnt \<Longrightarrow> ackmsg_ok n ld T P ?ms"
    unfolding ackmsg_ok_def ackmsg_def using sub adv(1,3) drop_all by metis
  show "\<exists>y \<in> set ?ms. is_entry y j k \<and> m_bytes y = []" if "x \<in> set ms" "is_entry x j k" "m_bytes x = []"
  proof -
    obtain a where a: "a < length ms" "x = ms ! a" using \<open>x \<in> set ms\<close> by (metis in_set_conv_nth)
    then have "is_entry (?ms ! a) j k \<and> m_bytes (?ms ! a) = []" using that(2,3) unfolding at by (auto simp: adv is_entry_def)
    then show ?thesis using a(1) by (metis length_list_update nth_mem)
  qed
  have ent: "is_entry (?ms ! a) j k = is_entry (ms ! a) j k" for a k by (simp add: at)
  show "flight_ok T L F j ms \<Longrightarrow> (\<And>k. \<not> is_entry (ms ! i) j k) \<Longrightarrow> flight_ok T L F j ?ms"
    unfolding flight_ok_def ent length_list_update by (metis at)
qed

lemma cinv_deliver_entry:
  assumes inv: "cinv base n ld c" and i: "i < length (net c)" and kind: "m_kind (net c ! i) = MEntry k"
    and cnt: "cnt \<le> length (m_bytes (net c ! i))" and j: "j = m_dst (net c ! i)"
  shows "cinv base n ld ((upd_node c j (set_node_log (nodes c j)
     (put_bytes (node_log c j) (m_off (net c ! i)) (take cnt (m_bytes (net c ! i))))))\<lparr>net := (net c)[i := advance (net c ! i) cnt]\<rparr>)"
proof -
  let ?x = "net c ! i"
  have jn: "j < n" "j \<noteq> ld" using cinvD(9) [OF inv] i kind nth_mem [OF i] j unfolding dst_ok_def by blast+
  have e: "is_entry ?x j k" using kind j by (simp add: is_entry_def)
  note fl = flight_okD(1) [OF cinvD(8) [OF inv jn] i e]
  have k: "k < length (threads c)" using flight_past [OF fl] by simp
  show ?thesis
  proof (rule cinv_write [OF inv jn(1) flight_advance(2) [OF fl cnt] slot_header slot_fresh [OF k]])
    show "flight_ok (threads c) (node_log c ld)
        (if a = j then put_bytes (node_log c j) (m_off ?x) (take cnt (m_bytes ?x)) else node_log c a) a
        ((net c)[i := advance ?x cnt])" if a: "a < n" "a \<noteq> ld" for a
    proof (cases "a = j")
      case True
      then show ?thesis using flight_ok_deliver [OF cinvD(8) [OF inv jn] i e cnt] by simp
    next
      case False
      then have "\<not> is_entry ?x a k'" for k' using j by (auto simp: is_entry_def)
      then show ?thesis using False advance_net(4) [OF i cinvD(8) [OF inv a]] by simp
    qed
    show "dst_ok n ld ((net c)[i := advance ?x cnt])" by (rule advance_net(1) [OF i cinvD(9) [OF inv]])
    show "ackmsg_ok n ld (threads c) (proc c) ((net c)[i := advance ?x cnt])"
      using kind by (intro advance_net(2) [OF i cinvD(10) [OF inv]]) simp
    show "\<exists>y \<in> set ((net c)[i := advance ?x cnt]). is_entry y a b \<and> m_bytes y = []"
      if "x \<in> set (net c)" "is_entry x a b" "m_bytes x = []" for x a b
      by (rule advance_net(3) [OF i that])
  qed (use jn in simp_all)
qed

text \<open>An acknowledgement arrives at the leader.\<close>

lemma acks_arrive:
  assumes a: "acks_ok n ld T L P" and k: "k < length T" and j: "j < n" "n \<le> MAX_SERVER_COUNT" "j \<noteq> ld" "k < P j"
    and bs: "is_ack bs j k"
  shows "acks_ok n ld T (put_bytes L (start T k + ACCEPT_ACK_SIZE * j) bs) P"
    "unch (acks_set T k) L (put_bytes L (start T k + ACCEPT_ACK_SIZE * j) bs)"
proof -
  let ?a = "start T k + ACCEPT_ACK_SIZE * j" let ?L = "put_bytes L ?a bs"
  have len: "length bs = ACCEPT_ACK_SIZE" using bs by (simp add: is_ack_def)
  show "unch (acks_set T k) L ?L" using len j(1,2) by (intro unch_put_bytes) (auto simp: layout_simps)
  have u: "unch {?a..<?a + ACCEPT_ACK_SIZE} L ?L" using len by (intro unch_put_bytes) simp
  have "ack_msg_vs ?L (start T i) b = ack_msg_vs L (start T i) b \<and> ack_node_id ?L (start T i) b = ack_node_id L (start T i) b"
    if "i < length T" "b < MAX_SERVER_COUNT" "i \<noteq> k \<or> b \<noteq> j" for i b
  proof (cases "i = k")
    case True
    then have "b \<noteq> j" using that by simp
    then have "ACCEPT_ACK_SIZE * b + ACCEPT_ACK_SIZE \<le> ACCEPT_ACK_SIZE * j \<or> ACCEPT_ACK_SIZE * j + ACCEPT_ACK_SIZE \<le> ACCEPT_ACK_SIZE * b"
      by (cases "b < j") (auto simp: layout_simps)
    then show ?thesis unfolding True ack_msg_vs_def ack_node_id_def
      using len by (auto intro!: same_on_get_vs same_on_get_u32 same_on_put simp: ack_off_def layout_simps)
  next
    case False
    have "{?a..<?a + ACCEPT_ACK_SIZE} \<subseteq> slot_set T k" using j(1,2) width_ge(1) [of "T ! k"] by (auto simp: layout_simps)
    then have "{?a..<?a + ACCEPT_ACK_SIZE} \<inter> acks_set T i = {}"
      using slot_sets_disjoint [OF that(1) k False] slot_parts(2) [of T i] by blast
    then show ?thesis using ack_unch [OF u _ that(2)] by blast
  qed
  moreover have "ack_node_id ?L (start T k) j = of_nat j"
    using bs by (simp add: is_ack_def ack_node_id_def ack_off_def)
  ultimately show "acks_ok n ld T ?L P"
    using a j k unfolding acks_ok_def by metis
qed

lemma cinv_deliver_ack:
  assumes inv: "cinv base n ld c" and i: "i < length (net c)" and kind: "m_kind (net c ! i) = MAck"
    and j: "j = m_dst (net c ! i)" and bs: "bs = m_bytes (net c ! i)"
  shows "cinv base n ld ((upd_node c j (set_node_log (nodes c j)
     (put_bytes (node_log c j) (m_off (net c ! i)) bs)))\<lparr>net := (net c)[i := advance (net c ! i) (length bs)]\<rparr>)"
proof -
  let ?x = "net c ! i" let ?ms = "(net c)[i := advance ?x (length bs)]" let ?T = "threads c"
  have nf: "\<not> is_entry ?x a b" for a b using kind by (simp add: is_entry_def)
  have ms: "dst_ok n ld ?ms" "ackmsg_ok n ld ?T (proc c) ?ms"
    "\<And>x a b. x \<in> set (net c) \<Longrightarrow> is_entry x a b \<Longrightarrow> m_bytes x = [] \<Longrightarrow> \<exists>y \<in> set ?ms. is_entry y a b \<and> m_bytes y = []"
    "\<And>a. a < n \<Longrightarrow> a \<noteq> ld \<Longrightarrow> flight_ok ?T (node_log c ld) (node_log c a) a ?ms"
    using bs by (auto intro!: advance_net [OF i] cinvD [OF inv] nf)
  have x: "ackmsg n ld ?T (proc c) ?x" using cinvD(10) [OF inv] kind nth_mem [OF i] unfolding ackmsg_ok_def by blast
  show ?thesis
  proof (cases "bs = []")
    case True
    have "cinv base n ld ((upd_node c ld (set_node_log (nodes c ld) (node_log c ld)))\<lparr>net := ?ms\<rparr>)"
      by (rule cinv_write [OF inv cinvD(1) [OF inv], where S = "{}"])
        (use ms cinvD(7) [OF inv] in \<open>simp_all\<close>)
    moreover have "upd_node c b (set_node_log (nodes c b) (node_log c b)) = c" for b
      by (simp add: upd_node_def set_node_log_def)
    ultimately show ?thesis using True by simp
  next
    case False
    then obtain b k where b: "k < length ?T" "b < n" "b \<noteq> ld" "k < proc c b" "j = ld"
        "m_off ?x = start ?T k + ACCEPT_ACK_SIZE * b" "is_ack bs b k"
      using x bs j by (auto simp: ackmsg_def)
    note ar = acks_arrive [OF cinvD(7) [OF inv] b(1,2) cinvD(2) [OF inv] b(3,4,7)]
    have "acks_set ?T k \<inter> body_set ?T a = {}" if "a < length ?T" for a
      using slot_sets_disjoint [OF b(1) that] slot_parts [of ?T k] slot_parts(1) [of ?T a] by (cases "a = k") blast+
    moreover have "acks_set ?T k \<inter> {0..<OFF_ENTRIES} = {}" using slot_header [of ?T k] slot_parts(2) [of ?T k] by blast
    moreover have "x \<notin> acks_set ?T k" if "start ?T (length ?T) \<le> x" for x
      using slot_fresh [OF b(1) that] slot_parts(2) [of ?T k] by blast
    ultimately have "cinv base n ld ((upd_node c ld (set_node_log (nodes c ld)
        (put_bytes (node_log c ld) (start ?T k + ACCEPT_ACK_SIZE * b) bs)))\<lparr>net := ?ms\<rparr>)"
      using ms by (intro cinv_write [OF inv cinvD(1) [OF inv] ar(2)]) (simp_all add: ar(1))
    then show ?thesis using b(5,6) by simp
  qed
qed

section \<open>The follower\<close>

lemma cinv_follower:
  assumes inv: "cinv base n ld c" and j: "j < n" "j \<noteq> ld" and st: "static_ok base n ld j nd"
    and u: "unch S (node_log c j) (srv_log (nd_srv nd))" "\<And>k. k < length (threads c) \<Longrightarrow> S \<inter> body_set (threads c) k = {}"
      "\<And>x. start (threads c) (length (threads c)) \<le> x \<Longrightarrow> x \<notin> S"
    and P: "P = (proc c)(j := unat (req_id (highest_seen_vs (nd_cc nd))))" "proc c j \<le> P j"
    and xs: "\<forall>x \<in> set xs. m_kind x = MAck \<and> ackmsg n ld (threads c) P x"
    and f: "foll_ok (threads c) (nd_cc nd) (srv_log (nd_srv nd)) (net c @ xs) (committed c ld) j (P j) (nd_exec nd)"
  shows "cinv base n ld ((upd_node c j nd)\<lparr>net := net c @ xs\<rparr>)"
proof -
  let ?c = "(upd_node c j nd)\<lparr>net := net c @ xs\<rparr>" let ?T = "threads c"
  let ?N = "\<lambda>i. if i = j then nd else nodes c i"
  have c': "threads ?c = ?T" "net ?c = net c @ xs" "\<And>i. nodes ?c i = ?N i" "?N ld = nodes c ld"
    using j(2) by (simp_all add: upd_node_def)
  have pr: "proc ?c = P" "committed ?c ld = committed c ld"
    using j(2) by (auto simp: proc_def committed_def fun_eq_iff upd_node_def P(1))
  have le: "proc c i \<le> P i" for i using P by (cases "i = j") auto
  have "static_ok base n ld i (?N i)" if "i < n" for i
    using cinvD(3) [OF inv that] st by simp
  moreover have "fresh ?T (srv_log (nd_srv (?N i)))" if "i < n" for i
    using cinvD(5) [OF inv that] fresh_same [OF _ u(1) u(3), of ?T] by auto
  moreover have "acks_ok n ld ?T (node_log c ld) P" by (rule acks_mono [OF cinvD(7) [OF inv] le])
  moreover have "flight_ok ?T (node_log c ld) (srv_log (nd_srv (?N i))) i (net c @ xs)" if "i < n" "i \<noteq> ld" for i
  proof (rule flight_ok_acks)
    show "flight_ok ?T (node_log c ld) (srv_log (nd_srv (?N i))) i (net c)"
      using unch_body [OF u(1,2)] by (intro flight_ok_same [OF cinvD(8) [OF inv that]]) simp_all
    show "\<forall>x \<in> set xs. m_kind x = MAck" using xs by blast
  qed
  moreover have "dst_ok n ld (net c @ xs)" using cinvD(9) [OF inv] xs by (auto simp: dst_ok_def)
  moreover have "ackmsg_ok n ld ?T P (net c @ xs)"
    using ackmsg_mono [OF cinvD(10) [OF inv] le] xs by (auto simp: ackmsg_ok_def)
  moreover have "foll_ok ?T (nd_cc (?N i)) (srv_log (nd_srv (?N i))) (net c @ xs) (committed c ld) i (P i) (nd_exec (?N i))"
    if "i < n" "i \<noteq> ld" for i
    using f foll_more [OF cinvD(11) [OF inv that], of "net c @ xs"] by (simp add: P(1))
  moreover have "commit_ok n ld ?T (committed c ld) P" by (rule commit_mono [OF cinvD(12) [OF inv] le])
  ultimately show ?thesis
    using cinvD(1,2,4,6,13) [OF inv] unfolding cinv_def pr c' by blast
qed

text \<open>Where the follower looks for its next entry.\<close>

lemma unat_log_off: "x \<le> unat LOG_SIZE \<Longrightarrow> unat (of_nat x :: u64) = x"
  by (simp add: unsigned_of_nat take_bit_nat_eq_self layout_simps)

lemma next_entry:
  assumes f: "foll_ok T cc F ms cm j p ex" and g: "geom T L cc'"
  shows "log_get_entry F (log_end F) = (of_nat (start T p - OFF_ENTRIES), start T p)"
    "p \<le> length T" "start T p + ENTRY_SIZE \<le> REGION_SIZE" "log_len F = LOG_SIZE"
proof -
  show p: "p \<le> length T" and len: "log_len F = LOG_SIZE" using f by (simp_all add: foll_ok_def)
  then show b: "start T p + ENTRY_SIZE \<le> REGION_SIZE"
    using geom_bound(1) [OF g] start_mono [of p "length T" T] by simp
  consider "log_end F = of_nat (start T p - OFF_ENTRIES)" | "p = 0" "log_end F = LOG_SIZE"
    using f by (auto simp: foll_ok_def)
  then show "log_get_entry F (log_end F) = (of_nat (start T p - OFF_ENTRIES), start T p)"
  proof cases
    case 1
    have off: "unat (log_end F) = start T p - OFF_ENTRIES"
      unfolding 1 using b by (intro unat_log_off) (simp add: layout_simps)
    then have "log_fit_entry_header F (log_end F)"
      using b by (subst log_fit_iff [OF len]) (simp_all add: layout_simps)
    then show ?thesis using off 1 start_ge [of T p] by (simp add: log_get_entry_def)
  next
    case 2
    then have "\<not> log_fit_entry_header F (log_end F)" by (subst log_fit_iff [OF len]) (simp_all add: layout_simps)
    then show ?thesis using 2 by (simp add: log_get_entry_def)
  qed
qed

text \<open>A complete entry is the next request, and every byte of it has arrived.\<close>

lemma complete_next:
  assumes inv: "cinv base n ld c" and j: "j < n" "j \<noteq> ld" and p: "p = proc c j"
    and cmp: "entry_complete (node_log c j) (start (threads c) p)"
  shows "p < length (threads c)" "posted (t_pc (threads c ! p))"
    "arrived (threads c) (node_log c ld) (node_log c j) p (width (threads c ! p))"
    "\<exists>x \<in> set (net c). is_entry x j p \<and> m_bytes x = []"
proof -
  let ?T = "threads c" let ?F = "node_log c j"
  have f: "foll_ok ?T (node_cc c j) ?F (net c) (committed c ld) j p (nd_exec (nodes c j))"
    unfolding p by (rule cinvD(11) [OF inv j])
  have g: "geom ?T (node_log c ld) (node_cc c ld)" by (rule cinvD(4) [OF inv])
  show pl: "p < length ?T"
  proof (rule ccontr)
    assume "\<not> p < length ?T"
    then have "p = length ?T" using next_entry(2) [OF f g] by simp
    then have "get_u64 ?F (start ?T p + E_DATA_SIZE) = 0"
      using cinvD(5) [OF inv j(1)] by (intro get_u64_zero) (simp add: fresh_def)
    with cmp show False by (simp add: entry_complete_def e_data_size_def)
  qed
  have e: "entry_ok ld (committed c ld) ?T (node_log c ld) p" by (rule slot_at(5) [OF inv pl])
  note fl = flight_okD [OF cinvD(8) [OF inv j]]
  have "\<exists>i < length (net c). is_entry (net c ! i) j p"
  proof (rule ccontr)
    assume "\<not> (\<exists>i < length (net c). is_entry (net c ! i) j p)"
    then have "arrived ?T (node_log c ld) ?F p 0" by (intro fl(3) [OF pl]) blast
    from complete_arrived [OF g pl e this _ cmp] show False using width_ge(2) [of "?T ! p"] by simp
  qed
  then obtain i where i: "i < length (net c)" "is_entry (net c ! i) j p" by blast
  from fl(1) [OF i] obtain x where x: "past (t_pc (?T ! p)) j" "x + length (m_bytes (net c ! i)) = width (?T ! p)"
      "arrived ?T (node_log c ld) ?F p x"
    unfolding flight_def by blast
  have w: "x = width (?T ! p)" using x(2) by (intro complete_arrived [OF g pl e x(3) _ cmp]) simp
  show "posted (t_pc (?T ! p))" by (rule past_posted [OF x(1)])
  show "arrived ?T (node_log c ld) ?F p (width (?T ! p))" using x(3) w by simp
  show "\<exists>x \<in> set (net c). is_entry x j p \<and> m_bytes x = []" using i x(2) w nth_mem [OF i(1)] by auto
qed

text \<open>What the follower reads from it.\<close>

lemma arrived_fields:
  assumes g: "geom T L cc" and k: "k < length T" and e: "entry_ok ld cm T L k" and po: "posted (t_pc (T ! k))"
    and a: "arrived T L F k (width (T ! k))"
  shows "e_msg_vs F (start T k) = stamp (Suc k)" "e_node_id F (start T k) = of_nat ld"
    "\<exists>v. v \<le> cm \<and> v \<le> k \<and> e_canbe F (start T k) = stamp v"
    "unat (log_entry_len F (start T k)) = width (T ! k)"
    "e_data_size F (start T k) = of_nat (t_size (T ! k)) + 1" "entry_has F (start T k) (T ! k)"
proof -
  note s = arrived_same_on [OF a]
  note b = same_on_body [OF body_same [OF arrived_same_on [OF a] less_imp_le [OF width_ge(1)]]]
  show "e_data_size F (start T k) = of_nat (t_size (T ! k)) + 1" using e b by (simp add: entry_ok_def)
  then show "unat (log_entry_len F (start T k)) = width (T ! k)" by (rule entry_len(2) [OF g k])
  show "e_msg_vs F (start T k) = stamp (Suc k)" "e_node_id F (start T k) = of_nat ld"
    "\<exists>v. v \<le> cm \<and> v \<le> k \<and> e_canbe F (start T k) = stamp v"
    "entry_has F (start T k) (T ! k)"
    using e po posted_filled [OF po] entry_has_same [OF s b(5), of "T ! k"] unfolding b by (simp_all add: entry_ok_def width_def)
qed

text \<open>The acknowledgement.\<close>

lemma put_ack_ok:
  assumes j: "j < MAX_SERVER_COUNT" and m': "m' = put_ack m e (of_nat j) (stamp (Suc k)) h"
  shows "unch {ack_off e j..<ack_off e j + ACCEPT_ACK_SIZE} m m'" "is_ack (get_bytes m' (ack_off e j) ACCEPT_ACK_SIZE) j k"
proof -
  let ?r = "ack_off e j"
  have u: "unat (of_nat j :: u32) = j" using j by (intro unat_req_stamp) (simp add: layout_simps)
  define m1 where "m1 = put_u32 m (?r + 8) (of_nat j)"
  define m2 where "m2 = put_vs m1 ?r (stamp (Suc k))"
  have m'': "m' = (case h of None \<Rightarrow> m2 | Some v \<Rightarrow> put_u64 m2 (?r + 16) v)"
    by (cases h) (simp_all add: m' put_ack_def Let_def u m1_def m2_def layout_simps)
  let ?S = "{?r..<?r + ACCEPT_ACK_SIZE}"
  have "unch ?S m m1" "unch ?S m1 m2" by (simp_all add: m1_def m2_def unch_put_words layout_simps)
  moreover have h: "unch {?r + 16..<?r + 24} m2 m'" by (cases h) (simp_all add: m'' unch_put_words)
  ultimately show "unch ?S m m'"
    using unch_mono [OF h, of ?S] unch_trans [of ?S m m1 m2] unch_trans [of ?S m m2 m'] by (simp add: layout_simps)
  have "same_on ?r 16 m2 m'" by (rule unch_same_on [OF h]) auto
  note sub = same_on_sub [OF this]
  have g: "get_u32 m' ?r = 1" "get_u32 m' (?r + 4) = of_nat (Suc k)" "get_u32 m' (?r + 8) = of_nat j"
    using same_on_get_u32 [OF sub [of ?r 4]] same_on_get_u32 [OF sub [of "?r + 4" 4]] same_on_get_u32 [OF sub [of "?r + 8" 4]]
    by (simp_all add: m2_def m1_def put_vs_def mem_simps del: of_nat_Suc)
  have b: "get_bytes (put_bytes m1 a (get_bytes m' ?r 24)) (a + o') l = get_bytes m' (?r + o') l"
    if "o' + l \<le> 24" for m1 a o' l
    using that by (intro nth_equalityI) (simp_all add: put_bytes_def add.assoc)
  have "get_u32 (put_bytes m1 a (get_bytes m' ?r 24)) (a + o') = get_u32 m' (?r + o')" if "o' + 4 \<le> 24" for m1 a o'
    using b [OF that] by (simp add: get_u32_def)
  from this [of 0] this [of 4] this [of 8] show "is_ack (get_bytes m' ?r ACCEPT_ACK_SIZE) j k"
    using g by (simp add: is_ack_def layout_simps get_vs_def stamp_def del: of_nat_Suc)
qed

text \<open>The executed requests.\<close>

lemma apply_committed_ok:
  assumes a: "apply_committed cc (stamp v) = Some (cc', ixs)" and hc: "highest_committed_vs cc = stamp cj"
    and b: "v < 2 ^ 28" "cj < 2 ^ 28"
  shows "highest_committed_vs cc' = stamp (max cj v)" "ixs = map (\<lambda>i. vstol (stamp i)) [Suc cj..<Suc (max cj v)]"
    "cc' = cc\<lparr>highest_committed_vs := stamp (max cj v)\<rparr>"
proof -
  have vs: "unat (vstol (stamp i)) = 2 ^ 32 + i" if "i < 2 ^ 28" for i
    using that by (intro unat_vstol_stamp) simp
  have "ixs = map (\<lambda>i. vstol (stamp i)) [Suc cj..<Suc (max cj v)] \<and> cc' = cc\<lparr>highest_committed_vs := stamp (max cj v)\<rparr>"
  proof (cases "cj < v")
    case True
    have st: "unat (vstol (stamp cj) + 1) = 2 ^ 32 + Suc cj"
      using vs [OF b(2)] b(2) by (simp add: unat_word_ariths)
    have w: "vstol (stamp i) = of_nat (2 ^ 32 + i)" if "i \<le> v" for i
    proof -
      have "vstol (stamp i) = of_nat (unat (vstol (stamp i)))" by simp
      also have "unat (vstol (stamp i)) = 2 ^ 32 + i" using that b(1) by (intro vs) simp
      finally show ?thesis .
    qed
    have eq: "map word_of_nat [2 ^ 32 + Suc cj..<Suc (2 ^ 32 + v)] = map (\<lambda>i. vstol (stamp i)) [Suc cj..<Suc v]"
    proof (rule nth_equalityI)
      fix i assume "i < length (map word_of_nat [2 ^ 32 + Suc cj..<Suc (2 ^ 32 + v)] :: u64 list)"
      then have i: "i < v - cj" by simp
      then have "map word_of_nat [2 ^ 32 + Suc cj..<Suc (2 ^ 32 + v)] ! i = (of_nat (2 ^ 32 + (Suc cj + i)) :: u64)"
        by (simp del: upt_Suc)
      then show "map word_of_nat [2 ^ 32 + Suc cj..<Suc (2 ^ 32 + v)] ! i = map (\<lambda>i. vstol (stamp i)) [Suc cj..<Suc v] ! i"
        using i w [of "Suc cj + i"] by (simp del: upt_Suc)
    qed (simp del: upt_Suc)
    show ?thesis
      using a True hc b unfolding apply_committed_def exec_range_def
      by (auto simp: stamp_comp_pos st vs eq [simplified] max_def split: if_splits)
  next
    case False
    then show ?thesis using a hc b by (auto simp: apply_committed_def stamp_comp_pos max_def)
  qed
  then show "highest_committed_vs cc' = stamp (max cj v)" "ixs = map (\<lambda>i. vstol (stamp i)) [Suc cj..<Suc (max cj v)]"
    "cc' = cc\<lparr>highest_committed_vs := stamp (max cj v)\<rparr>" by simp_all
qed

lemma accept_entryD:
  assumes "accept_entry B ug cc sv out e = Some r" and "m = srv_log sv"
  obtains h post where
    "accept_post sv (put_ack (set_end (set_tail m (log_end m)) (log_end m + ucast (log_entry_len (set_tail m (log_end m)) e)))
        e (cc_node_id cc) (e_msg_vs m e) h) e (cc_node_id cc)
        (ucast (of_nat OFF_ENTRIES + log_end m + of_nat ACCEPT_ACK_SIZE * ucast (cc_node_id cc))) = Some (ar_srv r, post)"
    "ar_posts r = [post]" "apply_committed (accept_store B cc m e) (e_canbe m e) = Some (ar_cc r, ar_exec r)"
  using assms unfolding accept_entry_def Let_def by (auto split: bind_splits)

lemma accept_store_fields:
  "highest_seen_vs (accept_store B cc m e) =
     (if view_stamp_comp (e_msg_vs m e) (highest_seen_vs cc) > 0 then e_msg_vs m e else highest_seen_vs cc)"
  "highest_committed_vs (accept_store B cc m e) = highest_committed_vs cc" "cc_node_id (accept_store B cc m e) = cc_node_id cc"
  "cc_group_size (accept_store B cc m e) = cc_group_size cc" "cur_view (accept_store B cc m e) = cur_view cc"
  "db_ptr (accept_store B cc m e) = snd (store_record B (db_ptr cc) (db_key (vstol (e_msg_vs m e))) (record_bytes m e))"
  by (simp_all add: accept_store_def Let_def)

lemma accept_postD:
  assumes "accept_post sv m e my_id offset = Some (sv', post)" and "j = unat (e_node_id m e)"
  shows "srv_log sv' = m" "srv_idx sv' = srv_idx sv" "length (servers sv') = length (servers sv)"
    "rmt_mr (servers sv' ! i) = rmt_mr (servers sv ! i)" "pa_server post = j"
    "pa_buf post = get_bytes m (ack_off e (unat my_id)) ACCEPT_ACK_SIZE"
    "raddr (pa_rm post) = raddr (rmt_mr (servers sv ! j)) + ucast offset"
  using assms by (auto simp: accept_post_def Let_def nth_upd split: if_splits)

text \<open>The offset of the acknowledgement in the leader's log.\<close>

lemma ack_offset:
  assumes e: "OFF_ENTRIES \<le> e" "e \<le> REGION_SIZE" and j: "j < MAX_SERVER_COUNT"
  shows "unat (ucast (ucast (of_nat OFF_ENTRIES + of_nat (e - OFF_ENTRIES) + of_nat ACCEPT_ACK_SIZE * ucast (of_nat j :: u32) :: u64) :: u32) :: u64)
     = ack_off e j"
proof -
  have "(ucast (of_nat j :: u32) :: u64) = of_nat j"
    using j by (simp add: word_eq_iff_unsigned unsigned_ucast_eq unsigned_of_nat take_bit_nat_eq_self layout_simps)
  then have "of_nat OFF_ENTRIES + of_nat (e - OFF_ENTRIES) + of_nat ACCEPT_ACK_SIZE * ucast (of_nat j :: u32) = (of_nat (ack_off e j) :: u64)"
    using e(1) by (simp add: ack_off_def flip: of_nat_add of_nat_mult)
  moreover have "ack_off e j < 2 ^ 32" using e(2) j by (simp add: ack_off_def layout_simps)
  ultimately show ?thesis by (simp add: unsigned_ucast_eq unsigned_of_nat take_bit_nat_eq_self)
qed

lemma accept_log_ok:
  assumes e: "OFF_ENTRIES \<le> e" "e + w \<le> REGION_SIZE" and j: "j < MAX_SERVER_COUNT"
    and end_m: "log_end m = of_nat (e - OFF_ENTRIES)" and len: "unat (log_entry_len m e) = w"
    and m3: "m3 = put_ack (set_end (set_tail m (log_end m)) (log_end m + ucast (log_entry_len (set_tail m (log_end m)) e)))
        e (of_nat j) (stamp (Suc k)) h"
  shows "unch ({0..<OFF_ENTRIES} \<union> {ack_off e j..<ack_off e j + ACCEPT_ACK_SIZE}) m m3"
    "log_end m3 = of_nat (e + w - OFF_ENTRIES)" "log_len m3 = log_len m" "e_node_id m3 e = e_node_id m e"
    "is_ack (get_bytes m3 (ack_off e j) ACCEPT_ACK_SIZE) j k"
proof -
  let ?m1 = "set_tail m (log_end m)" let ?A = "{ack_off e j..<ack_off e j + ACCEPT_ACK_SIZE}" let ?S = "{0..<OFF_ENTRIES} \<union> ?A"
  define m2 where "m2 = set_end ?m1 (log_end m + ucast (log_entry_len ?m1 e))"
  note pa = put_ack_ok [OF j m3 [folded m2_def]]
  have body: "same_on (e + E_MSG_VS) (ENTRY_SIZE - E_MSG_VS) x y" if "unch ?S x y" for x y
    using e(1) j by (intro unch_same_on [OF that]) (auto simp: layout_simps ack_off_def)
  have u1: "unch ?S m ?m1" and u2: "unch ?S ?m1 m2" and u3: "unch ?S m2 m3"
    using unch_mono [OF unch_set(2), of ?S] unch_mono [OF unch_set(1), of ?S] unch_mono [OF pa(1), of ?S]
    by (simp_all add: m2_def)
  show u: "unch ?S m m3" by (rule unch_trans [OF unch_trans [OF u1 u2] u3])
  show "e_node_id m3 e = e_node_id m e" by (rule same_on_body(3) [OF body [OF u]])
  show "is_ack (get_bytes m3 (ack_off e j) ACCEPT_ACK_SIZE) j k" by (rule pa(2))
  have "?A \<inter> {0..<OFF_ENTRIES} = {}" using e(1) by (auto simp: ack_off_def)
  note h = unch_header [OF pa(1) this]
  show "log_len m3 = log_len m" using h(2) by (simp add: m2_def)
  have "log_entry_len ?m1 e = log_entry_len m e" by (rule same_on_body(7) [OF body [OF u1]])
  then have "(ucast (log_entry_len ?m1 e) :: u64) = of_nat w"
    using len by (metis of_nat_unat)
  then show "log_end m3 = of_nat (e + w - OFF_ENTRIES)"
    using h(1) end_m e(1) by (simp add: m2_def flip: of_nat_add)
qed

lemma exec_append: "cj \<le> v \<Longrightarrow> map f [1..<Suc cj] @ map f [Suc cj..<Suc v] = map f [1..<Suc v]"
  using upt_add_eq_append [of 1 "Suc cj" "v - cj"] by (simp del: upt_Suc flip: map_append)

text \<open>What a follower has done after a complete entry.\<close>

definition accepted :: "(nat \<Rightarrow> u64) \<Rightarrow> nat \<Rightarrow> 'd cluster \<Rightarrow> nat \<Rightarrow> nat \<Rightarrow> 'd accept_result \<Rightarrow> bool" where
  "accepted base ld c j p r \<longleftrightarrow>
     (let e = start (threads c) p; w = width (threads c ! p); F = node_log c j; m3 = srv_log (ar_srv r) in
      unch ({0..<OFF_ENTRIES} \<union> {ack_off e j..<ack_off e j + ACCEPT_ACK_SIZE}) F m3 \<and>
      log_end m3 = of_nat (e + w - OFF_ENTRIES) \<and> log_len m3 = log_len F \<and>
      srv_idx (ar_srv r) = srv_idx (nd_srv (nodes c j)) \<and> length (servers (ar_srv r)) = length (servers (nd_srv (nodes c j))) \<and>
      (\<forall>i. rmt_mr (servers (ar_srv r) ! i) = rmt_mr (servers (nd_srv (nodes c j)) ! i)) \<and>
      (\<exists>post. ar_posts r = [post] \<and> pa_server post = ld \<and> is_ack (pa_buf post) j p \<and>
         m_off (msg_of base MAck post) = e + ACCEPT_ACK_SIZE * j) \<and>
      highest_seen_vs (ar_cc r) = stamp (Suc p) \<and> cc_node_id (ar_cc r) = cc_node_id (node_cc c j) \<and>
      cc_group_size (ar_cc r) = cc_group_size (node_cc c j) \<and> cur_view (ar_cc r) = cur_view (node_cc c j) \<and>
      (\<exists>cj v. v \<le> committed c ld \<and> v \<le> p \<and> cj \<le> committed c ld \<and> cj \<le> p \<and>
         highest_committed_vs (ar_cc r) = stamp (max cj v) \<and>
         nd_exec (nodes c j) @ ar_exec r = map (\<lambda>i. vstol (stamp i)) [1..<Suc (max cj v)]))"

lemma accept_entry_facts:
  assumes inv: "cinv base n ld c" and j: "j < n" "j \<noteq> ld" and p: "p = proc c j"
    and cmp: "entry_complete (node_log c j) (start (threads c) p)"
    and m: "m = set_end (node_log c j) (of_nat (start (threads c) p - OFF_ENTRIES))"
    and sv: "sv = (nd_srv (nodes c j))\<lparr>srv_log := m\<rparr>"
    and A: "accept_entry B ug (node_cc c j) sv out (start (threads c) p) = Some r"
  shows "accepted base ld c j p r"
proof -
  let ?T = "threads c" let ?F = "node_log c j" let ?e = "start ?T p" let ?cc = "node_cc c j" let ?w = "width (?T ! p)"
  note nx = complete_next [OF inv j p cmp]
  note sl = slot_at [OF inv nx(1)] and g = cinvD(4) [OF inv]
  have f: "foll_ok ?T ?cc ?F (net c) (committed c ld) j p (nd_exec (nodes c j))" unfolding p by (rule cinvD(11) [OF inv j])
  have st: "static_ok base n ld j (nodes c j)" by (rule cinvD(3) [OF inv j(1)])
  have jm: "j < MAX_SERVER_COUNT" and ldm: "ld < MAX_SERVER_COUNT" using j cinvD(1,2) [OF inv] by simp_all
  have um: "unch {0..<OFF_ENTRIES} ?F m" unfolding m by (rule unch_set(1))
  have "{0..<OFF_ENTRIES} \<inter> body_set ?T p = {}" using start_ge [of ?T p] by auto
  then have ar: "arrived ?T (node_log c ld) m p ?w"
    by (intro arrived_same [OF nx(3) order_refl same_on_refl] unch_body [OF um])
  note fd = arrived_fields [OF g nx(1) sl(5) nx(2) ar]
  then obtain v where v: "v \<le> committed c ld" "v \<le> p" "e_canbe m ?e = stamp v" by blast
  have id: "cc_node_id ?cc = of_nat j" using st by (simp add: static_ok_def)
  have msv: "m = srv_log sv" by (simp add: sv)
  obtain h post where P: "accept_post sv (put_ack (set_end (set_tail m (log_end m)) (log_end m + ucast (log_entry_len (set_tail m (log_end m)) ?e)))
        ?e (of_nat j) (stamp (Suc p)) h) ?e (of_nat j)
        (ucast (of_nat OFF_ENTRIES + log_end m + of_nat ACCEPT_ACK_SIZE * ucast (of_nat j :: u32))) = Some (ar_srv r, post)"
    and R: "ar_posts r = [post]" "apply_committed (accept_store B ?cc m ?e) (stamp v) = Some (ar_cc r, ar_exec r)"
    using accept_entryD [OF A msv] unfolding id fd(1) v(3) by blast
  have em: "log_end m = of_nat (?e - OFF_ENTRIES)" by (simp add: m)
  note lg = accept_log_ok [OF start_ge _ jm em fd(4) refl, where k = p and h = h]
  define m3 where "m3 = put_ack (set_end (set_tail m (log_end m)) (log_end m + ucast (log_entry_len (set_tail m (log_end m)) ?e)))
        ?e (of_nat j) (stamp (Suc p)) h"
  have b: "?e + ?w \<le> REGION_SIZE" using sl(4) by simp
  note lg = accept_log_ok [OF start_ge b jm em fd(4) m3_def]
  have nid: "ld = unat (e_node_id m3 ?e)" using lg(4) fd(2) unat_small [OF ldm] by simp
  note po = accept_postD [OF P [folded m3_def] nid]
  obtain cj where cj: "cj \<le> committed c ld" "cj \<le> p" "highest_committed_vs ?cc = stamp cj"
      "nd_exec (nodes c j) = map (\<lambda>i. vstol (stamp i)) [1..<Suc cj]" "highest_seen_vs ?cc = stamp p"
    using f by (auto simp: foll_ok_def)
  have "highest_committed_vs (accept_store B ?cc m ?e) = stamp cj" using cj(3) by (simp add: accept_store_fields)
  note ac = apply_committed_ok [OF R(2) this]
  have vb: "v < 2 ^ 28" "cj < 2 ^ 28" using v(2) cj(2) sl(2) by simp_all
  note ac = ac [OF vb]
  have hs: "highest_seen_vs (ar_cc r) = stamp (Suc p)"
    unfolding ac(3) using sl(3) cj(5) stamp_comp_pos [of "Suc p" p] by (simp add: accept_store_fields fd(1))
  have "is_ack (pa_buf post) j p" using po(6) lg(5) unat_small [OF jm] by simp
  moreover have "m_off (msg_of base MAck post) = ?e + ACCEPT_ACK_SIZE * j"
    using po(5,7) st cinvD(1) [OF inv] ack_offset [OF start_ge _ jm, of ?T p] sl(4)
    by (simp add: msg_of_def static_ok_def sv em ack_off_def)
  moreover have "nd_exec (nodes c j) @ ar_exec r = map (\<lambda>i. vstol (stamp i)) [1..<Suc (max cj v)]"
    using cj(4) ac(2) exec_append [of cj "max cj v" "\<lambda>i. vstol (stamp i)"] by (simp del: upt_Suc)
  moreover have "unch ({0..<OFF_ENTRIES} \<union> {ack_off ?e j..<ack_off ?e j + ACCEPT_ACK_SIZE}) ?F (srv_log (ar_srv r))"
    using po(1) unch_trans [OF unch_mono [OF um] lg(1)] by simp
  ultimately show ?thesis unfolding accepted_def Let_def
    using po(1-5) lg(2,3) R(1) hs ac(1,3) v(1,2) cj(1,2)
    by (intro conjI exI [of _ post] exI [of _ cj] exI [of _ v]) (simp_all add: sv m accept_store_fields)
qed

lemma cinv_accept_entry:
  assumes inv: "cinv base n ld c" and j: "j < n" "j \<noteq> ld" and p: "p = proc c j"
    and cmp: "entry_complete (node_log c j) (start (threads c) p)"
    and m: "m = set_end (node_log c j) (of_nat (start (threads c) p - OFF_ENTRIES))"
    and sv: "sv = (nd_srv (nodes c j))\<lparr>srv_log := m\<rparr>"
    and A: "accept_entry B ug (node_cc c j) sv out (start (threads c) p) = Some r"
  shows "cinv base n ld ((upd_node c j \<lparr>nd_cc = ar_cc r, nd_srv = ar_srv r, nd_out = ar_out r,
           nd_exec = nd_exec (nodes c j) @ ar_exec r\<rparr>)\<lparr>net := net c @ map (msg_of base MAck) (ar_posts r)\<rparr>)"
proof -
  let ?T = "threads c" let ?F = "node_log c j" let ?e = "start ?T p" let ?w = "width (?T ! p)"
  note nx = complete_next [OF inv j p cmp] and F = accept_entry_facts [OF assms, unfolded accepted_def Let_def]
  note sl = slot_at [OF inv nx(1)]
  have f: "foll_ok ?T (node_cc c j) ?F (net c) (committed c ld) j p (nd_exec (nodes c j))" unfolding p by (rule cinvD(11) [OF inv j])
  have st: "static_ok base n ld j (nodes c j)" by (rule cinvD(3) [OF inv j(1)])
  have jm: "j < MAX_SERVER_COUNT" using j cinvD(2) [OF inv] by simp
  obtain post where po: "ar_posts r = [post]" "pa_server post = ld" "is_ack (pa_buf post) j p" "m_off (msg_of base MAck post) = ?e + ACCEPT_ACK_SIZE * j"
    using F by blast
  obtain cj v where cv: "v \<le> committed c ld" "v \<le> p" "cj \<le> committed c ld" "cj \<le> p" "highest_committed_vs (ar_cc r) = stamp (max cj v)"
      "nd_exec (nodes c j) @ ar_exec r = map (\<lambda>i. vstol (stamp i)) [1..<Suc (max cj v)]"
    using F by blast
  let ?nd = "\<lparr>nd_cc = ar_cc r, nd_srv = ar_srv r, nd_out = ar_out r, nd_exec = nd_exec (nodes c j) @ ar_exec r\<rparr>"
  let ?P = "(proc c)(j := unat (req_id (highest_seen_vs (nd_cc ?nd))))"
  have Pj: "?P j = Suc p" using F sl(3) unat_req_stamp [of "Suc p"] by simp
  show ?thesis
  proof (rule cinv_follower [OF inv j, where P = ?P])
    show "static_ok base n ld j ?nd"
      using st F by (simp add: static_ok_def)
    show "unch ({0..<OFF_ENTRIES} \<union> {ack_off ?e j..<ack_off ?e j + ACCEPT_ACK_SIZE}) ?F (srv_log (nd_srv ?nd))"
      using F by simp
    have sub: "{ack_off ?e j..<ack_off ?e j + ACCEPT_ACK_SIZE} \<subseteq> acks_set ?T p"
      using jm by (auto simp: ack_off_def layout_simps)
    show "({0..<OFF_ENTRIES} \<union> {ack_off ?e j..<ack_off ?e j + ACCEPT_ACK_SIZE}) \<inter> body_set ?T k = {}"
      if "k < length ?T" for k
      using sub slot_header [of ?T k] slot_sets_disjoint [OF that nx(1)] slot_parts [of ?T k] slot_parts(2) [of ?T p] by blast
    show "x \<notin> {0..<OFF_ENTRIES} \<union> {ack_off ?e j..<ack_off ?e j + ACCEPT_ACK_SIZE}"
      if "start ?T (length ?T) \<le> x" for x
      using sub slot_fresh [OF nx(1) that] slot_parts(2) [of ?T p] that start_ge [of ?T "length ?T"] by auto
    show "proc c j \<le> ?P j" unfolding Pj using p by simp
    have "\<exists>i k. k < length ?T \<and> i < n \<and> i \<noteq> ld \<and> k < ?P i \<and> m_dst (msg_of base MAck post) = ld \<and>
        m_off (msg_of base MAck post) = start ?T k + ACCEPT_ACK_SIZE * i \<and> is_ack (m_bytes (msg_of base MAck post)) i k"
      using po(2-4) nx(1) j Pj by (intro exI [of _ j] exI [of _ p]) (simp add: msg_of_def)
    then show "\<forall>x \<in> set (map (msg_of base MAck) (ar_posts r)). m_kind x = MAck \<and> ackmsg n ld ?T ?P x"
      using po(1) unfolding ackmsg_def by (simp add: msg_of_def)
    show "foll_ok ?T (nd_cc ?nd) (srv_log (nd_srv ?nd)) (net c @ map (msg_of base MAck) (ar_posts r)) (committed c ld) j (?P j) (nd_exec ?nd)"
      unfolding Pj foll_ok_def
    proof (intro conjI exI [of _ "max cj v"])
      show "\<forall>k < Suc p. \<exists>x \<in> set (net c @ map (msg_of base MAck) (ar_posts r)). is_entry x j k \<and> m_bytes x = []"
        using f nx(4) by (auto simp: foll_ok_def less_Suc_eq)
      show "log_end (srv_log (nd_srv ?nd)) = of_nat (start ?T (Suc p) - OFF_ENTRIES) \<or> Suc p = 0 \<and> log_end (srv_log (nd_srv ?nd)) = LOG_SIZE"
        using F start_Suc [OF nx(1)] by simp
      show "log_len (srv_log (nd_srv ?nd)) = LOG_SIZE" using F f by (simp add: foll_ok_def)
      show "nd_exec ?nd = map (\<lambda>i. vstol (stamp i)) [1..<Suc (max cj v)]"
        using cv(6) by simp
    qed (use nx(1) F cv(1-5) in simp_all)
  qed simp
qed

lemma cinv_accept:
  assumes inv: "cinv base n ld c" and j: "j < n" "j \<noteq> ld"
    and A: "handle_accept_req B ug (node_cc c j) (nd_srv (nodes c j)) out = Some r"
  shows "cinv base n ld ((upd_node c j \<lparr>nd_cc = ar_cc r, nd_srv = ar_srv r, nd_out = ar_out r,
           nd_exec = nd_exec (nodes c j) @ ar_exec r\<rparr>)\<lparr>net := net c @ map (msg_of base MAck) (ar_posts r)\<rparr>)"
proof -
  let ?T = "threads c" let ?F = "node_log c j" let ?p = "proc c j" let ?e = "start ?T ?p"
  let ?m = "set_end ?F (of_nat (?e - OFF_ENTRIES))"
  have f: "foll_ok ?T (node_cc c j) ?F (net c) (committed c ld) j ?p (nd_exec (nodes c j))" by (rule cinvD(11) [OF inv j])
  note ne = next_entry [OF f cinvD(4) [OF inv]]
  have st: "static_ok base n ld j (nodes c j)" by (rule cinvD(3) [OF inv j(1)])
  have jm: "j < MAX_SERVER_COUNT" and ldm: "ld < MAX_SERVER_COUNT" using j cinvD(1,2) [OF inv] by simp_all
  have "leader_id (cur_view (node_cc c j)) \<noteq> cc_node_id (node_cc c j)"
    using st j(2) unat_small [OF jm] unat_small [OF ldm] by (auto simp: static_ok_def)
  then have A': "(if entry_complete ?m ?e then accept_entry B ug (node_cc c j) ((nd_srv (nodes c j))\<lparr>srv_log := ?m\<rparr>) out ?e
      else Some \<lparr>ar_cc = node_cc c j, ar_srv = (nd_srv (nodes c j))\<lparr>srv_log := ?m\<rparr>, ar_out = out, ar_posts = [], ar_exec = []\<rparr>) = Some r"
    using A ne(1) by (auto simp: handle_accept_req_def Let_def split: if_splits)
  have u: "unch {0..<OFF_ENTRIES} ?F ?m" by (rule unch_set(1))
  have same: "?m x = ?F x" if "OFF_SID \<le> x" for x
    using that by (simp add: set_end_def put_u64_def put_bytes_def layout_simps)
  show ?thesis
  proof (cases "entry_complete ?m ?e")
    case True
    have e: "OFF_SID < ?e" using start_ge [of ?T ?p] by (simp add: layout_simps)
    then have s: "same_on (?e + E_MSG_VS) (ENTRY_SIZE - E_MSG_VS) ?F ?m" using same by (simp add: same_on_def)
    have "?m (?e + unat (log_entry_len ?F ?e) - 1) = ?F (?e + unat (log_entry_len ?F ?e) - 1)" using e by (intro same) simp
    then have "entry_complete ?F ?e"
      using True same_on_body(4,7) [OF s] by (simp add: entry_complete_def)
    then show ?thesis using A' True by (intro cinv_accept_entry [OF inv j refl _ refl refl, of B ug out r]) simp_all
  next
    case False
    then have r: "r = \<lparr>ar_cc = node_cc c j, ar_srv = (nd_srv (nodes c j))\<lparr>srv_log := ?m\<rparr>, ar_out = out, ar_posts = [], ar_exec = []\<rparr>"
      using A' by simp
    show ?thesis
    proof (rule cinv_follower [OF inv j _ _ _ _ refl, where S = "{0..<OFF_ENTRIES}"])
      show "foll_ok ?T (nd_cc \<lparr>nd_cc = ar_cc r, nd_srv = ar_srv r, nd_out = ar_out r, nd_exec = nd_exec (nodes c j) @ ar_exec r\<rparr>)
          (srv_log (nd_srv \<lparr>nd_cc = ar_cc r, nd_srv = ar_srv r, nd_out = ar_out r, nd_exec = nd_exec (nodes c j) @ ar_exec r\<rparr>))
          (net c @ map (msg_of base MAck) (ar_posts r)) (committed c ld) j
          (((proc c)(j := unat (req_id (highest_seen_vs (nd_cc \<lparr>nd_cc = ar_cc r, nd_srv = ar_srv r, nd_out = ar_out r, nd_exec = nd_exec (nodes c j) @ ar_exec r\<rparr>))))) j)
          (nd_exec \<lparr>nd_cc = ar_cc r, nd_srv = ar_srv r, nd_out = ar_out r, nd_exec = nd_exec (nodes c j) @ ar_exec r\<rparr>)"
        using f by (simp add: r foll_ok_def proc_def)
      show "{0..<OFF_ENTRIES} \<inter> body_set ?T k = {}" if "k < length ?T" for k using start_ge [of ?T k] by auto
      show "x \<notin> {0..<OFF_ENTRIES}" if "start ?T (length ?T) \<le> x" for x using that start_ge [of ?T "length ?T"] by simp
    qed (use st u in \<open>simp_all add: r static_ok_def proc_def\<close>)
  qed
qed

section \<open>New requests\<close>

lemma mark_sends_props:
  "length (fst (mark_sends idx i eps)) = length eps"
  "map rmt_mr (fst (mark_sends idx i eps)) = map rmt_mr eps"
  by (induction eps arbitrary: i) (auto split: prod.split simp: case_prod_unfold)

text \<open>The slot is the first free place of the log.\<close>

lemma next_slot:
  assumes g: "geom T L cc"
  shows "log_add_new_entry L = start T (length T)"
    "log_end (if log_fit_entry_header L (log_end L) then L else set_end L 0) = of_nat (start T (length T) - OFF_ENTRIES)"
proof -
  have b: "start T (length T) + ENTRY_SIZE \<le> REGION_SIZE" by (rule geom_bound(1) [OF g])
  have len: "log_len L = LOG_SIZE" using g by (simp add: geom_def)
  have "log_add_new_entry L = start T (length T) \<and>
    log_end (if log_fit_entry_header L (log_end L) then L else set_end L 0) = of_nat (start T (length T) - OFF_ENTRIES)"
  proof (cases "T = []")
    case True
    then have e: "log_end L = LOG_SIZE" using g by (simp add: geom_def)
    then have "\<not> log_fit_entry_header L (log_end L)" by (subst log_fit_iff [OF len]) (simp_all add: layout_simps)
    then show ?thesis using True e len by (simp add: log_add_new_entry_def is_log_empty_def)
  next
    case False
    then have e: "log_end L = of_nat (start T (length T) - OFF_ENTRIES)" using g by (simp add: geom_def)
    have off: "unat (log_end L) = start T (length T) - OFF_ENTRIES"
      unfolding e using b by (intro unat_log_off) (simp add: layout_simps)
    then have "log_end L \<noteq> LOG_SIZE" using b by (auto simp: layout_simps)
    moreover have "log_fit_entry_header L (log_end L)" using off b by (subst log_fit_iff [OF len]) (simp_all add: layout_simps)
    ultimately show ?thesis using off e len start_ge [of T "length T"] by (simp add: log_add_new_entry_def is_log_empty_def)
  qed
  then show "log_add_new_entry L = start T (length T)"
    "log_end (if log_fit_entry_header L (log_end L) then L else set_end L 0) = of_nat (start T (length T) - OFF_ENTRIES)"
    by simp_all
qed

lemma unat_slot_len: "ENTRY_SIZE + ds + 1 \<le> REGION_SIZE \<Longrightarrow> e_data_size m e = of_nat ds + 1 \<Longrightarrow>
    (ucast (log_entry_len m e) :: u64) = of_nat (ENTRY_SIZE + ds + 1)"
proof -
  assume b: "ENTRY_SIZE + ds + 1 \<le> REGION_SIZE" and d: "e_data_size m e = of_nat ds + 1"
  have "unat (e_data_size m e) = ds + 1"
    unfolding d using b by (simp add: unat_word_ariths unsigned_of_nat take_bit_nat_eq_self layout_simps)
  then have "unat (log_entry_len m e) = ENTRY_SIZE + ds + 1" using b by (subst unat_log_entry_len) (simp_all add: layout_simps)
  then show ?thesis by (metis of_nat_unat)
qed

lemma reserve_ok:
  assumes g: "geom T (srv_log sv) cc"
    and r: "leader_reserve cc sv ds ty clt = Some (cc', sv', s)"
    and w: "w = ENTRY_SIZE + ds + 1"
  shows "start T (length T) + w \<le> REGION_SIZE"
    "unch ({0..<OFF_ENTRIES} \<union> {start T (length T) + E_DATA_SIZE..<start T (length T) + E_DATA_SIZE + 8}) (srv_log sv) (srv_log sv')"
    "log_len (srv_log sv') = LOG_SIZE" "log_end (srv_log sv') = of_nat (start T (length T) + w - OFF_ENTRIES)"
    "e_data_size (srv_log sv') (start T (length T)) = of_nat ds + 1"
    "s_next s = stamp (Suc (length T))" "s_record_no s = vstol (stamp (Suc (length T)))"
    "s_entry s = start T (length T)" "s_offset s = of_nat (start T (length T))"
    "cc' = cc\<lparr>highest_seen_vs := stamp (Suc (length T))\<rparr>"
    "srv_idx sv' = srv_idx sv" "length (servers sv') = length (servers sv)"
    "map rmt_mr (servers sv') = map rmt_mr (servers sv)"
proof -
  let ?e = "start T (length T)" let ?L = "srv_log sv"
  define m1 where "m1 = (if log_fit_entry_header ?L (log_end ?L) then ?L else set_end ?L 0)"
  define m2 where "m2 = set_tail m1 (log_end m1)"
  define m3 where "m3 = put_u64 m2 (?e + E_DATA_SIZE) (of_nat ds + 1)"
  define m4 where "m4 = set_end m3 (log_end m3 + ucast (log_entry_len m3 ?e))"
  note ns = next_slot [OF g, folded m1_def]
  obtain eps fl where ms: "mark_sends (srv_idx sv) 0 (take (unat (cc_group_size cc)) (servers sv)) = (eps, fl)" by force
  have hs: "highest_seen_vs cc = stamp (length T)" using g by (simp add: geom_def)
  have nv: "get_next_view_stamp cc = stamp (Suc (length T))" by (simp add: get_next_view_stamp_def hs stamp_def add.commute)
  have R: "in_region ?e (ENTRY_SIZE + ds + 1)" "sv' = sv\<lparr>srv_log := m4, servers := eps @ drop (unat (cc_group_size cc)) (servers sv)\<rparr>"
    "cc' = cc\<lparr>highest_seen_vs := (highest_seen_vs cc)\<lparr>req_id := req_id (highest_seen_vs cc) + 1\<rparr>\<rparr>"
    "s_next s = stamp (Suc (length T))" "s_record_no s = vstol (stamp (Suc (length T)))" "s_entry s = ?e"
    "s_offset s = ucast (of_nat OFF_ENTRIES + log_tail m4)"
    using r unfolding leader_reserve_def Let_def ns(1) m1_def [symmetric] m2_def [symmetric] m3_def [symmetric] m4_def [symmetric] ms nv
    by (auto split: if_splits)
  show b: "?e + w \<le> REGION_SIZE" using R(1) by (simp add: in_region_def w)
  let ?D = "{?e + E_DATA_SIZE..<?e + E_DATA_SIZE + 8}" let ?S = "{0..<OFF_ENTRIES} \<union> ?D"
  have D: "?D \<inter> {0..<OFF_ENTRIES} = {}" using start_ge [of T "length T"] by auto
  have u3: "unch ?D m2 m3" unfolding m3_def by (rule unch_put_words(3)) simp
  have u4: "unch {0..<OFF_ENTRIES} m3 m4" unfolding m4_def by (rule unch_set(1))
  have m1: "unch ?S ?L m1" unfolding m1_def using unch_mono [OF unch_set(1), of ?S ?L 0] by simp
  have m2: "unch ?S m1 m2" unfolding m2_def by (rule unch_mono [OF unch_set(2)]) simp
  have m3: "unch ?S m2 m3" by (rule unch_mono [OF u3]) simp
  have m4: "unch ?S m3 m4" by (rule unch_mono [OF u4]) simp
  show "unch ?S ?L (srv_log sv')" using unch_trans [OF unch_trans [OF unch_trans [OF m1 m2] m3] m4] R(2) by simp
  have d3: "e_data_size m3 ?e = of_nat ds + 1" by (simp add: m3_def e_data_size_def mem_simps)
  have "same_on (?e + E_DATA_SIZE) 8 m3 m4" using D by (intro unch_same_on [OF u4]) blast
  then show "e_data_size (srv_log sv') ?e = of_nat ds + 1"
    using d3 same_on_get_u64 R(2) by (simp add: e_data_size_def)
  note h = unch_header [OF u3 D]
  have "log_len m1 = LOG_SIZE" using g by (simp add: m1_def geom_def)
  then show "log_len (srv_log sv') = LOG_SIZE" using R(2) h(2) by (simp add: m4_def m2_def)
  have "log_end m3 = of_nat (?e - OFF_ENTRIES)" using h(1) ns(2) by (simp add: m2_def)
  then show "log_end (srv_log sv') = of_nat (?e + w - OFF_ENTRIES)"
    using R(2) unat_slot_len [OF _ d3] b start_ge [of T "length T"] by (simp add: m4_def w flip: of_nat_add)
  show "s_next s = stamp (Suc (length T))" "s_record_no s = vstol (stamp (Suc (length T)))" "s_entry s = ?e" by (rule R)+
  have "log_tail m3 = log_tail m2" using same_on_header(2) [OF unch_same_on [OF u3]] D by auto
  then have "of_nat OFF_ENTRIES + log_tail m4 = of_nat ?e"
    using ns(2) start_ge [of T "length T"] by (simp add: m4_def m2_def flip: of_nat_add)
  moreover have "ucast (of_nat ?e :: u64) = (of_nat ?e :: u32)"
    using b by (simp add: word_eq_iff_unsigned unsigned_ucast_eq unsigned_of_nat take_bit_nat_eq_self layout_simps)
  ultimately show "s_offset s = of_nat ?e" using R(7) by simp
  show "cc' = cc\<lparr>highest_seen_vs := stamp (Suc (length T))\<rparr>" using R(3) by (simp add: hs stamp_def add.commute)
  show "srv_idx sv' = srv_idx sv" using R(2) by simp
  show "map rmt_mr (servers sv') = map rmt_mr (servers sv)"
    using R(2) ms mark_sends_props(2) [of "srv_idx sv" 0 "take (unat (cc_group_size cc)) (servers sv)"]
    by (simp add: take_map drop_map del: append_take_drop_id) (metis append_take_drop_id map_append)
  then show "length (servers sv') = length (servers sv)" by (metis length_map)
qed

lemma get_u32_zero: "(\<And>x. a \<le> x \<Longrightarrow> x < a + 4 \<Longrightarrow> F x = 0) \<Longrightarrow> get_u32 F a = 0"
  by (rule bit_word_eqI) (auto simp: get_u32_def bit_le_word)

text \<open>The other parts of the invariant when a request is added.\<close>

lemma append_parts:
  assumes w: "width t = w"
  shows "k \<le> length T \<Longrightarrow> start (T @ [t]) k = start T k"
    "start (T @ [t]) (Suc (length T)) = start T (length T) + w"
    "k < length T \<Longrightarrow> (T @ [t]) ! k = T ! k"
  using start_append [of k T "[t]"] start_append [of "length T" T "[t]"] start_Suc [of "length T" "T @ [t]"] w
  by (simp_all add: nth_append)

lemma fresh_append: "fresh T m \<Longrightarrow> fresh (T @ [t]) m"
  using append_parts(2) [of t _ T] by (simp add: fresh_def)

lemma foll_append:
  assumes "foll_ok T cc F ms cm j p ex"
  shows "foll_ok (T @ [t]) cc F ms cm j p ex"
  using assms start_append [of p T "[t]"] by (auto simp: foll_ok_def)

lemma ackmsg_append: "ackmsg_ok n ld T P ms \<Longrightarrow> ackmsg_ok n ld (T @ [t]) P ms"
proof -
  have "ackmsg n ld T P x \<Longrightarrow> ackmsg n ld (T @ [t]) P x" for x
    unfolding ackmsg_def using start_append [of _ T "[t]"] by (metis length_append less_imp_le trans_less_add1)
  then show "ackmsg_ok n ld T P ms \<Longrightarrow> ackmsg_ok n ld (T @ [t]) P ms" unfolding ackmsg_ok_def by blast
qed

lemma commit_append: "commit_ok n ld T cm P \<Longrightarrow> t_pc t = TReserved \<Longrightarrow> commit_ok n ld (T @ [t]) cm P"
  by (auto simp: commit_ok_def nth_append less_Suc_eq)

lemma arrived_append: "k < length T \<Longrightarrow> arrived (T @ [t]) L F k c = arrived T L F k c"
  by (simp add: arrived_def nth_append start_append)

lemma flight_append: "k < length T \<Longrightarrow> flight (T @ [t]) L F j x k = flight T L F j x k"
  by (simp add: flight_def nth_append start_append arrived_append)

lemma flight_ok_add:
  assumes f: "flight_ok T L F j ms" and fr: "fresh T F"
  shows "flight_ok (T @ [t]) L F j ms"
proof -
  have "k < length T" if "i < length ms" "is_entry (ms ! i) j k" for i k
    using flight_past [OF flight_okD(1) [OF f that]] by simp
  moreover have "arrived (T @ [t]) L F (length T) 0"
    using fr by (auto simp: arrived_def start_append fresh_def)
  ultimately show ?thesis
    using f unfolding flight_ok_def by (auto simp: flight_append arrived_append less_Suc_eq)
qed

lemma entry_append: "k < length T \<Longrightarrow> entry_ok ld cm (T @ [t]) L k = entry_ok ld cm T L k"
  by (simp add: entry_ok_def nth_append start_append)

text \<open>A thread that has just got its slot.\<close>

lemma leader_append:
  assumes l: "leader_ok ld cm T L"
    and u: "unch S L L'" "\<And>k. k < length T \<Longrightarrow> S \<inter> slot_set T k = {}"
    and e: "e_data_size L' (start T (length T)) = of_nat (t_size t) + 1" and pc: "t_pc t = TReserved"
  shows "leader_ok ld cm (T @ [t]) L'"
  unfolding leader_ok_def
proof (intro allI impI)
  fix k assume "k < length (T @ [t])"
  then consider "k < length T" | "k = length T" by fastforce
  then show "entry_ok ld cm (T @ [t]) L' k"
  proof cases
    case 1
    have "S \<inter> body_set T k = {}" using u(2) [OF 1] slot_parts(1) [of T k] by blast
    then show ?thesis using 1 l entry_ok_same [OF _ unch_body [OF u(1)]] by (simp add: entry_append leader_ok_def)
  next
    case 2
    then show ?thesis using e pc by (simp add: entry_ok_def nth_append start_append)
  qed
qed

lemma acks_append:
  assumes a: "acks_ok n ld T L P"
    and u: "unch S L L'" "\<And>k. k < length T \<Longrightarrow> S \<inter> slot_set T k = {}"
    and z: "\<And>x. start T (length T) \<le> x \<Longrightarrow> x < start T (length T) + E_MSG_VS \<Longrightarrow> L' x = 0"
  shows "acks_ok n ld (T @ [t]) L' P"
proof -
  have old: "ack_msg_vs L' (start T k) i = ack_msg_vs L (start T k) i"
    "ack_node_id L' (start T k) i = ack_node_id L (start T k) i" if "k < length T" "i < MAX_SERVER_COUNT" for k i
  proof -
    have "S \<inter> acks_set T k = {}" using u(2) [OF that(1)] slot_parts(2) [of T k] by blast
    then show "ack_msg_vs L' (start T k) i = ack_msg_vs L (start T k) i"
      "ack_node_id L' (start T k) i = ack_node_id L (start T k) i" using ack_unch [OF u(1) _ that(2)] by blast+
  qed
  have new: "ack_msg_vs L' (start T (length T)) i \<noteq> stamp k" if i: "i < MAX_SERVER_COUNT" for i k
  proof -
    have "get_u32 L' (ack_off (start T (length T)) i) = 0"
      using i by (intro get_u32_zero z) (auto simp: ack_off_def layout_simps)
    then have "view_id (ack_msg_vs L' (start T (length T)) i) = 0" by (simp add: ack_msg_vs_def get_vs_def layout_simps)
    then show ?thesis by auto
  qed
  show ?thesis
    unfolding acks_ok_def
  proof (intro allI impI)
    fix k i assume k: "k < length (T @ [t])" and i: "i < MAX_SERVER_COUNT"
      and v: "ack_msg_vs L' (start (T @ [t]) k) i = stamp (Suc k)"
    have "k < length T"
    proof (rule ccontr)
      assume "\<not> k < length T"
      then have "k = length T" using k by simp
      then show False using v new [OF i, of "Suc k"] by (simp add: start_append)
    qed
    then show "ack_node_id L' (start (T @ [t]) k) i = of_nat i \<and> i < n \<and> i \<noteq> ld \<and> k < P i"
      using v old [OF _ i] a i unfolding acks_ok_def by (simp add: start_append)
  qed
qed

text \<open>Putting the parts together: the leader's own mark has moved, those of the others have not.\<close>

lemma cinv_added:
  assumes "ld < n" "n \<le> MAX_SERVER_COUNT" "\<And>j. j < n \<Longrightarrow> static_ok base n ld j (nodes c' j)"
    and "geom (threads c') (node_log c' ld) (node_cc c' ld)" "\<And>j. j < n \<Longrightarrow> fresh (threads c') (node_log c' j)"
    and "leader_ok ld (committed c ld) (threads c') (node_log c' ld)"
    and "acks_ok n ld (threads c') (node_log c' ld) (proc c)"
    and "\<And>j. j < n \<Longrightarrow> j \<noteq> ld \<Longrightarrow> flight_ok (threads c') (node_log c' ld) (node_log c' j) j (net c')"
    and "dst_ok n ld (net c')" "ackmsg_ok n ld (threads c') (proc c) (net c')"
    and f: "\<And>j. j < n \<Longrightarrow> j \<noteq> ld \<Longrightarrow> foll_ok (threads c') (node_cc c' j) (node_log c' j) (net c') (committed c ld) j
        (proc c j) (nd_exec (nodes c' j))"
    and "commit_ok n ld (threads c') (committed c ld) (proc c)"
    and "highest_committed_vs (node_cc c' ld) = stamp (committed c ld)"
    and same: "\<And>j. j \<noteq> ld \<Longrightarrow> node_cc c' j = node_cc c j" "highest_committed_vs (node_cc c' ld) = highest_committed_vs (node_cc c ld)"
  shows "cinv base n ld c'"
proof -
  have cm: "committed c' ld = committed c ld" by (simp add: committed_def same)
  have P: "proc c' j = proc c j" if "j \<noteq> ld" for j using same(1) [OF that] by (simp add: proc_def)
  have "acks_ok n ld (threads c') (node_log c' ld) (proc c')" "ackmsg_ok n ld (threads c') (proc c') (net c')"
    "commit_ok n ld (threads c') (committed c ld) (proc c')"
    using assms(7,10,12) unfolding acks_ok_def ackmsg_ok_def ackmsg_def commit_ok_def by (metis P)+
  moreover have "foll_ok (threads c') (node_cc c' j) (node_log c' j) (net c') (committed c ld) j (proc c' j) (nd_exec (nodes c' j))"
    if "j < n" "j \<noteq> ld" for j
    using f [OF that] P [OF that(2)] by simp
  ultimately show ?thesis using assms(1-6,8,9,13) unfolding cinv_def cm by blast
qed

lemma cinv_reserve:
  assumes inv: "cinv base n ld c"
    and r: "leader_reserve (node_cc c ld) (nd_srv (nodes c ld)) ds ty clt = Some (cc', sv', s)"
    and room: "log_room sv'" and data: "\<forall>bs. data = Some bs \<longrightarrow> length bs = ds"
  shows "cinv base n ld ((upd_node c ld ((nodes c ld)\<lparr>nd_cc := cc', nd_srv := sv'\<rparr>))\<lparr>threads := threads c @
          [\<lparr>t_slot = s, t_size = ds, t_data = data, t_type = ty, t_pc = TReserved, t_bits = 0\<rparr>]\<rparr>)"
proof -
  let ?T = "threads c" let ?L = "node_log c ld" let ?L' = "srv_log sv'" let ?e = "start ?T (length ?T)"
  let ?t = "\<lparr>t_slot = s, t_size = ds, t_data = data, t_type = ty, t_pc = TReserved, t_bits = 0\<rparr>"
  let ?nd = "(nodes c ld)\<lparr>nd_cc := cc', nd_srv := sv'\<rparr>" let ?w = "ENTRY_SIZE + ds + 1"
  let ?c = "(upd_node c ld ?nd)\<lparr>threads := ?T @ [?t]\<rparr>"
  let ?S = "{0..<OFF_ENTRIES} \<union> {?e + E_DATA_SIZE..<?e + E_DATA_SIZE + 8}"
  note g = cinvD(4) [OF inv]
  note rk = reserve_ok [OF g r refl]
  have ap: "start (?T @ [?t]) (Suc (length ?T)) = ?e + ?w" by (intro append_parts(2)) (simp add: width_def)
  have c': "threads ?c = ?T @ [?t]" "net ?c = net c" "\<And>i. nodes ?c i = (if i = ld then ?nd else nodes c i)"
    by (simp_all add: upd_node_def)
  have cc': "cc' = (node_cc c ld)\<lparr>highest_seen_vs := stamp (Suc (length ?T))\<rparr>" by (rule rk(10))
  have cm: "committed ?c ld = committed c ld" by (simp add: committed_def upd_node_def cc')
  have S: "?S \<inter> slot_set ?T k = {}" if "k < length ?T" for k
    using start_next [OF that order_refl] slot_header [of ?T k] by auto
  have fr: "fresh ?T (node_log c i)" if "i < n" for i by (rule cinvD(5) [OF inv that])
  have z: "?L' x = 0" if "?e \<le> x" "x \<notin> ?S" for x
    using unchD [OF rk(2) that(2)] fr [OF cinvD(1) [OF inv]] that(1) by (simp add: fresh_def)
  have "geom (?T @ [?t]) ?L' cc'"
    unfolding geom_def
  proof (intro conjI allI impI)
    fix k assume k: "k < length (?T @ [?t])"
    show "slot_ok (?T @ [?t]) k ((?T @ [?t]) ! k)"
    proof (cases "k < length ?T")
      case True
      then show ?thesis using slot_at(1) [OF inv True] by (simp add: slot_ok_def nth_append start_append)
    next
      case False
      then have "k = length ?T" using k by simp
      then show ?thesis using rk(6-9) data by (simp add: slot_ok_def start_append)
    qed
  next
    have "unat (of_nat (?e + ?w - OFF_ENTRIES) :: u64) = ?e + ?w - OFF_ENTRIES"
      using rk(1) by (intro unat_log_off) (simp add: layout_simps)
    then show "start (?T @ [?t]) (length (?T @ [?t])) + ENTRY_SIZE \<le> REGION_SIZE"
      using room rk(4) ap start_ge [of ?T "length ?T"] by (simp add: log_room_def layout_simps)
    show "log_end ?L' = (if ?T @ [?t] = [] then LOG_SIZE else of_nat (start (?T @ [?t]) (length (?T @ [?t])) - OFF_ENTRIES))"
      using rk(4) ap by simp
  qed (use rk(3) cc' in simp_all)
  moreover have "static_ok base n ld ld ?nd"
  proof -
    have st: "static_ok base n ld ld (nodes c ld)" by (rule cinvD(3) [OF inv cinvD(1) [OF inv]])
    have "rmt_mr (servers sv' ! a) = rmt_mr (servers (nd_srv (nodes c ld)) ! a)" if "a < n" for a
      using rk(12,13) st that by (metis nth_map static_ok_def)
    then show ?thesis using st rk(11,12) by (simp add: static_ok_def cc')
  qed
  moreover have "fresh (?T @ [?t]) ?L'"
  proof -
    have "x \<notin> ?S" if "?e + ?w \<le> x" for x using that start_ge [of ?T "length ?T"] by (auto simp: layout_simps)
    then show ?thesis using z ap by (simp add: fresh_def)
  qed
  moreover have "leader_ok ld (committed c ld) (?T @ [?t]) ?L'"
    using rk(5) by (intro leader_append [OF cinvD(6) [OF inv] rk(2) S]) simp_all
  moreover have "acks_ok n ld (?T @ [?t]) ?L' (proc c)"
    using start_ge [of ?T "length ?T"] by (intro acks_append [OF cinvD(7) [OF inv] rk(2) S] z) (auto simp: layout_simps)
  moreover have "flight_ok (?T @ [?t]) ?L' (node_log c i) i (net c)" if i: "i < n" "i \<noteq> ld" for i
  proof (rule flight_ok_add [OF flight_ok_same [OF cinvD(8) [OF inv i]] fr [OF i(1)]])
    fix k assume "k < length ?T"
    then have "?S \<inter> body_set ?T k = {}" using S slot_parts(1) [of ?T k] by blast
    then show "same_on (start ?T k + E_MSG_VS) (width (?T ! k) - E_MSG_VS) ?L ?L'" by (rule unch_body [OF rk(2)])
  qed simp
  moreover have "foll_ok (?T @ [?t]) (node_cc c i) (node_log c i) (net c) (committed c ld) i (proc c i) (nd_exec (nodes c i))"
    if "i < n" "i \<noteq> ld" for i
    by (rule foll_append [OF cinvD(11) [OF inv that]])
  ultimately show ?thesis
    using cinvD(1,2,3,9,13) [OF inv] fresh_append [OF fr, of _ ?t] ackmsg_append [OF cinvD(10) [OF inv]] commit_append [OF cinvD(12) [OF inv], of ?t]
    by (intro cinv_added [where c = c]) (simp_all add: cc' upd_node_def)
qed

section \<open>Every step keeps the invariant\<close>

lemma cinv_init: "cinit base n ld c \<Longrightarrow> cinv base n ld c"
proof -
  assume i: "cinit base n ld c"
  obtain m where m: "log_new True = Some m" by (auto simp: log_new_def)
  note f = log_new_fields [OF m]
  have T: "threads c = []" "net c = []" and n: "ld < n" "n \<le> MAX_SERVER_COUNT" using i by (simp_all add: cinit_def)
  have nd: "\<exists>d eps out. nodes c j = init_node d eps out n ld j \<and> length eps = n \<and> (\<forall>i < n. raddr (rmt_mr (eps ! i)) = base i)"
    if "j < n" for j
    using i that by (simp add: cinit_def)
  have lg: "node_log c j = m" "highest_seen_vs (node_cc c j) = stamp 0" "highest_committed_vs (node_cc c j) = stamp 0"
      "nd_exec (nodes c j) = []" if "j < n" for j
    using nd [OF that] m by (auto simp: init_node_def init_consensus_comp_def stamp_def)
  have "static_ok base n ld j (nodes c j)" if "j < n" for j
    using nd [OF that] by (auto simp: static_ok_def init_node_def init_consensus_comp_def)
  moreover have "proc c j = 0" "committed c ld = 0" if "j < n" for j
    using lg [OF that] lg [OF n(1)] by (simp_all add: proc_def committed_def)
  moreover have "geom [] m (node_cc c ld)"
    using f lg [OF n(1)] by (simp add: geom_def layout_simps)
  moreover have "fresh [] m" using f(5) by (simp add: fresh_def)
  ultimately show ?thesis
    unfolding cinv_def T using lg n f
    by (simp add: leader_ok_def acks_ok_def flight_ok_def dst_ok_def ackmsg_ok_def foll_ok_def commit_ok_def)
qed

lemma cinv_deliver:
  assumes inv: "cinv base n ld c" and i: "i < length (net c)" and x: "x = net c ! i" and cnt: "cnt \<le> length (m_bytes x)"
    and ack: "m_kind x = MAck \<longrightarrow> cnt = length (m_bytes x)"
  shows "cinv base n ld ((upd_node c (m_dst x) (set_node_log (nodes c (m_dst x))
          (put_bytes (node_log c (m_dst x)) (m_off x) (take cnt (m_bytes x)))))\<lparr>net := (net c)[i :=
            x\<lparr>m_off := m_off x + cnt, m_bytes := drop cnt (m_bytes x)\<rparr>]\<rparr>)"
  unfolding advance_def [symmetric]
proof (cases "m_kind x")
  case (MEntry k)
  then show "cinv base n ld ((upd_node c (m_dst x) (set_node_log (nodes c (m_dst x))
          (put_bytes (node_log c (m_dst x)) (m_off x) (take cnt (m_bytes x)))))\<lparr>net := (net c)[i := advance x cnt]\<rparr>)"
    using cinv_deliver_entry [OF inv i _ _ refl, of k cnt] cnt x by simp
next
  case MAck
  then show "cinv base n ld ((upd_node c (m_dst x) (set_node_log (nodes c (m_dst x))
          (put_bytes (node_log c (m_dst x)) (m_off x) (take cnt (m_bytes x)))))\<lparr>net := (net c)[i := advance x cnt]\<rparr>)"
    using cinv_deliver_ack [OF inv i _ refl refl] ack x by simp
qed

lemma cinv_step:
  assumes inv: "cinv base n ld c" and s: "cstep B ug base n ld c c'"
  shows "cinv base n ld c'"
  using s
proof cases
  case reserve
  then show ?thesis using cinv_reserve [OF inv] by blast
next
  case fill
  then show ?thesis using cinv_fill [OF inv] by blast
next
  case (store k t ret cc')
  show ?thesis unfolding store(1) by (rule cinv_store [OF inv store(2-5)])
next
  case post
  then show ?thesis using cinv_post [OF inv] by blast
next
  case posted
  then show ?thesis using cinv_posted [OF inv] by blast
next
  case scan
  then show ?thesis using cinv_scan [OF inv] by blast
next
  case commit
  then show ?thesis using cinv_commit [OF inv] by blast
next
  case deliver
  then show ?thesis using cinv_deliver [OF inv] by blast
next
  case accept
  then show ?thesis using cinv_accept [OF inv] by blast
qed

interpretation cluster_sys: invariant_system "cinit base n ld" "cstep B ug base n ld" "cinv base n ld" for B ug base n ld
  using cinv_init cinv_step by unfold_locales blast+

end
