(* ===== verification/Cluster_Live.thy ===== *)
theory Cluster_Live
  imports Cluster_Step
begin

text \<open>
  Runs of the group that make progress. A new request passes through the steps of its thread; a
  follower to which the entry was sent receives it, accepts it and acknowledges it; the leader
  sees the acknowledgements of a majority and commits. Each stage is a run of \<open>cstep\<close> from any state
  of the invariant; together they show that an idle group can serve a request.
\<close>

section \<open>The leader's own vote\<close>

definition own_bit :: "nat \<Rightarrow> 'd cluster \<Rightarrow> bool" where
  "own_bit ld c \<longleftrightarrow> (\<forall>t \<in> set (threads c). t_pc t = TWaiting \<longrightarrow> bit (t_bits t) ld)"

lemma own_bit_upd:
  "own_bit ld c \<Longrightarrow> threads c' = (threads c)[k := t] \<Longrightarrow> (t_pc t = TWaiting \<Longrightarrow> bit (t_bits t) ld) \<Longrightarrow> own_bit ld c'"
  by (auto simp: own_bit_def dest: set_update_subset_insert [THEN subsetD])

lemma own_bit_scan: "bit b i \<Longrightarrow> bit (scan_ack m s q b) i"
  by (auto simp: scan_ack_def bit_or_iff)

lemma own_bit_step:
  assumes inv: "cinv base n ld c" and o: "own_bit ld c" and s: "cstep B ug base n ld c c'"
  shows "own_bit ld c'"
  using s
proof cases
  case (reserve ds ty clt cc' sv' s data)
  then show ?thesis using o by (auto simp: own_bit_def upd_node_def)
next
  case (fill k t m')
  then show ?thesis by (intro own_bit_upd [OF o, of _ k "t\<lparr>t_pc := TFilled\<rparr>"]) (simp_all add: upd_thread_def upd_node_def)
next
  case (store k t ret cc')
  then show ?thesis
    by (intro own_bit_upd [OF o, of _ k "t\<lparr>t_pc := if ret \<noteq> 0 then TFailed else TPosting 0\<rparr>"]) (simp_all add: upd_thread_def upd_node_def split: if_splits)
next
  case (post k t i pa)
  then show ?thesis by (intro own_bit_upd [OF o, of _ k "t\<lparr>t_pc := TPosting (Suc i)\<rparr>"]) (simp_all add: upd_thread_def)
next
  case (posted k t)
  have "cc_node_id (node_cc c ld) = of_nat ld" using cinvD(3) [OF inv cinvD(1) [OF inv]] by (simp add: static_ok_def)
  then have "bit (node_bit (cc_node_id (node_cc c ld))) ld" using cinvD(1,2) [OF inv] by (simp add: bit_node_bit)
  then show ?thesis using posted
    by (intro own_bit_upd [OF o, of _ k "t\<lparr>t_pc := TWaiting, t_bits := node_bit (cc_node_id (node_cc c ld))\<rparr>"]) (simp_all add: upd_thread_def)
next
  case (scan k t i)
  have "bit (t_bits t) ld" using o scan by (simp add: own_bit_def)
  then show ?thesis using scan
    by (intro own_bit_upd [OF o, of _ k "t\<lparr>t_bits := scan_ack (node_log c ld) (t_slot t) i (t_bits t)\<rparr>"]) (simp_all add: upd_thread_def own_bit_scan)
next
  case (commit k t)
  then show ?thesis by (intro own_bit_upd [OF o, of _ k "t\<lparr>t_pc := TCommitted\<rparr>"]) (simp_all add: upd_thread_def upd_node_def)
next
  case deliver
  then show ?thesis using o by (simp add: own_bit_def upd_node_def)
next
  case accept
  then show ?thesis using o by (simp add: own_bit_def upd_node_def)
qed

interpretation cluster_votes: layered_invariant "cinit base n ld" "cstep B ug base n ld" "cinv base n ld" "own_bit ld" for B ug base n ld
proof unfold_locales
  show "cinit base n ld c \<Longrightarrow> own_bit ld c" for c :: "'a cluster" by (simp add: cinit_def own_bit_def)
  show "cinv base n ld c \<Longrightarrow> own_bit ld c \<Longrightarrow> cstep B ug base n ld c c' \<Longrightarrow> own_bit ld c'" for c c' by (rule own_bit_step)
qed

section \<open>Committing\<close>

lemma fold_scan_keeps: "bit b i \<Longrightarrow> bit (fold (scan_ack m s) qs b) i"
  by (induction qs arbitrary: b) (simp_all add: own_bit_scan)

lemma fold_scan_counts:
  assumes "i \<in> set qs" and "i < MAX_SERVER_COUNT" and "ack_msg_vs m (s_entry s) i = s_next s" and "ack_node_id m (s_entry s) i = of_nat i"
  shows "bit (fold (scan_ack m s) qs b) i"
  using assms(1)
proof (induction qs arbitrary: b)
  case (Cons q qs)
  show ?case
  proof (cases "q = i")
    case True
    then show ?thesis using assms fold_scan_keeps [of "scan_ack m s i b" i m s qs]
      by (simp add: scan_ack_def [of m s i b] bit_or_iff bit_node_bit)
  qed (use Cons in simp)
qed simp

lemma scan_run:
  assumes k: "k < length (threads c)" and pc: "t_pc (threads c ! k) = TWaiting" and q: "\<forall>i \<in> set qs. i < MAX_SERVER_COUNT"
  shows "(cstep B ug base n ld)\<^sup>*\<^sup>* c (upd_thread c k ((threads c ! k)\<lparr>t_bits :=
     fold (scan_ack (node_log c ld) (t_slot (threads c ! k))) qs (t_bits (threads c ! k))\<rparr>))"
  using q
proof (induction qs rule: rev_induct)
  case Nil
  then show ?case by (simp add: upd_thread_def)
next
  case (snoc i qs)
  let ?t = "threads c ! k"
  let ?t1 = "?t\<lparr>t_bits := fold (scan_ack (node_log c ld) (t_slot ?t)) qs (t_bits ?t)\<rparr>"
  have "cstep B ug base n ld (upd_thread c k ?t1) (upd_thread (upd_thread c k ?t1) k
      (?t1\<lparr>t_bits := scan_ack (node_log (upd_thread c k ?t1) ld) (t_slot ?t1) i (t_bits ?t1)\<rparr>))"
    using k pc snoc.prems by (intro cstep.scan) (simp_all add: upd_thread_def)
  then show ?case using snoc.IH snoc.prems by (simp add: upd_thread_def)
qed

lemma quorum_popcount:
  assumes "finite Q" and "\<forall>i \<in> Q. bit b i"
  shows "card Q \<le> popcount b"
proof -
  have "Q \<subseteq> set (filter (bit b) [0..<64])" using assms(2) bit_imp_le_length [of b] by fastforce
  then show ?thesis unfolding popcount_def by (metis List.finite_set card_mono card_length order_trans)
qed

lemma commit_run:
  assumes inv: "cinv base n ld c" and own: "own_bit ld c" and k: "k < length (threads c)"
    and pc: "t_pc (threads c ! k) = TWaiting" and prev: "\<forall>i < k. t_pc (threads c ! i) = TCommitted"
    and Q: "Q \<subseteq> {..<n} - {ld}" "n div 2 \<le> card Q"
      "\<forall>j \<in> Q. ack_msg_vs (node_log c ld) (s_entry (t_slot (threads c ! k))) j = s_next (t_slot (threads c ! k))"
  shows "\<exists>b. (cstep B ug base n ld)\<^sup>*\<^sup>* c (upd_thread (upd_node c ld ((nodes c ld)\<lparr>nd_cc := leader_commit (node_cc c ld)\<rparr>)) k
     ((threads c ! k)\<lparr>t_bits := b, t_pc := TCommitted\<rparr>))"
proof -
  let ?t = "threads c ! k" let ?L = "node_log c ld"
  let ?b = "fold (scan_ack ?L (t_slot ?t)) [0..<MAX_SERVER_COUNT] (t_bits ?t)"
  let ?c = "upd_thread c k (?t\<lparr>t_bits := ?b\<rparr>)"
  have fin: "finite Q" using Q(1) finite_subset by blast
  have nin: "ld \<notin> Q" using Q(1) by blast
  note ld = cinvD(1,2) [OF inv]
  have r: "(cstep B ug base n ld)\<^sup>*\<^sup>* c ?c" by (rule scan_run [OF k pc]) simp
  have sl: "s_entry (t_slot ?t) = start (threads c) k" "s_next (t_slot ?t) = stamp (Suc k)" using slot_at(1) [OF inv k] by (simp_all add: slot_ok_def)
  have bit: "bit ?b j" if j: "j \<in> Q" for j
  proof (rule fold_scan_counts)
    show "ack_msg_vs ?L (s_entry (t_slot ?t)) j = s_next (t_slot ?t)" using Q(3) j by simp
    then show "ack_node_id ?L (s_entry (t_slot ?t)) j = of_nat j"
      using cinvD(7) [OF inv] k Q(1) j ld(2) unfolding sl acks_ok_def by (meson DiffD1 lessThan_iff order_less_le_trans subsetD)
  qed (use Q(1) j ld(2) in auto)
  have "bit ?b ld" using own k pc by (intro fold_scan_keeps) (simp add: own_bit_def)
  then have "card (insert ld Q) \<le> popcount ?b" using bit fin by (intro quorum_popcount) auto
  then have "n div 2 + 1 \<le> popcount ?b"
    using Q(2) card_insert_disjoint [OF fin nin] by simp
  moreover have gs: "cc_group_size (node_cc c ld) = of_nat n" using cinvD(3) [OF inv ld(1)] by (simp add: static_ok_def)
  moreover have "unat (of_nat n :: u32) = n" using ld(2) by (intro unat_req_stamp) (simp add: MAX_SERVER_COUNT_def)
  ultimately have q: "reached_quorum ?b (cc_group_size (node_cc c ld))" by (simp add: reached_quorum_def)
  have cm: "committed c ld = k"
  proof -
    have "k \<le> committed c ld"
    proof (rule ccontr)
      assume "\<not> k \<le> committed c ld"
      then have "t_pc (threads c ! committed c ld) = TCommitted" "committed c ld < length (threads c)" using prev k by simp_all
      then show False using cinvD(12) [OF inv] unfolding commit_ok_def by blast
    qed
    then show ?thesis using uncommitted_le [OF cinvD(12) [OF inv] k] pc by simp
  qed
  have "e_msg_vs ?L (s_entry (t_slot ?t)) = stamp (Suc k)" using slot_at(5) [OF inv k] pc sl by (simp add: entry_ok_def)
  then have m: "may_commit (node_cc c ld) ?L (t_slot ?t)" using cinvD(13) [OF inv] cm by (simp add: may_commit_def add.commute)
  have "cstep B ug base n ld ?c (upd_thread (upd_node ?c ld ((nodes ?c ld)\<lparr>nd_cc := leader_commit (node_cc ?c ld)\<rparr>)) k
      ((?t\<lparr>t_bits := ?b\<rparr>)\<lparr>t_pc := TCommitted\<rparr>))"
    using k pc q m by (intro cstep.commit) (simp_all add: upd_thread_def)
  then have "(cstep B ug base n ld)\<^sup>*\<^sup>* c (upd_thread (upd_node c ld ((nodes c ld)\<lparr>nd_cc := leader_commit (node_cc c ld)\<rparr>)) k
      (?t\<lparr>t_bits := ?b, t_pc := TCommitted\<rparr>))"
    using r by (simp add: upd_thread_def upd_node_def)
  then show ?thesis by blast
qed

section \<open>Submitting\<close>

lemma mark_sends_connected: "map rc_connected (fst (mark_sends idx i eps)) = map rc_connected eps"
  by (induction idx i eps rule: mark_sends.induct) (auto split: prod.splits)

abbreviation connected :: "'d cluster \<Rightarrow> nat \<Rightarrow> nat \<Rightarrow> bool" where
  "connected c ld j \<equiv> rc_connected (servers (nd_srv (nodes c ld)) ! j)"

lemma reserve_connected:
  assumes "leader_reserve cc sv ds ty clt = Some (cc', sv', s)" and "j < length (servers sv)"
  shows "rc_connected (servers sv' ! j) = rc_connected (servers sv ! j)"
proof -
  let ?g = "unat (cc_group_size cc)"
  obtain eps fl where ms: "mark_sends (srv_idx sv) 0 (take ?g (servers sv)) = (eps, fl)" by force
  then have "map rc_connected eps = map rc_connected (take ?g (servers sv))" using mark_sends_connected [of "srv_idx sv" 0 "take ?g (servers sv)"] by simp
  then have "map rc_connected (eps @ drop ?g (servers sv)) = map rc_connected (servers sv)"
    by (metis append_take_drop_id map_append)
  moreover have "servers sv' = eps @ drop ?g (servers sv)"
    using assms(1) ms by (auto simp: leader_reserve_def Let_def split: if_splits)
  ultimately show ?thesis using assms(2) by (metis length_map nth_map)
qed

lemma reserve_possible:
  assumes g: "geom T (srv_log sv) cc" and room: "start T (length T) + ENTRY_SIZE + ds + 1 + ENTRY_SIZE \<le> REGION_SIZE"
    and n: "length (servers sv) = unat (cc_group_size cc)" "unat (cc_group_size cc) \<le> MAX_SERVER_COUNT"
    and clt: "ty = P_NOP \<or> clt \<noteq> None"
  shows "\<exists>cc' sv' s. leader_reserve cc sv ds ty clt = Some (cc', sv', s) \<and> log_room sv' \<and> (ty = P_NOP \<or> s_clt s \<noteq> None)"
proof -
  note ns = next_slot [OF g]
  have r: "in_region (start T (length T)) (ENTRY_SIZE + ds + 1)" using room by (simp add: in_region_def)
  have t: "ty = P_TCP_CONNECT \<Longrightarrow> clt \<noteq> None" using clt by (auto simp: P_TCP_CONNECT_def P_NOP_def)
  have "leader_reserve cc sv ds ty clt \<noteq> None" using r t n unfolding leader_reserve_def Let_def ns(1) by (simp add: split_def)
  then obtain cc' sv' s where R: "leader_reserve cc sv ds ty clt = Some (cc', sv', s)" by (metis not_None_eq prod_cases3)
  have "s_clt s = (if ty = P_TCP_CONNECT then Some (get_next_view_stamp cc) else clt)"
    using R unfolding leader_reserve_def Let_def by (auto simp: split_def split: if_splits)
  then have cl: "ty = P_NOP \<or> s_clt s \<noteq> None" using clt by simp
  have "unat (of_nat (start T (length T) + (ENTRY_SIZE + ds + 1) - OFF_ENTRIES) :: u64) = start T (length T) + (ENTRY_SIZE + ds + 1) - OFF_ENTRIES"
    using room by (intro unat_log_off) (simp add: layout_simps)
  then have "log_room sv'" using reserve_ok(4) [OF g R(1) refl] room start_ge [of T "length T"] by (simp add: log_room_def layout_simps)
  then show ?thesis using R cl by blast
qed

text \<open>The entry goes to every connected peer.\<close>

lemma posts_run:
  assumes k: "k < length (threads c)" and pc: "t_pc (threads c ! k) = TPosting 0" and i: "i \<le> n"
  shows "\<exists>ms. (cstep B ug base n ld)\<^sup>*\<^sup>* c ((upd_thread c k ((threads c ! k)\<lparr>t_pc := TPosting i\<rparr>))\<lparr>net := net c @ ms\<rparr>) \<and>
     (\<forall>j < i. j \<noteq> unat (srv_idx (nd_srv (nodes c ld))) \<longrightarrow> connected c ld j \<longrightarrow> (\<exists>x \<in> set ms. is_entry x j k))"
  using i
proof (induction i)
  case 0
  have "(upd_thread c k ((threads c ! k)\<lparr>t_pc := TPosting 0\<rparr>))\<lparr>net := net c @ []\<rparr> = c"
    using pc by (cases "threads c ! k") (simp add: upd_thread_def list_update_same_conv k)
  then show ?case by (intro exI [of _ "[]"]) simp
next
  case (Suc i)
  let ?t = "threads c ! k"
  from Suc obtain ms where r: "(cstep B ug base n ld)\<^sup>*\<^sup>* c ((upd_thread c k (?t\<lparr>t_pc := TPosting i\<rparr>))\<lparr>net := net c @ ms\<rparr>)"
    and m: "\<And>j. j < i \<Longrightarrow> j \<noteq> unat (srv_idx (nd_srv (nodes c ld))) \<Longrightarrow> connected c ld j \<Longrightarrow> \<exists>x \<in> set ms. is_entry x j k"
    by auto
  let ?c = "(upd_thread c k (?t\<lparr>t_pc := TPosting i\<rparr>))\<lparr>net := net c @ ms\<rparr>"
  let ?pa = "leader_post (nd_srv (nodes c ld)) (node_log c ld) (t_slot ?t) i"
  let ?xs = "case ?pa of None \<Rightarrow> [] | Some p \<Rightarrow> [msg_of base (MEntry k) p]"
  have "cstep B ug base n ld ?c ((upd_thread ?c k ((?t\<lparr>t_pc := TPosting i\<rparr>)\<lparr>t_pc := TPosting (Suc i)\<rparr>))\<lparr>net := net ?c @ ?xs\<rparr>)"
    using k Suc.prems by (intro cstep.post [where i = i]) (simp_all add: upd_thread_def)
  then have "(cstep B ug base n ld)\<^sup>*\<^sup>* c ((upd_thread c k (?t\<lparr>t_pc := TPosting (Suc i)\<rparr>))\<lparr>net := net c @ (ms @ ?xs)\<rparr>)"
    using r by (simp add: upd_thread_def)
  moreover have "\<exists>x \<in> set (ms @ ?xs). is_entry x j k"
    if j: "j < Suc i" "j \<noteq> unat (srv_idx (nd_srv (nodes c ld)))" "connected c ld j" for j
  proof (cases "j = i")
    case True
    then obtain p where "?pa = Some p" "pa_server p = i" using j by (auto simp: leader_post_def Let_def)
    then show ?thesis using True by (auto simp: is_entry_def msg_of_def)
  qed (use m [of j] j in auto)
  ultimately show ?case by blast
qed

definition request_of :: "thread \<Rightarrow> nat \<Rightarrow> u8 list option \<Rightarrow> u8 \<Rightarrow> bool" where
  "request_of t ds data ty \<longleftrightarrow> t_size t = ds \<and> t_data t = data \<and> t_type t = ty"

text \<open>The database of server \<open>j\<close> accepts records.\<close>

definition db_works :: "'d bdb \<Rightarrow> 'd cluster \<Rightarrow> nat \<Rightarrow> bool" where
  "db_works B c j \<longleftrightarrow> (\<forall>key v. fst (store_record B (db_ptr (node_cc c j)) key v) = 0)"

lemma fill_possible: "ty = P_NOP \<or> s_clt s \<noteq> None \<Longrightarrow> \<exists>m'. leader_fill cc m s data ty = Some m'"
  by (auto simp: leader_fill_def Let_def)

lemma submit_filled:
  fixes clt :: "view_stamp option"
  assumes inv: "cinv base n ld c" and room: "start (threads c) (length (threads c)) + ENTRY_SIZE + ds + 1 + ENTRY_SIZE \<le> REGION_SIZE"
    and data: "\<forall>bs. data = Some bs \<longrightarrow> length bs = ds" and clt: "ty = P_NOP \<or> clt \<noteq> None"
  shows "\<exists>c' t. (cstep B ug base n ld)\<^sup>*\<^sup>* c c' \<and> threads c' = threads c @ [t] \<and> request_of t ds data ty \<and> t_pc t = TFilled \<and>
     net c' = net c \<and> (\<forall>j. j \<noteq> ld \<longrightarrow> nodes c' j = nodes c j) \<and> (\<forall>j < n. connected c' ld j = connected c ld j) \<and>
     db_ptr (node_cc c' ld) = db_ptr (node_cc c ld)"
proof -
  let ?nd = "nodes c ld" let ?k = "length (threads c)"
  note ld = cinvD(1,2) [OF inv] and g = cinvD(4) [OF inv]
  have st: "cc_group_size (nd_cc ?nd) = of_nat n" "length (servers (nd_srv ?nd)) = n"
    using cinvD(3) [OF inv ld(1)] by (simp_all add: static_ok_def)
  have un: "unat (of_nat n :: u32) = n" using ld(2) by (intro unat_req_stamp) (simp add: MAX_SERVER_COUNT_def)
  obtain cc' sv' s where R: "leader_reserve (nd_cc ?nd) (nd_srv ?nd) ds ty clt = Some (cc', sv', s)" "log_room sv'" "ty = P_NOP \<or> s_clt s \<noteq> None"
    using reserve_possible [OF g room, of ty clt] st un ld(2) clt by auto
  obtain m' where F: "leader_fill cc' (srv_log sv') s data ty = Some m'" using fill_possible [OF R(3)] by blast
  have cc': "db_ptr cc' = db_ptr (nd_cc ?nd)" using reserve_ok(10) [OF g R(1) refl] by simp
  define t where "t = \<lparr>t_slot = s, t_size = ds, t_data = data, t_type = ty, t_pc = TReserved, t_bits = 0\<rparr>"
  define c1 where "c1 = (upd_node c ld (?nd\<lparr>nd_cc := cc', nd_srv := sv'\<rparr>))\<lparr>threads := threads c @ [t]\<rparr>"
  have f1: "threads c1 = threads c @ [t]" "net c1 = net c" "nodes c1 = (nodes c)(ld := ?nd\<lparr>nd_cc := cc', nd_srv := sv'\<rparr>)"
    by (simp_all add: c1_def upd_node_def)
  define c2 where "c2 = upd_thread (upd_node c1 ld (set_node_log (nodes c1 ld) m')) ?k (t\<lparr>t_pc := TFilled\<rparr>)"
  have f2: "threads c2 = threads c @ [t\<lparr>t_pc := TFilled\<rparr>]" "net c2 = net c"
      "nodes c2 = (nodes c)(ld := ?nd\<lparr>nd_cc := cc', nd_srv := sv'\<lparr>srv_log := m'\<rparr>\<rparr>)"
    by (simp_all add: c2_def upd_node_def upd_thread_def set_node_log_def f1)
  have "cstep B ug base n ld c c1" unfolding c1_def t_def by (rule cstep.reserve [OF R(1,2) data])
  moreover have "cstep B ug base n ld c1 c2" unfolding c2_def using F by (intro cstep.fill) (simp_all add: f1 t_def)
  ultimately have "(cstep B ug base n ld)\<^sup>*\<^sup>* c c2" by (meson converse_rtranclp_into_rtranclp rtranclp.rtrancl_refl)
  moreover have "connected c2 ld j = connected c ld j" if "j < n" for j
    using reserve_connected [OF R(1), of j] st(2) that by (simp add: f2)
  ultimately show ?thesis using cc'
    by (intro exI [of _ c2] exI [of _ "t\<lparr>t_pc := TFilled\<rparr>"]) (simp add: f2 t_def request_of_def)
qed

lemma submit_stored:
  fixes clt :: "view_stamp option"
  assumes inv: "cinv base n ld c" and room: "start (threads c) (length (threads c)) + ENTRY_SIZE + ds + 1 + ENTRY_SIZE \<le> REGION_SIZE"
    and data: "\<forall>bs. data = Some bs \<longrightarrow> length bs = ds" and clt: "ty = P_NOP \<or> clt \<noteq> None" and db: "db_works B c ld"
  shows "\<exists>c' t. (cstep B ug base n ld)\<^sup>*\<^sup>* c c' \<and> threads c' = threads c @ [t] \<and> request_of t ds data ty \<and> t_pc t = TPosting 0 \<and>
     net c' = net c \<and> (\<forall>j. j \<noteq> ld \<longrightarrow> nodes c' j = nodes c j) \<and> (\<forall>j < n. connected c' ld j = connected c ld j)"
proof -
  let ?k = "length (threads c)"
  obtain c2 t where c2: "(cstep B ug base n ld)\<^sup>*\<^sup>* c c2" "threads c2 = threads c @ [t]" "request_of t ds data ty" "t_pc t = TFilled"
      "net c2 = net c" "\<forall>j. j \<noteq> ld \<longrightarrow> nodes c2 j = nodes c j" "\<forall>j < n. connected c2 ld j = connected c ld j"
      "db_ptr (node_cc c2 ld) = db_ptr (node_cc c ld)"
    using submit_filled [OF inv room data clt, where B = B and ug = ug] by (elim exE conjE) (rule that)
  have "fst (leader_store B (node_cc c2 ld) (node_log c2 ld) (t_slot t)) = 0"
    using db c2(8) by (simp add: leader_store_def db_works_def split_def)
  then obtain cc' where S: "leader_store B (node_cc c2 ld) (node_log c2 ld) (t_slot t) = (0, cc')" by (metis prod.collapse)
  define c3 where "c3 = upd_thread (upd_node c2 ld ((set_node_log (nodes c2 ld) (leader_dummy (node_log c2 ld) (t_slot t)))\<lparr>nd_cc := cc'\<rparr>)) ?k
    (t\<lparr>t_pc := TPosting 0\<rparr>)"
  have tk: "?k < length (threads c2)" "t = threads c2 ! ?k" using c2(2) by simp_all
  have "cstep B ug base n ld c2 c3" unfolding c3_def using cstep.store [OF tk c2(4) S, of ug base n] by simp
  then have "(cstep B ug base n ld)\<^sup>*\<^sup>* c c3" using c2(1) by simp
  then show ?thesis using c2(2,3,5,6,7)
    by (intro exI [of _ c3] exI [of _ "t\<lparr>t_pc := TPosting 0\<rparr>"]) (simp add: c3_def upd_node_def upd_thread_def set_node_log_def request_of_def)
qed

text \<open>A request whose record is refused by the database.\<close>

lemma failed_run:
  fixes clt :: "view_stamp option" and data :: "u8 list option"
  assumes inv: "cinv base n ld c" and room: "start (threads c) (length (threads c)) + ENTRY_SIZE + ds + 1 + ENTRY_SIZE \<le> REGION_SIZE"
    and data: "\<forall>bs. data = Some bs \<longrightarrow> length bs = ds" and clt: "ty = P_NOP \<or> clt \<noteq> None"
    and db: "\<forall>key v. fst (store_record B (db_ptr (node_cc c ld)) key v) \<noteq> 0"
  shows "\<exists>c' t. (cstep B ug base n ld)\<^sup>*\<^sup>* c c' \<and> threads c' = threads c @ [t] \<and> t_pc t = TFailed"
proof -
  let ?k = "length (threads c)"
  obtain c2 t where c2: "(cstep B ug base n ld)\<^sup>*\<^sup>* c c2" "threads c2 = threads c @ [t]" "t_pc t = TFilled"
      "db_ptr (node_cc c2 ld) = db_ptr (node_cc c ld)"
    using submit_filled [OF inv room data clt, where B = B and ug = ug] by (elim exE conjE) (rule that)
  obtain ret cc' where S: "leader_store B (node_cc c2 ld) (node_log c2 ld) (t_slot t) = (ret, cc')" by force
  then have "ret \<noteq> 0" using db c2(4) by (auto simp: leader_store_def split: prod.splits) (metis fst_conv)
  moreover have tk: "?k < length (threads c2)" "t = threads c2 ! ?k" using c2(2) by simp_all
  ultimately have "cstep B ug base n ld c2 (upd_thread (upd_node c2 ld ((nodes c2 ld)\<lparr>nd_cc := cc'\<rparr>)) ?k (t\<lparr>t_pc := TFailed\<rparr>))"
    using cstep.store [OF tk c2(3) S, of ug base n] by simp
  then have "(cstep B ug base n ld)\<^sup>*\<^sup>* c (upd_thread (upd_node c2 ld ((nodes c2 ld)\<lparr>nd_cc := cc'\<rparr>)) ?k (t\<lparr>t_pc := TFailed\<rparr>))" using c2(1) by simp
  then show ?thesis using c2(2) by (intro exI) (auto simp: upd_thread_def upd_node_def)
qed

lemma submit_run:
  fixes clt :: "view_stamp option"
  assumes inv: "cinv base n ld c" and room: "start (threads c) (length (threads c)) + ENTRY_SIZE + ds + 1 + ENTRY_SIZE \<le> REGION_SIZE"
    and data: "\<forall>bs. data = Some bs \<longrightarrow> length bs = ds" and clt: "ty = P_NOP \<or> clt \<noteq> None" and db: "db_works B c ld"
  shows "\<exists>c' t. (cstep B ug base n ld)\<^sup>*\<^sup>* c c' \<and> threads c' = threads c @ [t] \<and> request_of t ds data ty \<and> t_pc t = TWaiting \<and>
     (\<forall>j. j \<noteq> ld \<longrightarrow> nodes c' j = nodes c j) \<and>
     (\<forall>j < n. j \<noteq> ld \<longrightarrow> connected c ld j \<longrightarrow> (\<exists>x \<in> set (net c'). is_entry x j (length (threads c))))"
proof -
  let ?k = "length (threads c)"
  obtain c1 t where c1: "(cstep B ug base n ld)\<^sup>*\<^sup>* c c1" "threads c1 = threads c @ [t]" "request_of t ds data ty" "t_pc t = TPosting 0"
      "net c1 = net c" "\<And>j. j \<noteq> ld \<Longrightarrow> nodes c1 j = nodes c j" "\<And>j. j < n \<Longrightarrow> connected c1 ld j = connected c ld j"
    using submit_stored [OF assms, where ug = ug] by blast
  have k: "?k < length (threads c1)" and t: "threads c1 ! ?k = t" using c1(2) by simp_all
  obtain ms where r: "(cstep B ug base n ld)\<^sup>*\<^sup>* c1 ((upd_thread c1 ?k (t\<lparr>t_pc := TPosting n\<rparr>))\<lparr>net := net c1 @ ms\<rparr>)"
    and m: "\<And>j. j < n \<Longrightarrow> j \<noteq> unat (srv_idx (nd_srv (nodes c1 ld))) \<Longrightarrow> connected c1 ld j \<Longrightarrow> \<exists>x \<in> set ms. is_entry x j ?k"
    using posts_run [OF k _ order_refl, where i = n and B = B and ug = ug and base = base and ld = ld] t c1(4) by auto
  let ?c2 = "(upd_thread c1 ?k (t\<lparr>t_pc := TPosting n\<rparr>))\<lparr>net := net c1 @ ms\<rparr>"
  let ?t3 = "(t\<lparr>t_pc := TPosting n\<rparr>)\<lparr>t_pc := TWaiting, t_bits := node_bit (cc_node_id (node_cc ?c2 ld))\<rparr>"
  have "cstep B ug base n ld ?c2 (upd_thread ?c2 ?k ?t3)" using c1(2) by (intro cstep.posted) (simp_all add: upd_thread_def)
  then have "(cstep B ug base n ld)\<^sup>*\<^sup>* c (upd_thread ?c2 ?k ?t3)" using c1(1) r by (meson rtranclp.rtrancl_into_rtrancl rtranclp_trans)
  moreover have i1: "cinv base n ld c1" by (rule cluster_sys.steps_inv [OF c1(1) inv])
  have "unat (srv_idx (nd_srv (nodes c1 ld))) = ld"
    using cinvD(3) [OF i1 cinvD(1) [OF i1]] cinvD(1,2) [OF i1] unat_small [of ld] by (simp add: static_ok_def)
  then have "\<exists>x \<in> set (net c1 @ ms). is_entry x j ?k" if "j < n" "j \<noteq> ld" "connected c ld j" for j
    using m [of j] c1(7) [of j] that by auto
  ultimately show ?thesis using c1(2,3,6)
    by (intro exI [of _ "upd_thread ?c2 ?k ?t3"] exI [of _ ?t3]) (simp add: upd_thread_def request_of_def)
qed

section \<open>Acknowledging\<close>

lemma slot_complete:
  assumes ds: "e_data_size m (start T k) = of_nat (t_size (T ! k)) + 1" and len: "unat (log_entry_len m (start T k)) = width (T ! k)"
    and b: "t_size (T ! k) < 2 ^ 28" and d: "m (start T k + width (T ! k) - 1) = DUMMY_END"
  shows "entry_complete m (start T k)"
proof -
  have "unat (of_nat (t_size (T ! k)) + 1 :: u64) = Suc (t_size (T ! k))"
    using b by (simp add: unat_word_ariths unsigned_of_nat take_bit_nat_eq_self)
  then have "e_data_size m (start T k) \<noteq> 0" using ds by auto
  then show ?thesis using len d by (simp add: entry_complete_def)
qed

lemma arrived_complete:
  assumes inv: "cinv base n ld c" and k: "k < length (threads c)" and po: "posted (t_pc (threads c ! k))"
    and a: "arrived (threads c) (node_log c ld) F k (width (threads c ! k))"
  shows "entry_complete F (start (threads c) k)"
proof -
  note sl = slot_at [OF inv k]
  note fd = arrived_fields [OF cinvD(4) [OF inv] k sl(5) po a]
  have "E_MSG_VS < width (threads c ! k)" using width_ge(1) [of "threads c ! k"] by (simp add: layout_simps)
  then have "F (start (threads c) k + width (threads c ! k) - 1) = DUMMY_END"
    using arrivedD(1) [OF a, of "start (threads c) k + width (threads c ! k) - 1"] sl(5) po by (simp add: entry_ok_def)
  then show ?thesis using sl(4) start_ge [of "threads c" k] by (intro slot_complete [OF fd(5,4)]) (simp_all add: width_def layout_simps)
qed

lemma apply_possible: "v < 2 ^ 28 \<Longrightarrow> \<exists>r. apply_committed cc (stamp v) = Some r"
proof -
  assume "v < 2 ^ 28"
  then have "unat (vstol (stamp v)) = 2 ^ 32 + v" by (intro unat_vstol_stamp) simp
  then have "vstol (stamp v) \<noteq> - 1" using \<open>v < 2 ^ 28\<close> by (auto simp: word_unat_eq_iff unsigned_minus_1_eq_mask mask_eq_exp_minus_1)
  then show ?thesis by (simp add: apply_committed_def exec_range_def)
qed

text \<open>A complete entry that is not an output check is accepted.\<close>

lemma accept_possible:
  assumes inv: "cinv base n ld c" and j: "j < n" "j \<noteq> ld" and k: "k = proc c j" "k < length (threads c)"
    and po: "posted (t_pc (threads c ! k))" and ty: "t_type (threads c ! k) \<noteq> P_OUTPUT"
    and a: "arrived (threads c) (node_log c ld) (node_log c j) k (width (threads c ! k))"
  shows "\<exists>r. handle_accept_req B ug (node_cc c j) (nd_srv (nodes c j)) out = Some r \<and> accepted base ld c j k r"
proof -
  let ?T = "threads c" let ?F = "node_log c j" let ?e = "start ?T k" let ?w = "width (?T ! k)"
  let ?m = "set_end ?F (of_nat (?e - OFF_ENTRIES))"
  have f: "foll_ok ?T (node_cc c j) ?F (net c) (committed c ld) j k (nd_exec (nodes c j))" unfolding k by (rule cinvD(11) [OF inv j])
  note ne = next_entry [OF f cinvD(4) [OF inv]] and sl = slot_at [OF inv k(2)]
  have st: "static_ok base n ld j (nodes c j)" by (rule cinvD(3) [OF inv j(1)])
  have jm: "j < MAX_SERVER_COUNT" and ldm: "ld < MAX_SERVER_COUNT" using j cinvD(1,2) [OF inv] by simp_all
  have role: "leader_id (cur_view (node_cc c j)) \<noteq> cc_node_id (node_cc c j)"
    using st j(2) unat_small [OF jm] unat_small [OF ldm] by (auto simp: static_ok_def)
  have "{0..<OFF_ENTRIES} \<inter> body_set ?T k = {}" using start_ge [of ?T k] by auto
  then have ar: "arrived ?T (node_log c ld) ?m k ?w"
    by (intro arrived_same [OF a order_refl same_on_refl] unch_body [OF unch_set(1)])
  note fd = arrived_fields [OF cinvD(4) [OF inv] k(2) sl(5) po ar]
  obtain v where v: "v \<le> k" "e_canbe ?m ?e = stamp v" using fd(3) by blast
  then obtain cc2 ix where ap: "apply_committed (accept_store B (node_cc c j) ?m ?e) (e_canbe ?m ?e) = Some (cc2, ix)"
    using apply_possible [of v "accept_store B (node_cc c j) ?m ?e"] sl(2) by fastforce
  let ?sv = "(nd_srv (nodes c j))\<lparr>srv_log := ?m\<rparr>"
  have b: "?e + ?w \<le> REGION_SIZE" using sl(4) by simp
  have em: "log_end ?m = of_nat (?e - OFF_ENTRIES)" by simp
  note nid = accept_log_ok(4) [OF start_ge b jm em fd(4) refl, where k = k and h = None, unfolded fd(2)]
  have "accept_entry B ug (node_cc c j) ?sv out ?e \<noteq> None"
    using ap fd(6) ty nid st unat_small [OF ldm] cinvD(1) [OF inv]
    by (simp add: accept_entry_def Let_def accept_hash_def entry_has_def accept_post_def fd(1) static_ok_def)
  then obtain r where r: "accept_entry B ug (node_cc c j) ?sv out ?e = Some r" by blast
  have cm: "entry_complete ?m ?e" by (rule arrived_complete [OF inv k(2) po ar])
  have "in_region ?e ENTRY_SIZE" "in_region ?e (unat (log_entry_len ?m ?e))" using ne(3) fd(4) sl(4) by (simp_all add: in_region_def)
  then have "handle_accept_req B ug (node_cc c j) (nd_srv (nodes c j)) out = Some r"
    using role ne(1) cm r by (simp add: handle_accept_req_def Let_def)
  moreover have "accepted base ld c j k r"
    by (rule accept_entry_facts [OF inv j k(1) arrived_complete [OF inv k(2) po a] refl refl r])
  ultimately show ?thesis by blast
qed

lemma entries_advance:
  assumes "i < length ms" and "\<exists>y \<in> set ms. is_entry y j k"
  shows "\<exists>y \<in> set (ms[i := advance (ms ! i) cnt]). is_entry y j k"
proof -
  obtain q where q: "q < length ms" "is_entry (ms ! q) j k" using assms(2) by (metis in_set_conv_nth)
  then have "is_entry (ms[i := advance (ms ! i) cnt] ! q) j k" using assms(1) by (cases "q = i") simp_all
  then show ?thesis using q(1) by (metis length_list_update nth_mem)
qed

lemma deliver_run:
  assumes inv: "cinv base n ld c" and j: "j < n" "j \<noteq> ld" and x: "x \<in> set (net c)" "is_entry x j k"
  shows "\<exists>c'. cstep B ug base n ld c c' \<and> threads c' = threads c \<and> (\<forall>i. i \<noteq> j \<longrightarrow> nodes c' i = nodes c i) \<and>
     node_cc c' j = node_cc c j \<and> (\<forall>i q. (\<exists>y \<in> set (net c). is_entry y i q) \<longrightarrow> (\<exists>y \<in> set (net c'). is_entry y i q)) \<and>
     k < length (threads c) \<and> posted (t_pc (threads c ! k)) \<and>
     arrived (threads c) (node_log c' ld) (node_log c' j) k (width (threads c ! k))"
proof -
  obtain i where i: "i < length (net c)" "net c ! i = x" using x(1) by (metis in_set_conv_nth)
  let ?c = "(upd_node c (m_dst x) (set_node_log (nodes c (m_dst x))
          (put_bytes (node_log c (m_dst x)) (m_off x) (take (length (m_bytes x)) (m_bytes x)))))\<lparr>net := (net c)[i := advance x (length (m_bytes x))]\<rparr>"
  have d: "m_dst x = j" "m_kind x = MEntry k" using x(2) by (simp_all add: is_entry_def)
  have s: "cstep B ug base n ld c ?c" unfolding advance_def using i by (intro cstep.deliver) simp_all
  have f: "flight (threads c) (node_log c ld) (node_log c j) j x k" using flight_okD(1) [OF cinvD(8) [OF inv j], of i k] i x(2) by simp
  have "flight (threads c) (node_log c ld) (node_log ?c j) j (advance x (length (m_bytes x))) k"
    using flight_advance(1) [OF f order_refl] by (simp add: upd_node_def set_node_log_def d(1))
  then have "arrived (threads c) (node_log c ld) (node_log ?c j) k (width (threads c ! k))" by (auto simp: flight_def advance_def)
  then have a: "arrived (threads c) (node_log ?c ld) (node_log ?c j) k (width (threads c ! k))" using d(1) j(2) by (simp add: upd_node_def)
  have e: "\<exists>y \<in> set (net ?c). is_entry y i' q" if "\<exists>y \<in> set (net c). is_entry y i' q" for i' q
    using entries_advance [OF i(1) that] i(2) by simp
  have "k < length (threads c)" "posted (t_pc (threads c ! k))" using flight_past [OF f] past_posted by blast+
  then show ?thesis using s a e d
    by (intro exI [of _ ?c]) (simp add: upd_node_def set_node_log_def)
qed

lemma ack_run:
  assumes inv: "cinv base n ld c" and y: "y \<in> set (net c)" "m_kind y = MAck" "m_dst y = ld"
    and o: "m_off y = start (threads c) k + ACCEPT_ACK_SIZE * j" and a: "is_ack (m_bytes y) j k" and j: "j < MAX_SERVER_COUNT"
  shows "\<exists>F ms. cstep B ug base n ld c ((upd_node c ld (set_node_log (nodes c ld) F))\<lparr>net := ms\<rparr>) \<and>
     ack_msg_vs F (start (threads c) k) j = stamp (Suc k) \<and>
     (\<forall>i < MAX_SERVER_COUNT. i \<noteq> j \<longrightarrow> ack_msg_vs F (start (threads c) k) i = ack_msg_vs (node_log c ld) (start (threads c) k) i) \<and>
     (\<forall>i q. (\<exists>y \<in> set (net c). is_entry y i q) \<longrightarrow> (\<exists>y \<in> set ms. is_entry y i q))"
proof -
  obtain i where i: "i < length (net c)" "net c ! i = y" using y(1) by (metis in_set_conv_nth)
  let ?F = "put_bytes (node_log c ld) (m_off y) (take (length (m_bytes y)) (m_bytes y))"
  let ?ms = "(net c)[i := advance y (length (m_bytes y))]"
  have s: "cstep B ug base n ld c ((upd_node c (m_dst y) (set_node_log (nodes c (m_dst y)) (put_bytes (node_log c (m_dst y)) (m_off y)
      (take (length (m_bytes y)) (m_bytes y)))))\<lparr>net := ?ms\<rparr>)"
    unfolding advance_def using i by (intro cstep.deliver) simp_all
  have 1: "ack_msg_vs ?F (start (threads c) k) j = stamp (Suc k)"
    using a unfolding is_ack_def by (simp add: ack_msg_vs_def ack_off_def o)
  have len: "length (m_bytes y) = ACCEPT_ACK_SIZE" using a by (simp add: is_ack_def)
  have 2: "ack_msg_vs ?F (start (threads c) k) i' = ack_msg_vs (node_log c ld) (start (threads c) k) i'" if "i' \<noteq> j" for i'
  proof -
    have "same_on (ack_off (start (threads c) k) i' + ACK_MSG_VS) 8 (node_log c ld) ?F"
      using that len by (cases "i' < j") (auto simp: same_on_def put_bytes_def o ack_off_def layout_simps)
    then show ?thesis unfolding ack_msg_vs_def by (rule same_on_get_vs)
  qed
  have 3: "\<exists>y \<in> set ?ms. is_entry y i' q" if "\<exists>y \<in> set (net c). is_entry y i' q" for i' q
    using entries_advance [OF i(1) that] i(2) by simp
  show ?thesis using s 1 2 3 y(3) by (intro exI [of _ ?F] exI [of _ ?ms]) simp
qed

definition keeps_entries :: "'d cluster \<Rightarrow> 'd cluster \<Rightarrow> bool" where
  "keeps_entries c c' \<longleftrightarrow> (\<forall>i q. (\<exists>y \<in> set (net c). is_entry y i q) \<longrightarrow> (\<exists>y \<in> set (net c'). is_entry y i q))"

text \<open>A follower that is up to date receives an entry, accepts it, and the leader gets its acknowledgement.\<close>

lemma follower_run:
  assumes inv: "cinv base n ld c" and j: "j < n" "j \<noteq> ld" and k: "k = proc c j" and x: "\<exists>x \<in> set (net c). is_entry x j k"
    and ty: "t_type (threads c ! k) \<noteq> P_OUTPUT"
  shows "\<exists>c'. (cstep B ug base n ld)\<^sup>*\<^sup>* c c' \<and> threads c' = threads c \<and> (\<forall>i. i \<noteq> j \<longrightarrow> i \<noteq> ld \<longrightarrow> nodes c' i = nodes c i) \<and>
     proc c' j = Suc k \<and> keeps_entries c c' \<and> ack_msg_vs (node_log c' ld) (start (threads c) k) j = stamp (Suc k) \<and>
     (\<forall>i < MAX_SERVER_COUNT. i \<noteq> j \<longrightarrow> ack_msg_vs (node_log c' ld) (start (threads c) k) i = ack_msg_vs (node_log c ld) (start (threads c) k) i)"
proof -
  let ?T = "threads c"
  obtain c1 where c1: "cstep B ug base n ld c c1" "threads c1 = ?T" "\<And>i. i \<noteq> j \<Longrightarrow> nodes c1 i = nodes c i" "node_cc c1 j = node_cc c j"
      "\<And>i q. \<exists>y \<in> set (net c). is_entry y i q \<Longrightarrow> \<exists>y \<in> set (net c1). is_entry y i q"
      "k < length ?T" "posted (t_pc (?T ! k))" "arrived ?T (node_log c1 ld) (node_log c1 j) k (width (?T ! k))"
    using x deliver_run [OF inv j, where B = B and ug = ug] by metis
  have i1: "cinv base n ld c1" by (rule cinv_step [OF inv c1(1)])
  have jm: "j < MAX_SERVER_COUNT" using j(1) cinvD(2) [OF inv] by simp
  have k1: "k = proc c1 j" using k c1(4) by (simp add: proc_def)
  obtain r where r: "handle_accept_req B (ug j) (node_cc c1 j) (nd_srv (nodes c1 j)) (nd_out (nodes c1 j)) = Some r" "accepted base ld c1 j k r"
    using accept_possible [OF i1 j k1, of B "ug j" "nd_out (nodes c1 j)"] c1(2,6-8) ty by auto
  obtain post where po: "ar_posts r = [post]" "pa_server post = ld" "is_ack (pa_buf post) j k"
      "m_off (msg_of base MAck post) = start ?T k + ACCEPT_ACK_SIZE * j" "highest_seen_vs (ar_cc r) = stamp (Suc k)"
    using r(2) c1(2) unfolding accepted_def Let_def by auto
  define c2 where "c2 = (upd_node c1 j \<lparr>nd_cc = ar_cc r, nd_srv = ar_srv r, nd_out = ar_out r, nd_exec = nd_exec (nodes c1 j) @ ar_exec r\<rparr>)\<lparr>net :=
      net c1 @ map (msg_of base MAck) (ar_posts r)\<rparr>"
  have s2: "cstep B ug base n ld c1 c2" unfolding c2_def using j r(1) by (intro cstep.accept)
  have f2: "threads c2 = ?T" "\<And>i. i \<noteq> j \<Longrightarrow> nodes c2 i = nodes c i" "nd_cc (nodes c2 j) = ar_cc r" "net c2 = net c1 @ [msg_of base MAck post]"
    using c1(2,3) po(1) by (simp_all add: c2_def upd_node_def)
  have i2: "cinv base n ld c2" by (rule cinv_step [OF i1 s2])
  have y: "msg_of base MAck post \<in> set (net c2)" "m_kind (msg_of base MAck post) = MAck" "m_dst (msg_of base MAck post) = ld"
    "is_ack (m_bytes (msg_of base MAck post)) j k" using f2(4) po(2,3) by (simp_all add: msg_of_def)
  obtain F ms where F: "cstep B ug base n ld c2 ((upd_node c2 ld (set_node_log (nodes c2 ld) F))\<lparr>net := ms\<rparr>)"
      "ack_msg_vs F (start ?T k) j = stamp (Suc k)"
      "\<forall>i < MAX_SERVER_COUNT. i \<noteq> j \<longrightarrow> ack_msg_vs F (start ?T k) i = ack_msg_vs (node_log c2 ld) (start ?T k) i"
      "\<forall>i q. (\<exists>y \<in> set (net c2). is_entry y i q) \<longrightarrow> (\<exists>y \<in> set ms. is_entry y i q)"
    using ack_run [OF i2 y(1-3) _ y(4) jm, where B = B and ug = ug] po(4) f2(1) by auto
  let ?c = "(upd_node c2 ld (set_node_log (nodes c2 ld) F))\<lparr>net := ms\<rparr>"
  have "(cstep B ug base n ld)\<^sup>*\<^sup>* c ?c" using c1(1) s2 F(1) by (meson converse_rtranclp_into_rtranclp rtranclp.rtrancl_refl)
  moreover have "keeps_entries c ?c" using c1(5) F(4) f2(4) by (auto simp: keeps_entries_def)
  moreover have "proc ?c j = Suc k"
    using f2(3) po(5) slot_at(3) [OF inv c1(6)] unat_req_stamp [of "Suc k"] j(2) by (simp add: proc_def upd_node_def)
  ultimately show ?thesis using F(2,3) f2(1,2) j(2) by (intro exI [of _ ?c]) (simp add: upd_node_def set_node_log_def)
qed

lemma followers_run:
  assumes "cinv base n ld c" and "distinct js" and "\<forall>j \<in> set js. j < n \<and> j \<noteq> ld \<and> proc c j = k \<and> (\<exists>x \<in> set (net c). is_entry x j k)"
    and "t_type (threads c ! k) \<noteq> P_OUTPUT"
  shows "\<exists>c'. (cstep B ug base n ld)\<^sup>*\<^sup>* c c' \<and> threads c' = threads c \<and>
     (\<forall>j \<in> set js. proc c' j = Suc k \<and> ack_msg_vs (node_log c' ld) (start (threads c) k) j = stamp (Suc k)) \<and>
     (\<forall>i < MAX_SERVER_COUNT. i \<notin> set js \<longrightarrow> (i \<noteq> ld \<longrightarrow> nodes c' i = nodes c i) \<and>
        ack_msg_vs (node_log c' ld) (start (threads c) k) i = ack_msg_vs (node_log c ld) (start (threads c) k) i)"
  using assms
proof (induction js arbitrary: c)
  case Nil
  then show ?case by (intro exI [of _ c]) simp
next
  case (Cons j js)
  have j: "j < n" "j \<noteq> ld" "k = proc c j" "\<exists>x \<in> set (net c). is_entry x j k" using Cons.prems(3) by simp_all
  let ?ack = "\<lambda>c' i. ack_msg_vs (node_log c' ld) (start (threads c) k) i"
  obtain c1 where c1: "(cstep B ug base n ld)\<^sup>*\<^sup>* c c1" "threads c1 = threads c" "\<forall>i. i \<noteq> j \<longrightarrow> i \<noteq> ld \<longrightarrow> nodes c1 i = nodes c i"
      "proc c1 j = Suc k" "keeps_entries c c1" "?ack c1 j = stamp (Suc k)" "\<forall>i < MAX_SERVER_COUNT. i \<noteq> j \<longrightarrow> ?ack c1 i = ?ack c i"
    using follower_run [OF Cons.prems(1) j Cons.prems(4), where B = B and ug = ug] by (elim exE conjE) (rule that)
  have i1: "cinv base n ld c1" by (rule cluster_sys.steps_inv [OF c1(1) Cons.prems(1)])
  have nj: "distinct js" "j \<notin> set js" using Cons.prems(2) by simp_all
  have "i < n \<and> i \<noteq> ld \<and> proc c1 i = k \<and> (\<exists>x \<in> set (net c1). is_entry x i k)" if i: "i \<in> set js" for i
  proof -
    have p: "i < n" "i \<noteq> ld" "proc c i = k" "\<exists>x \<in> set (net c). is_entry x i k" "i \<noteq> j" using Cons.prems(3) i nj(2) by auto
    then have "\<exists>x \<in> set (net c1). is_entry x i k" using c1(5) unfolding keeps_entries_def by blast
    then show ?thesis using p c1(3) by (simp add: proc_def)
  qed
  then have hj: "\<forall>i \<in> set js. i < n \<and> i \<noteq> ld \<and> proc c1 i = k \<and> (\<exists>x \<in> set (net c1). is_entry x i k)" by blast
  have ht: "t_type (threads c1 ! k) \<noteq> P_OUTPUT" using Cons.prems(4) c1(2) by simp
  obtain c2 where c2: "(cstep B ug base n ld)\<^sup>*\<^sup>* c1 c2" "threads c2 = threads c" "\<forall>i \<in> set js. proc c2 i = Suc k \<and> ?ack c2 i = stamp (Suc k)"
      "\<forall>i < MAX_SERVER_COUNT. i \<notin> set js \<longrightarrow> (i \<noteq> ld \<longrightarrow> nodes c2 i = nodes c1 i) \<and> ?ack c2 i = ?ack c1 i"
    using Cons.IH [OF i1 nj(1) hj ht] unfolding c1(2) by (elim exE conjE) (rule that)
  have jm: "j < MAX_SERVER_COUNT" using j(1) cinvD(2) [OF Cons.prems(1)] by simp
  have "nodes c2 j = nodes c1 j" "?ack c2 j = ?ack c1 j" using c2(4) jm nj(2) j(2) by blast+
  then have "\<forall>i \<in> set (j # js). proc c2 i = Suc k \<and> ?ack c2 i = stamp (Suc k)" using c2(3) c1(4,6) by (simp add: proc_def)
  moreover have "\<forall>i < MAX_SERVER_COUNT. i \<notin> set (j # js) \<longrightarrow> (i \<noteq> ld \<longrightarrow> nodes c2 i = nodes c i) \<and> ?ack c2 i = ?ack c i"
    using c2(4) c1(3,7) by simp
  moreover have "(cstep B ug base n ld)\<^sup>*\<^sup>* c c2" using c1(1) c2(1) by (rule rtranclp_trans)
  ultimately show ?case using c2(2) by blast
qed

text \<open>
  A request in an idle group: every earlier request is committed and a majority, counting the
  leader, is connected and has processed all of them.
\<close>

definition idle :: "nat \<Rightarrow> nat \<Rightarrow> nat set \<Rightarrow> 'd cluster \<Rightarrow> bool" where
  "idle n ld Q c \<longleftrightarrow> Q \<subseteq> {..<n} - {ld} \<and> n div 2 \<le> card Q \<and> (\<forall>t \<in> set (threads c). t_pc t = TCommitted) \<and>
     (\<forall>j \<in> Q. connected c ld j \<and> proc c j = length (threads c))"

lemma request_run:
  fixes clt :: "view_stamp option"
  assumes inv: "cinv base n ld c" and own: "own_bit ld c" and idle: "idle n ld Q c"
    and room: "start (threads c) (length (threads c)) + ENTRY_SIZE + ds + 1 + ENTRY_SIZE \<le> REGION_SIZE"
    and data: "\<forall>bs. data = Some bs \<longrightarrow> length bs = ds" and clt: "ty = P_NOP \<or> clt \<noteq> None" and ty: "ty \<noteq> P_OUTPUT" and db: "db_works B c ld"
  shows "\<exists>c' t. (cstep B ug base n ld)\<^sup>*\<^sup>* c c' \<and> threads c' = threads c @ [t] \<and> request_of t ds data ty \<and> t_pc t = TCommitted \<and>
     (\<forall>j \<in> Q. proc c' j = Suc (length (threads c)))"
proof -
  let ?k = "length (threads c)"
  have Q: "Q \<subseteq> {..<n} - {ld}" "n div 2 \<le> card Q" "\<And>j. j \<in> Q \<Longrightarrow> connected c ld j" "\<And>j. j \<in> Q \<Longrightarrow> proc c j = ?k"
    "\<forall>t \<in> set (threads c). t_pc t = TCommitted" using idle by (simp_all add: idle_def)
  obtain c1 t where c1: "(cstep B ug base n ld)\<^sup>*\<^sup>* c c1" "threads c1 = threads c @ [t]" "request_of t ds data ty" "t_pc t = TWaiting"
      "\<And>j. j \<noteq> ld \<Longrightarrow> nodes c1 j = nodes c j" "\<And>j. j < n \<Longrightarrow> j \<noteq> ld \<Longrightarrow> connected c ld j \<Longrightarrow> \<exists>x \<in> set (net c1). is_entry x j ?k"
    using submit_run [OF inv room data clt db, where ug = ug] by blast
  have i1: "cinv base n ld c1" by (rule cluster_sys.steps_inv [OF c1(1) inv])
  obtain js where js: "set js = Q" "distinct js" using finite_distinct_list [of Q] finite_subset [OF Q(1)] by blast
  have hj: "\<forall>j \<in> set js. j < n \<and> j \<noteq> ld \<and> proc c1 j = ?k \<and> (\<exists>x \<in> set (net c1). is_entry x j ?k)"
  proof
    fix j assume "j \<in> set js"
    then have j: "j \<in> Q" "j < n" "j \<noteq> ld" using js(1) Q(1) by auto
    then show "j < n \<and> j \<noteq> ld \<and> proc c1 j = ?k \<and> (\<exists>x \<in> set (net c1). is_entry x j ?k)"
      using Q(3,4) [OF j(1)] c1(5) [OF j(3)] c1(6) [OF j(2,3)] by (simp add: proc_def)
  qed
  have ht: "t_type (threads c1 ! ?k) \<noteq> P_OUTPUT" using c1(2,3) ty by (simp add: request_of_def)
  obtain c2 where c2: "(cstep B ug base n ld)\<^sup>*\<^sup>* c1 c2" "threads c2 = threads c @ [t]"
      "\<forall>j \<in> Q. proc c2 j = Suc ?k \<and> ack_msg_vs (node_log c2 ld) (start (threads c @ [t]) ?k) j = stamp (Suc ?k)"
    using followers_run [OF i1 js(2) hj ht, where B = B and ug = ug] unfolding c1(2) js(1) by (elim exE conjE) (rule that)
  have i2: "cinv base n ld c2" by (rule cluster_sys.steps_inv [OF c2(1) i1])
  have o2: "own_bit ld c2" using cluster_votes.steps_extra [OF rtranclp_trans [OF c1(1) c2(1)] inv own] .
  have k2: "?k < length (threads c2)" "threads c2 ! ?k = t" using c2(2) by simp_all
  have "s_entry (t_slot t) = start (threads c2) ?k" "s_next (t_slot t) = stamp (Suc ?k)"
    using slot_at(1) [OF i2 k2(1)] k2(2) by (simp_all add: slot_ok_def)
  then obtain b where b: "(cstep B ug base n ld)\<^sup>*\<^sup>* c2 (upd_thread (upd_node c2 ld ((nodes c2 ld)\<lparr>nd_cc := leader_commit (node_cc c2 ld)\<rparr>)) ?k
      (t\<lparr>t_bits := b, t_pc := TCommitted\<rparr>))"
    using commit_run [OF i2 o2 k2(1) _ _ Q(1,2), where B = B and ug = ug] c2 c1(2,4) Q(5) k2(2) by (auto simp: nth_append)
  let ?c = "upd_thread (upd_node c2 ld ((nodes c2 ld)\<lparr>nd_cc := leader_commit (node_cc c2 ld)\<rparr>)) ?k (t\<lparr>t_bits := b, t_pc := TCommitted\<rparr>)"
  have "(cstep B ug base n ld)\<^sup>*\<^sup>* c ?c" using c1(1) c2(1) b by (meson rtranclp_trans)
  moreover have "proc ?c j = Suc ?k" if "j \<in> Q" for j
    using c2(3) that Q(1) by (auto simp: proc_def upd_thread_def upd_node_def leader_commit_def)
  ultimately show ?thesis using c2(2) c1(3)
    by (intro exI [of _ ?c] exI [of _ "t\<lparr>t_bits := b, t_pc := TCommitted\<rparr>"]) (simp add: upd_thread_def upd_node_def request_of_def)
qed

end
