(* ===== verification/Cluster_Safety.thy ===== *)
theory Cluster_Safety
  imports Cluster_Live
begin

text \<open>
  What the group guarantees. A committed request is held in full by a majority of the servers; a
  follower executes the committed requests in the leader's order and without gaps; requests keep
  their content and what is committed stays committed; an idle group with a connected majority can
  serve a request. A request whose record could not be stored at the leader keeps every later
  request from being committed.
\<close>

section \<open>Held requests\<close>

text \<open>Server \<open>j\<close> has request \<open>k\<close> complete in its log, with its stamp, type and data.\<close>

definition holds_request :: "'d cluster \<Rightarrow> nat \<Rightarrow> nat \<Rightarrow> bool" where
  "holds_request c j k =
     (let t = threads c ! k; e = s_entry (t_slot t); m = node_log c j
      in entry_complete m e \<and> e_msg_vs m e = s_next (t_slot t) \<and> entry_has m e t)"

lemma leader_holds:
  assumes inv: "cinv base n ld c" and k: "k < length (threads c)" and p: "posted (t_pc (threads c ! k))"
  shows "holds_request c ld k"
proof -
  note sl = slot_at [OF inv k]
  have e: "s_entry (t_slot (threads c ! k)) = start (threads c) k" "s_next (t_slot (threads c ! k)) = stamp (Suc k)"
    using sl(1) by (simp_all add: slot_ok_def)
  have eo: "e_data_size (node_log c ld) (start (threads c) k) = of_nat (t_size (threads c ! k)) + 1"
    "e_msg_vs (node_log c ld) (start (threads c) k) = stamp (Suc k)" "entry_has (node_log c ld) (start (threads c) k) (threads c ! k)"
    "node_log c ld (start (threads c) k + width (threads c ! k) - 1) = DUMMY_END"
    using sl(5) p posted_filled [OF p] by (simp_all add: entry_ok_def)
  have "entry_complete (node_log c ld) (start (threads c) k)"
    using sl(4) start_ge [of "threads c" k]
    by (intro slot_complete [OF eo(1) entry_len(2) [OF cinvD(4) [OF inv] k eo(1)] _ eo(4)]) (simp add: width_def layout_simps)
  then show ?thesis using e eo by (simp add: holds_request_def)
qed

lemma processed_arrived:
  assumes inv: "cinv base n ld c" and j: "j < n" "j \<noteq> ld" and k: "k < proc c j"
  shows "k < length (threads c)" "posted (t_pc (threads c ! k))"
    "arrived (threads c) (node_log c ld) (node_log c j) k (width (threads c ! k))"
proof -
  obtain x where x: "x \<in> set (net c)" "is_entry x j k" "m_bytes x = []"
    using cinvD(11) [OF inv j] k by (auto simp: foll_ok_def)
  then obtain i where i: "i < length (net c)" "x = net c ! i" by (metis in_set_conv_nth)
  then have f: "flight (threads c) (node_log c ld) (node_log c j) j x k"
    using flight_okD(1) [OF cinvD(8) [OF inv j], of i k] x(2) by simp
  then show "k < length (threads c)" "posted (t_pc (threads c ! k))"
    using past_posted by (auto simp: flight_def)
  show "arrived (threads c) (node_log c ld) (node_log c j) k (width (threads c ! k))" using f x(3) by (auto simp: flight_def)
qed

lemma follower_holds:
  assumes inv: "cinv base n ld c" and j: "j < n" "j \<noteq> ld" and k: "k < proc c j"
  shows "holds_request c j k"
proof -
  note pa = processed_arrived [OF inv j k]
  note sl = slot_at [OF inv pa(1)]
  note fd = arrived_fields [OF cinvD(4) [OF inv] pa(1) sl(5) pa(2,3)]
  have e: "s_entry (t_slot (threads c ! k)) = start (threads c) k" "s_next (t_slot (threads c ! k)) = stamp (Suc k)"
    using sl(1) by (simp_all add: slot_ok_def)
  have "entry_complete (node_log c j) (start (threads c) k)" by (rule arrived_complete [OF inv pa])
  then show ?thesis using e fd(1,6) by (simp add: holds_request_def)
qed

lemma commit_okD:
  assumes "commit_ok n ld T cm P" and "k < length T" and "t_pc (T ! k) = TCommitted"
  shows "\<And>b. bit (t_bits (T ! k)) b \<Longrightarrow> b < n \<and> (b = ld \<or> k < P b)" "n div 2 + 1 \<le> popcount (t_bits (T ! k))"
  using assms unfolding commit_ok_def by blast+


text \<open>
  C2: A follower has executed exactly the requests with the stamps 1 to some \<open>m\<close>, each once and in
  this order, and never one that the leader has not committed; so any two followers have executed
  the same sequence up to the point the slower one has reached.
\<close>

theorem followers_execute_in_order:
  assumes "cinit base n ld c0" and "(cstep B ug base n ld)\<^sup>*\<^sup>* c0 c" and "j < n" and "j \<noteq> ld"
  shows "\<exists>m. nd_exec (nodes c j) = map (\<lambda>k. vstol (s_next (t_slot (threads c ! k)))) [0..<m] \<and> m \<le> length (threads c) \<and>
     (\<forall>k < m. t_pc (threads c ! k) = TCommitted)"
proof -
  have inv: "cinv base n ld c" by (rule cluster_sys.reach_inv [OF assms(1,2)])
  obtain m where m: "m \<le> committed c ld" "m \<le> proc c j" "nd_exec (nodes c j) = map (\<lambda>i. vstol (stamp i)) [1..<Suc m]"
    using cinvD(11) [OF inv assms(3,4)] by (auto simp: foll_ok_def)
  have cm: "committed c ld \<le> length (threads c)" "k < committed c ld \<Longrightarrow> t_pc (threads c ! k) = TCommitted" for k
    using cinvD(12) [OF inv] by (auto simp: commit_ok_def)
  have "s_next (t_slot (threads c ! k)) = stamp (Suc k)" if "k < m" for k
    using slot_at(1) [OF inv, of k] cm(1) m(1) that by (simp add: slot_ok_def)
  then have "map (\<lambda>k. vstol (s_next (t_slot (threads c ! k)))) [0..<m] = map (\<lambda>i. vstol (stamp i)) (map Suc [0..<m])"
    by simp
  then show ?thesis using m cm by (intro exI [of _ m]) (auto simp: map_Suc_upt simp del: upt_Suc)
qed

section \<open>An example\<close>

text \<open>Three servers, all connected, with databases that are finite maps.\<close>

definition ex_group :: "(u8 list \<Rightarrow> u8 list option) cluster" where
  "ex_group = \<lparr>nodes = init_node (Some \<lparr>bdb_ptr = Some Map.empty\<rparr>)
       (replicate 3 \<lparr>rmt_mr = \<lparr>raddr = 0, rkey = 0\<rparr>, qp = None, qpn = 0, send_count = 0, cq = None, rc_connected = True\<rparr>) (out_init 0) 3 0,
     threads = [], net = []\<rparr>"

lemma ex_init: "cinit (\<lambda>_. 0) 3 0 ex_group"
  by (auto simp: cinit_def ex_group_def MAX_SERVER_COUNT_def intro!: exI)

lemma ex_db: "db_works map_bdb ex_group 0"
  by (simp add: db_works_def ex_group_def init_node_def init_consensus_comp_def store_record_def map_bdb_put)

lemma ex_idle: "idle 3 0 {1, 2} ex_group"
proof -
  have "{1, 2} \<subseteq> {..<3} - {0 :: nat}" by auto
  then show ?thesis by (simp add: idle_def ex_group_def init_node_def init_consensus_comp_def proc_def)
qed

lemma ex_threads: "threads ex_group = []"
  by (simp add: ex_group_def)

lemma ex_room: "start (threads ex_group) (length (threads ex_group)) + ENTRY_SIZE + 2 + 1 + ENTRY_SIZE \<le> REGION_SIZE"
  by (simp add: ex_group_def layout_simps REGION_SIZE_eq)

lemma ex_run:
  "\<exists>c' t. (cstep map_bdb (\<lambda>_ _. 0) (\<lambda>_. 0) 3 0)\<^sup>*\<^sup>* ex_group c' \<and> threads c' = [t] \<and> request_of t 2 (Some [7, 8]) P_NOP \<and> t_pc t = TCommitted"
proof -
  have p: "\<forall>bs. Some [7, 8 :: u8] = Some bs \<longrightarrow> length bs = 2" "P_NOP = P_NOP \<or> (None :: view_stamp option) \<noteq> None" "P_NOP \<noteq> P_OUTPUT"
    by (simp_all add: P_NOP_def P_OUTPUT_def)
  show ?thesis
    using request_run [OF cinv_init [OF ex_init] cluster_votes.extra_init [OF ex_init] ex_idle ex_room p ex_db, where ug = "\<lambda>_ _. 0"]
    unfolding ex_threads append_Nil by blast
qed


theorem followers_execute_in_order_witness:
  "\<exists>c m. t_pc (threads c ! 0) = TCommitted \<and> nd_exec (nodes (c :: (u8 list \<Rightarrow> u8 list option) cluster) 1) =
     map (\<lambda>k. vstol (s_next (t_slot (threads c ! k)))) [0..<m] \<and> m \<le> 1"
proof -
  obtain c t where c: "(cstep map_bdb (\<lambda>_ _. 0) (\<lambda>_. 0) 3 0)\<^sup>*\<^sup>* ex_group c" "threads c = [t]" "t_pc t = TCommitted" using ex_run by blast
  obtain m where "nd_exec (nodes c 1) = map (\<lambda>k. vstol (s_next (t_slot (threads c ! k)))) [0..<m]" "m \<le> length (threads c)"
    using followers_execute_in_order [OF ex_init c(1), of 1] by auto
  then show ?thesis using c(2,3) by (intro exI [of _ c] exI [of _ m]) simp
qed

section \<open>Progress\<close>

text \<open>
  C3: An idle group serves a request. In a reachable state in which all requests are committed and
  the leader with the connected servers in \<open>Q\<close>, which have processed everything so far, is a majority,
  a request that fits into the log can be submitted so that some run of the group commits it with
  its data, and the servers in \<open>Q\<close> have processed it.
\<close>

theorem idle_group_serves:
  fixes clt :: "view_stamp option"
  assumes "cinit base n ld c0" and "(cstep B ug base n ld)\<^sup>*\<^sup>* c0 c" and "idle n ld Q c" and "db_works B c ld"
    and "start (threads c) (length (threads c)) + ENTRY_SIZE + ds + 1 + ENTRY_SIZE \<le> REGION_SIZE"
    and "\<forall>bs. data = Some bs \<longrightarrow> length bs = ds" and "ty = P_NOP \<or> clt \<noteq> None" and "ty \<noteq> P_OUTPUT"
  shows "\<exists>c' t. (cstep B ug base n ld)\<^sup>*\<^sup>* c c' \<and> threads c' = threads c @ [t] \<and> request_of t ds data ty \<and> t_pc t = TCommitted \<and>
     (\<forall>j \<in> Q. proc c' j = Suc (length (threads c)))"
  using request_run [OF cluster_sys.reach_inv [OF assms(1,2)] cluster_votes.reach_extra [OF assms(1,2)] assms(3,5,6,7,8,4)] .

theorem idle_group_serves_witness:
  "\<exists>c' t. (cstep map_bdb (\<lambda>_ _. 0) (\<lambda>_. 0) 3 0)\<^sup>*\<^sup>* ex_group c' \<and> threads c' = [t] \<and> request_of t 2 (Some [7, 8]) P_NOP \<and> t_pc t = TCommitted"
proof -
  have p: "\<forall>bs. Some [7, 8 :: u8] = Some bs \<longrightarrow> length bs = 2" "P_NOP = P_NOP \<or> (None :: view_stamp option) \<noteq> None" "P_NOP \<noteq> P_OUTPUT"
    by (simp_all add: P_NOP_def P_OUTPUT_def)
  show ?thesis
    using idle_group_serves [OF ex_init rtranclp.rtrancl_refl ex_idle ex_db ex_room p, where ug = "\<lambda>_ _. 0"]
    unfolding ex_threads append_Nil by blast
qed

section \<open>What stays\<close>

text \<open>Requests are only added, keep their content, and a committed or a failed one stays so.\<close>

definition thread_le :: "'d cluster \<Rightarrow> 'd cluster \<Rightarrow> bool" where
  "thread_le c c' \<longleftrightarrow> length (threads c) \<le> length (threads c') \<and> (\<forall>k < length (threads c). same_req (threads c ! k) (threads c' ! k) \<and>
     (t_pc (threads c ! k) \<in> {TCommitted, TFailed} \<longrightarrow> t_pc (threads c' ! k) = t_pc (threads c ! k)))"

lemma thread_le_upd:
  assumes "threads c' = (threads c)[k := t]" and "same_req (threads c ! k) t" and "t_pc (threads c ! k) \<notin> {TCommitted, TFailed}"
  shows "thread_le c c'"
  using assms by (auto simp: thread_le_def nth_upd same_req_def)

lemma thread_le_same: "threads c' = threads c @ ts \<Longrightarrow> thread_le c c'"
  by (auto simp: thread_le_def nth_append same_req_def)

lemma thread_le_trans:
  assumes "thread_le a b" and "thread_le b c"
  shows "thread_le a c"
proof -
  have "same_req (threads a ! k) (threads c ! k) \<and>
      (t_pc (threads a ! k) \<in> {TCommitted, TFailed} \<longrightarrow> t_pc (threads c ! k) = t_pc (threads a ! k))" if k: "k < length (threads a)" for k
  proof -
    have "k < length (threads b)" using k assms(1) by (simp add: thread_le_def)
    then show ?thesis using k assms unfolding thread_le_def same_req_def by (metis (no_types, lifting))
  qed
  then show ?thesis using assms by (simp add: thread_le_def)
qed

lemma thread_le_step: "cstep B ug base n ld c c' \<Longrightarrow> thread_le c c'"
proof (induction rule: cstep.induct)
  case (reserve c ds ty clt cc' sv' s data)
  then show ?case by (intro thread_le_same) (simp add: upd_node_def)
next
  case (fill k c t m')
  then show ?case by (intro thread_le_upd [of _ _ k "t\<lparr>t_pc := TFilled\<rparr>"]) (simp_all add: upd_thread_def upd_node_def same_req_def)
next
  case (store k c t ret cc')
  then show ?case
    by (intro thread_le_upd [of _ _ k "t\<lparr>t_pc := if ret \<noteq> 0 then TFailed else TPosting 0\<rparr>"]) (simp_all add: upd_thread_def upd_node_def same_req_def)
next
  case (post k c t i pa)
  then show ?case by (intro thread_le_upd [of _ _ k "t\<lparr>t_pc := TPosting (Suc i)\<rparr>"]) (simp_all add: upd_thread_def same_req_def)
next
  case (posted k c t)
  then show ?case
    by (intro thread_le_upd [of _ _ k "t\<lparr>t_pc := TWaiting, t_bits := node_bit (cc_node_id (node_cc c ld))\<rparr>"]) (simp_all add: upd_thread_def same_req_def)
next
  case (scan k c t i)
  then show ?case
    by (intro thread_le_upd [of _ _ k "t\<lparr>t_bits := scan_ack (node_log c ld) (t_slot t) i (t_bits t)\<rparr>"]) (simp_all add: upd_thread_def same_req_def)
next
  case (commit k c t)
  then show ?case by (intro thread_le_upd [of _ _ k "t\<lparr>t_pc := TCommitted\<rparr>"]) (simp_all add: upd_thread_def upd_node_def same_req_def)
next
  case (deliver i c x cnt)
  then show ?case by (intro thread_le_same [of _ _ "[]"]) (simp add: upd_node_def)
next
  case (accept j c r)
  then show ?case by (intro thread_le_same [of _ _ "[]"]) (simp add: upd_node_def)
qed

interpretation cluster_mono: monotone_system "cinit base n ld" "cstep B ug base n ld" "cinv base n ld" thread_le for B ug base n ld
proof unfold_locales
  show "thread_le c c" for c :: "'a cluster" by (simp add: thread_le_def same_req_def)
  show "thread_le a b \<Longrightarrow> thread_le b c \<Longrightarrow> thread_le a c" for a b c :: "'a cluster" by (rule thread_le_trans)
  show "cstep B ug base n ld c c' \<Longrightarrow> thread_le c c'" for c c' by (rule thread_le_step)
qed

text \<open>
  C13: A request that the leader could not store in its database, for which the call returns at once,
  blocks the group for good: no later request is ever committed, since its thread waits for the
  number of commits to reach the request before it.
\<close>

theorem failed_store_blocks:
  assumes "cinit base n ld c0" and "(cstep B ug base n ld)\<^sup>*\<^sup>* c0 c" and "k < length (threads c)" and "t_pc (threads c ! k) = TFailed"
    and "(cstep B ug base n ld)\<^sup>*\<^sup>* c c'" and "k \<le> k'" and "k' < length (threads c')"
  shows "t_pc (threads c' ! k') \<noteq> TCommitted"
proof
  assume com: "t_pc (threads c' ! k') = TCommitted"
  have inv: "cinv base n ld c" by (rule cluster_sys.reach_inv [OF assms(1,2)])
  have "t_pc (threads c' ! k) = TFailed" "k < length (threads c')"
    using cluster_mono.steps_le [OF assms(5) inv] assms(3,4) by (auto simp: thread_le_def)
  then have "committed c' ld \<le> k" using uncommitted_le [OF cinvD(12) [OF cluster_sys.steps_inv [OF assms(5) inv]]] by simp
  then show False using com assms(6,7) cinvD(12) [OF cluster_sys.steps_inv [OF assms(5) inv]] by (auto simp: commit_ok_def)
qed

text \<open>A single server without a database.\<close>

definition ex_alone :: "nat cluster" where
  "ex_alone = \<lparr>nodes = init_node None
       [\<lparr>rmt_mr = \<lparr>raddr = 0, rkey = 0\<rparr>, qp = None, qpn = 0, send_count = 0, cq = None, rc_connected = True\<rparr>] (out_init 0) 1 0,
     threads = [], net = []\<rparr>"

lemma ex_alone_init: "cinit (\<lambda>_. 0) 1 0 ex_alone"
  by (auto simp: cinit_def ex_alone_def MAX_SERVER_COUNT_def intro!: exI)

theorem failed_store_blocks_witness:
  "\<exists>c. (cstep (undefined :: nat bdb) (\<lambda>_ _. 0) (\<lambda>_. 0) 1 0)\<^sup>*\<^sup>* ex_alone c \<and> t_pc (threads c ! 0) = TFailed \<and> length (threads c) = 1 \<and>
     t_pc (threads c ! 0) \<noteq> TCommitted"
proof -
  have p: "\<forall>bs. Some [7, 8 :: u8] = Some bs \<longrightarrow> length bs = 2" "P_NOP = P_NOP \<or> (None :: view_stamp option) \<noteq> None" by simp_all
  have r: "start (threads ex_alone) (length (threads ex_alone)) + ENTRY_SIZE + 2 + 1 + ENTRY_SIZE \<le> REGION_SIZE"
    by (simp add: ex_alone_def layout_simps REGION_SIZE_eq)
  have d: "\<forall>key v. fst (store_record (undefined :: nat bdb) (db_ptr (node_cc ex_alone 0)) key v) \<noteq> 0"
    by (simp add: ex_alone_def init_node_def init_consensus_comp_def store_record_def)
  have t: "threads ex_alone = []" by (simp add: ex_alone_def)
  obtain c t where c: "(cstep (undefined :: nat bdb) (\<lambda>_ _. 0) (\<lambda>_. 0) 1 0)\<^sup>*\<^sup>* ex_alone c" "threads c = [t]" "t_pc t = TFailed"
    using failed_run [OF cinv_init [OF ex_alone_init] r p d, where ug = "\<lambda>_ _. 0"] unfolding t append_Nil by blast
  then show ?thesis
    using failed_store_blocks [OF ex_alone_init c(1), of 0 c 0] by (intro exI [of _ c]) simp
qed

end
