(* ===== verification/Ibv_Dev.thy ===== *)
theory Ibv_Dev
  imports Ibv_Rc
begin

text \<open>
  The choice of the network device and the endpoints of a server (\<open>rdma/dare_ibv.c\<close>). The verbs
  library answers the queries about a device; the contexts that are open are kept as a list, so that
  what a failed attempt leaves behind can be seen. \<open>None\<close> as the answer of a query is its failure.
\<close>

section \<open>Devices\<close>

record port_attr =
  pt_active :: bool
  pt_lid :: u16

record device_attr =
  da_phys_port_cnt :: u8
  da_max_pkeys :: u16
  da_max_qp_wr :: int
  da_max_cqe :: int
  da_max_qp_rd_atom :: int

record 'h device_lib =
  ibv_open_device :: "'h \<Rightarrow> bool"
  dev_malloc :: "'h \<Rightarrow> bool"
  ibv_query_device :: "'h \<Rightarrow> device_attr option"
  ibv_query_port :: "'h \<Rightarrow> u8 \<Rightarrow> port_attr option"
  ibv_query_pkey :: "'h \<Rightarrow> u8 \<Rightarrow> u16 \<Rightarrow> u16 option"

definition IBV_MTU_4096 :: u32 where "IBV_MTU_4096 = 5"

definition ntohs :: "u16 \<Rightarrow> u16" where
  "ntohs w = push_bit 8 w OR drop_bit 8 w"

text \<open>The first index with full membership; \<open>Some None\<close> when there is none.\<close>

fun find_pkey :: "(u16 \<Rightarrow> u16 option) \<Rightarrow> u16 list \<Rightarrow> u16 option option" where
  "find_pkey query [] = Some None"
| "find_pkey query (j # js) =
     (case query j of
        None \<Rightarrow> None
      | Some pkey \<Rightarrow> if ntohs pkey = 0xFFFF then Some (Some j) else find_pkey query js)"

text \<open>The first active port, with the index of its key, which stays 0 when no key is full, and its identifier.\<close>

fun find_port :: "(u8 \<Rightarrow> port_attr option) \<Rightarrow> (u8 \<Rightarrow> u16 \<Rightarrow> u16 option) \<Rightarrow> u16 list \<Rightarrow> u8 list \<Rightarrow> (u8 \<times> u16 \<times> u16) option option" where
  "find_port port query js [] = Some None"
| "find_port port query js (i # is) =
     (case port i of
        None \<Rightarrow> None
      | Some pa \<Rightarrow>
          if \<not> pt_active pa then find_port port query js is
          else (case find_pkey (query i) js of
                  None \<Rightarrow> None
                | Some r \<Rightarrow> Some (Some (i, (case r of None \<Rightarrow> 0 | Some j \<Rightarrow> j), pt_lid pa))))"

definition port_list :: "u8 \<Rightarrow> u8 list" where
  "port_list n = map of_nat [1..<Suc (unat n)]"

definition pkey_list :: "u16 \<Rightarrow> u16 list" where
  "pkey_list n = map of_nat [0..<unat n]"

definition new_device :: "device_attr \<Rightarrow> u8 \<Rightarrow> u16 \<Rightarrow> u16 \<Rightarrow> ib_device" where
  "new_device da i j l = \<lparr>max_qp_wr = da_max_qp_wr da, max_cqe = da_max_cqe da, max_qp_rd_atom = da_max_qp_rd_atom da, pkey_index = j,
     port_num = i, mtu = IBV_MTU_4096, lid = l, gid_idx = 0, rc_pd = None, rc_cqe = 0, lcl_mr = None, rc_max_inline_data = 0,
     rc_max_send_wr = 0\<rparr>"

text \<open>The device, and the contexts that are open afterwards.\<close>

definition init_one_device :: "'h device_lib \<Rightarrow> 'h \<Rightarrow> 'h list \<Rightarrow> ib_device option \<times> 'h list" where
  "init_one_device L ib_dev ctxs =
     (if \<not> ibv_open_device L ib_dev then (None, ctxs)
      else let opened = ctxs @ [ib_dev] in
        if \<not> dev_malloc L ib_dev then (None, butlast opened)
        else (case ibv_query_device L ib_dev of
            None \<Rightarrow> (None, butlast opened)
          | Some da \<Rightarrow>
              (case find_port (ibv_query_port L ib_dev) (ibv_query_pkey L ib_dev) (pkey_list (da_max_pkeys da)) (port_list (da_phys_port_cnt da)) of
                 Some (Some (i, j, l)) \<Rightarrow> (Some (new_device da i j l), opened)
               | _ \<Rightarrow> (None, butlast opened))))"

fun init_devices :: "'h device_lib \<Rightarrow> 'h list \<Rightarrow> 'h list \<Rightarrow> ib_device option \<times> 'h list" where
  "init_devices L [] ctxs = (None, ctxs)"
| "init_devices L (d # ds) ctxs =
     (case init_one_device L d ctxs of
        (Some dev, ctxs') \<Rightarrow> (Some dev, ctxs')
      | (None, ctxs') \<Rightarrow> init_devices L ds ctxs')"

definition dare_init_ib_device :: "'h device_lib \<Rightarrow> 'h list \<Rightarrow> int \<times> ib_device option \<times> 'h list" where
  "dare_init_ib_device L ib_devs =
     (if ib_devs = [] then (1, None, [])
      else (case init_devices L ib_devs [] of (dev, ctxs) \<Rightarrow> (if dev = None then 1 else 0, dev, ctxs)))"

section \<open>Endpoints\<close>

definition zero_ep :: dare_ib_ep where
  "zero_ep = \<lparr>rmt_mr = \<lparr>raddr = 0, rkey = 0\<rparr>, qp = None, qpn = 0, send_count = 0, cq = None, rc_connected = False\<rparr>"

text \<open>One endpoint per server; the memory suffices for \<open>n\<close> of them.\<close>

definition dare_init_ib_srv_data :: "nat \<Rightarrow> dare_ib_ep option list \<Rightarrow> int \<times> dare_ib_ep option list" where
  "dare_init_ib_srv_data n eps =
     (if length eps \<le> n then (0, replicate (length eps) (Some zero_ep))
      else (1, replicate n (Some zero_ep) @ None # drop (Suc n) eps))"

definition dare_ib_destroy_ep :: "nat \<Rightarrow> dare_ib_ep option list \<Rightarrow> dare_ib_ep option list" where
  "dare_ib_destroy_ep idx eps = eps[idx := None]"

text \<open>The device is freed and its context closed.\<close>

definition free_ib_device :: "'h option \<Rightarrow> 'h list \<Rightarrow> 'h option \<times> 'h list" where
  "free_ib_device ibdev ctxs = (case ibdev of None \<Rightarrow> (None, ctxs) | Some h \<Rightarrow> (None, remove1 h ctxs))"

definition dare_ib_srv_shutdown ::
    "'v verbs \<Rightarrow> ib_device \<Rightarrow> 'h option \<Rightarrow> 'h list \<Rightarrow> dare_ib_ep option list \<Rightarrow> 'v \<Rightarrow> dare_ib_ep option list \<times> 'h option \<times> 'h list \<times> 'v" where
  "dare_ib_srv_shutdown V dev ibdev ctxs eps v =
     (case rc_free V dev eps v of
        (dev', eps1, v1) \<Rightarrow>
          let eps2 = fold dare_ib_destroy_ep [0..<length eps1] eps1
          in (case free_ib_device ibdev ctxs of (ibdev', ctxs') \<Rightarrow> (eps2, ibdev', ctxs', v1)))"

section \<open>The device that is chosen\<close>

text \<open>What makes a device usable, and its port and key, said without the loops.\<close>

definition usable_port :: "'h device_lib \<Rightarrow> 'h \<Rightarrow> device_attr \<Rightarrow> u8 \<Rightarrow> u16 \<Rightarrow> bool" where
  "usable_port L h da i j \<longleftrightarrow> 1 \<le> unat i \<and> unat i \<le> unat (da_phys_port_cnt da) \<and>
     (\<forall>k. 1 \<le> unat k \<and> unat k < unat i \<longrightarrow> (\<exists>pa. ibv_query_port L h k = Some pa \<and> \<not> pt_active pa)) \<and>
     (\<exists>pa. ibv_query_port L h i = Some pa \<and> pt_active pa) \<and>
     (unat j < unat (da_max_pkeys da) \<and> (\<exists>pk. ibv_query_pkey L h i j = Some pk \<and> ntohs pk = 0xFFFF) \<and>
        (\<forall>k. unat k < unat j \<longrightarrow> (\<exists>pk. ibv_query_pkey L h i k = Some pk \<and> ntohs pk \<noteq> 0xFFFF)) \<or>
      j = 0 \<and> (\<forall>k. unat k < unat (da_max_pkeys da) \<longrightarrow> (\<exists>pk. ibv_query_pkey L h i k = Some pk \<and> ntohs pk \<noteq> 0xFFFF)))"

definition usable :: "'h device_lib \<Rightarrow> 'h \<Rightarrow> bool" where
  "usable L h \<longleftrightarrow> ibv_open_device L h \<and> dev_malloc L h \<and> (\<exists>da i j. ibv_query_device L h = Some da \<and> usable_port L h da i j)"

lemma find_pkey_full:
  "find_pkey query js = Some (Some j) \<longleftrightarrow> (\<exists>t<length js. js ! t = j \<and> (\<exists>pk. query j = Some pk \<and> ntohs pk = 0xFFFF) \<and>
     (\<forall>k<t. \<exists>pk. query (js ! k) = Some pk \<and> ntohs pk \<noteq> 0xFFFF))"
proof (induction js)
  case (Cons a js)
  show ?case
  proof (cases "\<exists>pk. query a = Some pk \<and> ntohs pk \<noteq> 0xFFFF")
    case True
    then have "find_pkey query (a # js) = find_pkey query js" by auto
    moreover have "\<not> (\<exists>pk. query a = Some pk \<and> ntohs pk = 0xFFFF)" using True by auto
    ultimately show ?thesis using True Cons
      by (auto simp: Ex_less_Suc2 All_less_Suc2)
  next
    case False
    then show ?thesis by (cases "query a") (auto simp: Ex_less_Suc2 All_less_Suc2)
  qed
qed simp

lemma find_pkey_none:
  "find_pkey query js = Some None \<longleftrightarrow> (\<forall>k\<in>set js. \<exists>pk. query k = Some pk \<and> ntohs pk \<noteq> 0xFFFF)"
  by (induction js) (auto split: option.split)

lemma first_Cons:
  "(\<exists>t<length (a # xs). (a # xs) ! t = i \<and> G \<and> (\<forall>k<t. H ((a # xs) ! k))) \<longleftrightarrow>
   a = i \<and> G \<or> H a \<and> (\<exists>t<length xs. xs ! t = i \<and> G \<and> (\<forall>k<t. H (xs ! k)))"
  by (auto simp: Ex_less_Suc2 All_less_Suc2)

lemma find_port_first:
  "find_port port query js ps = Some (Some (i, j, l)) \<longleftrightarrow> (\<exists>t<length ps. ps ! t = i \<and>
     (\<exists>pa r. port i = Some pa \<and> pt_active pa \<and> l = pt_lid pa \<and> find_pkey (query i) js = Some r \<and> j = (case r of None \<Rightarrow> 0 | Some j \<Rightarrow> j)) \<and>
     (\<forall>k<t. \<exists>pa. port (ps ! k) = Some pa \<and> \<not> pt_active pa))"
proof (induction ps)
  case (Cons a ps)
  note fc = first_Cons [where H = "\<lambda>x. \<exists>pa. port x = Some pa \<and> \<not> pt_active pa"]
  show ?case
  proof (cases "port a")
    case None
    then show ?thesis unfolding fc by auto
  next
    case (Some pa)
    show ?thesis
    proof (cases "pt_active pa")
      case True
      then show ?thesis unfolding fc using Some by (cases "find_pkey (query a) js") auto
    next
      case False
      then have e: "find_port port query js (a # ps) = find_port port query js ps" using Some by simp
      show ?thesis unfolding fc e Cons.IH using Some False by auto
    qed
  qed
qed simp

lemma pkey_list_first:
  "(\<exists>t<length (pkey_list n). pkey_list n ! t = j \<and> Q \<and> (\<forall>k<t. P (pkey_list n ! k))) \<longleftrightarrow>
   unat j < unat n \<and> Q \<and> (\<forall>k. unat k < unat j \<longrightarrow> P k)"
proof -
  have u: "unat (of_nat t :: u16) = t" if "t < unat n" for t
  proof -
    have "unat n < 2 ^ 16" using unsigned_less [of n] by simp
    then show ?thesis using that by (simp add: unsigned_of_nat take_bit_nat_eq_self)
  qed
  show ?thesis
  proof
    assume "\<exists>t<length (pkey_list n). pkey_list n ! t = j \<and> Q \<and> (\<forall>k<t. P (pkey_list n ! k))"
    then obtain t where t: "t < unat n" "of_nat t = j" "Q" "\<forall>k<t. P (of_nat k)" by (auto simp: pkey_list_def)
    then have "unat j = t" using u by blast
    have v: "P k" if "unat k < t" for k
    proof -
      have "of_nat (unat k) = k" by simp
      then show ?thesis using t(4) that by metis
    qed
    show "unat j < unat n \<and> Q \<and> (\<forall>k. unat k < unat j \<longrightarrow> P k)" using \<open>unat j = t\<close> t(1,3) v by simp
  next
    assume a: "unat j < unat n \<and> Q \<and> (\<forall>k. unat k < unat j \<longrightarrow> P k)"
    then have "\<forall>k<unat j. P (of_nat k)" using u by auto
    then show "\<exists>t<length (pkey_list n). pkey_list n ! t = j \<and> Q \<and> (\<forall>k<t. P (pkey_list n ! k))"
      using a by (intro exI [of _ "unat j"]) (auto simp: pkey_list_def)
  qed
qed

lemma port_list_first:
  "(\<exists>t<length (port_list n). port_list n ! t = i \<and> Q \<and> (\<forall>k<t. P (port_list n ! k))) \<longleftrightarrow>
   1 \<le> unat i \<and> unat i \<le> unat n \<and> Q \<and> (\<forall>k. 1 \<le> unat k \<and> unat k < unat i \<longrightarrow> P k)"
proof -
  have u: "unat (of_nat (Suc t) :: u8) = Suc t" if "t < unat n" for t
  proof -
    have "unat n < 2 ^ 8" using unsigned_less [of n] by simp
    then have "Suc t < 2 ^ 8" using that by simp
    then show ?thesis unfolding unsigned_of_nat by (simp add: take_bit_nat_eq_self del: of_nat_Suc)
  qed
  have nth: "t < unat n \<Longrightarrow> port_list n ! t = of_nat (Suc t)" for t by (simp add: port_list_def del: upt_Suc of_nat_Suc)
  have len: "length (port_list n) = unat n" by (simp add: port_list_def)
  show ?thesis
  proof
    assume "\<exists>t<length (port_list n). port_list n ! t = i \<and> Q \<and> (\<forall>k<t. P (port_list n ! k))"
    then obtain t where t: "t < unat n" "of_nat (Suc t) = i" "Q" "\<forall>k<t. P (of_nat (Suc k))" by (auto simp: len nth)
    then have e: "unat i = Suc t" using u by blast
    have v: "P k" if k: "1 \<le> unat k" "unat k < Suc t" for k
    proof -
      have e: "Suc (unat k - 1) = unat k" "unat k - 1 < t" using k by simp_all
      have "of_nat (Suc (unat k - 1)) = k" unfolding e(1) by simp
      then show ?thesis using t(4) e(2) by metis
    qed
    show "1 \<le> unat i \<and> unat i \<le> unat n \<and> Q \<and> (\<forall>k. 1 \<le> unat k \<and> unat k < unat i \<longrightarrow> P k)" using e t(1,3) v by simp
  next
    assume a: "1 \<le> unat i \<and> unat i \<le> unat n \<and> Q \<and> (\<forall>k. 1 \<le> unat k \<and> unat k < unat i \<longrightarrow> P k)"
    let ?t = "unat i - 1"
    have e: "Suc ?t = unat i" using a by simp
    have t: "?t < unat n" using a e by linarith
    have o: "of_nat (Suc ?t) = i" unfolding e by simp
    have "P (port_list n ! k)" if "k < ?t" for k using a nth [of k] u [of k] that t e by (metis Suc_leI Suc_mono One_nat_def le_add1 less_trans plus_1_eq_Suc)
    then show "\<exists>t<length (port_list n). port_list n ! t = i \<and> Q \<and> (\<forall>k<t. P (port_list n ! k))"
      using a t o nth [of ?t] by (intro exI [of _ ?t]) (simp add: len del: of_nat_Suc)
  qed
qed

lemma find_port_usable:
  "find_port (ibv_query_port L h) (ibv_query_pkey L h) (pkey_list (da_max_pkeys da)) (port_list (da_phys_port_cnt da)) = Some (Some (i, j, l)) \<longleftrightarrow>
   usable_port L h da i j \<and> (\<exists>pa. ibv_query_port L h i = Some pa \<and> l = pt_lid pa)"
proof -
  let ?q = "ibv_query_pkey L h i" and ?js = "pkey_list (da_max_pkeys da)"
  note pl = port_list_first [where P = "\<lambda>x. \<exists>pa. ibv_query_port L h x = Some pa \<and> \<not> pt_active pa"]
  note kl = pkey_list_first [where P = "\<lambda>x. \<exists>pk. ?q x = Some pk \<and> ntohs pk \<noteq> 0xFFFF"]
  have set: "(\<forall>k\<in>set ?js. P k) \<longleftrightarrow> (\<forall>k. unat k < unat (da_max_pkeys da) \<longrightarrow> P k)" for P
    using pkey_list_first [of "da_max_pkeys da" _ True "\<lambda>_. True"] by (auto simp: in_set_conv_nth)
  have keys: "(\<exists>r. find_pkey ?q ?js = Some r \<and> j = (case r of None \<Rightarrow> 0 | Some j \<Rightarrow> j)) \<longleftrightarrow>
     unat j < unat (da_max_pkeys da) \<and> (\<exists>pk. ?q j = Some pk \<and> ntohs pk = 0xFFFF) \<and>
        (\<forall>k. unat k < unat j \<longrightarrow> (\<exists>pk. ?q k = Some pk \<and> ntohs pk \<noteq> 0xFFFF)) \<or>
      j = 0 \<and> (\<forall>k. unat k < unat (da_max_pkeys da) \<longrightarrow> (\<exists>pk. ?q k = Some pk \<and> ntohs pk \<noteq> 0xFFFF))" (is "_ \<longleftrightarrow> ?F \<or> ?N")
  proof -
    have "(\<exists>r. find_pkey ?q ?js = Some r \<and> j = (case r of None \<Rightarrow> 0 | Some j \<Rightarrow> j)) \<longleftrightarrow>
        find_pkey ?q ?js = Some (Some j) \<or> j = 0 \<and> find_pkey ?q ?js = Some None"
      by (metis (no_types, lifting) not_Some_eq option.simps(4,5))
    also have "find_pkey ?q ?js = Some (Some j) \<longleftrightarrow> ?F" unfolding find_pkey_full kl ..
    also have "find_pkey ?q ?js = Some None \<longleftrightarrow> (\<forall>k. unat k < unat (da_max_pkeys da) \<longrightarrow> (\<exists>pk. ?q k = Some pk \<and> ntohs pk \<noteq> 0xFFFF))"
      unfolding find_pkey_none set ..
    finally show ?thesis .
  qed
  show ?thesis unfolding find_port_first pl usable_port_def keys [symmetric] by auto
qed

lemma init_one_device_ok:
  "(case init_one_device L h ctxs of
      (None, ctxs') \<Rightarrow> \<not> usable L h \<and> ctxs' = ctxs
    | (Some d, ctxs') \<Rightarrow> usable L h \<and> ctxs' = ctxs @ [h] \<and>
        (\<exists>da pa. ibv_query_device L h = Some da \<and> usable_port L h da (port_num d) (pkey_index d) \<and>
           ibv_query_port L h (port_num d) = Some pa \<and> lid d = pt_lid pa))"
proof (cases "ibv_open_device L h \<and> dev_malloc L h \<and> ibv_query_device L h \<noteq> None")
  case False
  then show ?thesis by (cases "ibv_query_device L h") (auto simp: init_one_device_def usable_def Let_def)
next
  case True
  then obtain da where da: "ibv_query_device L h = Some da" by blast
  let ?f = "find_port (ibv_query_port L h) (ibv_query_pkey L h) (pkey_list (da_max_pkeys da)) (port_list (da_phys_port_cnt da))"
  note fu = find_port_usable [of L h da]
  show ?thesis
  proof (cases "\<exists>i j l. ?f = Some (Some (i, j, l))")
    case True
    then obtain i j l where f: "?f = Some (Some (i, j, l))" by blast
    then show ?thesis using \<open>ibv_open_device L h \<and> dev_malloc L h \<and> ibv_query_device L h \<noteq> None\<close> da fu [of i j l]
      by (auto simp: init_one_device_def usable_def new_device_def Let_def)
  next
    case no: False
    have "\<not> usable_port L h da i j" for i j
    proof
      assume u: "usable_port L h da i j"
      then obtain pa where "ibv_query_port L h i = Some pa" by (auto simp: usable_port_def)
      then show False using fu [of i j "pt_lid pa"] u no by blast
    qed
    moreover have "?f = None \<or> ?f = Some None" using no by (metis not_None_eq prod_cases3)
    ultimately show ?thesis using True da by (auto simp: init_one_device_def usable_def Let_def)
  qed
qed

lemma init_devices_ok:
  "(case find (usable L) ds of
      None \<Rightarrow> init_devices L ds ctxs = (None, ctxs)
    | Some h \<Rightarrow> \<exists>d da pa. init_devices L ds ctxs = (Some d, ctxs @ [h]) \<and> ibv_query_device L h = Some da \<and>
        usable_port L h da (port_num d) (pkey_index d) \<and> ibv_query_port L h (port_num d) = Some pa \<and> lid d = pt_lid pa)"
proof (induction ds)
  case (Cons h ds)
  note o = init_one_device_ok [of L h ctxs]
  obtain dev ctxs' where i: "init_one_device L h ctxs = (dev, ctxs')" by force
  show ?case
  proof (cases dev)
    case None
    then have u: "\<not> usable L h" "init_devices L (h # ds) ctxs = init_devices L ds ctxs" using o i by simp_all
    show ?thesis unfolding u(2) using Cons.IH u(1) by simp
  next
    case (Some d)
    then show ?thesis using o i by auto
  qed
qed simp

text \<open>
  C29: the first usable device is taken, with its first active port and the first full key of that
  port; exactly its context stays open, and when no device is usable, the call fails and leaves
  no context open. A port without a full key is used with its key 0, which nothing reports.
\<close>

theorem dare_init_ib_device_correct:
  "(case dare_init_ib_device L ib_devs of (rc, dev, ctxs) \<Rightarrow>
     (case find (usable L) ib_devs of
        None \<Rightarrow> rc = 1 \<and> dev = None \<and> ctxs = []
      | Some h \<Rightarrow> rc = 0 \<and> ctxs = [h] \<and> (\<exists>d da pa. dev = Some d \<and> ibv_query_device L h = Some da \<and>
          usable_port L h da (port_num d) (pkey_index d) \<and> ibv_query_port L h (port_num d) = Some pa \<and> lid d = pt_lid pa)))"
  using init_devices_ok [of L ib_devs "[]"] by (auto simp: dare_init_ib_device_def split: option.splits)

end
