(* ===== verification/Node.thy ===== *)
theory Node
  imports Consensus
begin

text \<open>
  The node of \<open>replica-sys/replica.c\<close> with the reader of its configuration in
  \<open>config-comp/config-comp.c\<close>. A node is created from the configuration file and the start mode and
  owns the consensus component; the event manager submits requests through \<open>rsm_op\<close>. The current
  view and the highest stamps are fields of the node to which the component holds pointers; they
  are kept in the component. The configuration library is the parameter \<open>lc\<close>. An outer \<open>None\<close> is a
  fault, an inner one the null pointer.
\<close>

section \<open>Configuration\<close>

record ('c, 's) libconfig =
  config_read_file :: "string \<Rightarrow> 'c option"
  config_lookup_int :: "'c \<Rightarrow> string \<Rightarrow> u32 option"
  config_lookup :: "'c \<Rightarrow> string \<Rightarrow> 's option"
  config_setting_get_elem :: "'s \<Rightarrow> u32 \<Rightarrow> 's option"
  config_setting_lookup_int :: "'s \<Rightarrow> string \<Rightarrow> u32 option"
  config_setting_lookup_string :: "'s \<Rightarrow> string \<Rightarrow> string option"

text \<open>An optional setting overwrites a field when it is there.\<close>

definition setting_or :: "'a \<Rightarrow> 'a option \<Rightarrow> 'a" where
  "setting_or old v = (case v of None \<Rightarrow> old | Some x \<Rightarrow> x)"

record 'd node =
  n_node_id :: u32
  n_stat_log :: u32
  n_sys_log :: u32
  my_address :: u32
  n_group_size :: u32
  n_db_name :: string
  hb_on :: u32
  n_log_open :: bool
  consensus_comp :: "'d consensus_component option"

text \<open>
  What the calls of the operating system return during the start: the memory for the node, the
  component, the database name and the path of the log file, and the log directory and file.
\<close>

datatype mkdir_result = MkdirOk | MkdirExists | MkdirFailed

record start_env =
  se_node :: bool
  se_comp :: bool
  se_name :: bool
  se_path :: bool
  se_mkdir :: mkdir_result
  se_fopen :: bool
  inet_pton :: "string \<Rightarrow> u32 option"

definition consensus_read_config ::
    "('c, 's) libconfig \<Rightarrow> start_env \<Rightarrow> 'd node \<Rightarrow> string \<Rightarrow> 'd node \<times> int" where
  "consensus_read_config lc se nd config_path =
     (case config_read_file lc config_path of None \<Rightarrow> (nd, - 1) | Some config_file \<Rightarrow>
      case config_lookup_int lc config_file ''group_size'' of None \<Rightarrow> (nd, - 1) | Some group_size \<Rightarrow>
      let nd = nd\<lparr>n_group_size := group_size\<rparr> in
      if group_size \<le> n_node_id nd then (nd, - 1) else
      case config_lookup lc config_file ''consensus_config'' of None \<Rightarrow> (nd, - 1) | Some nodes_config \<Rightarrow>
      case config_setting_get_elem lc nodes_config (n_node_id nd) of None \<Rightarrow> (nd, - 1) | Some node_config \<Rightarrow>
      case config_setting_lookup_string lc node_config ''ip_address'' of None \<Rightarrow> (nd, - 1) | Some peer_ipaddr \<Rightarrow>
      let nd = nd\<lparr>my_address := setting_or (my_address nd) (inet_pton se peer_ipaddr),
                  n_sys_log := setting_or (n_sys_log nd) (config_setting_lookup_int lc node_config ''sys_log''),
                  n_stat_log := setting_or (n_stat_log nd) (config_setting_lookup_int lc node_config ''stat_log'')\<rparr> in
      case config_setting_lookup_string lc node_config ''db_name'' of None \<Rightarrow> (nd, - 1) | Some db_name \<Rightarrow>
      if \<not> se_name se then (nd, - 1) else (nd\<lparr>n_db_name := db_name\<rparr>, 0))"

section \<open>Starting a node\<close>

text \<open>The log file: a directory that cannot be created leaves it closed; a missing buffer is a fault.\<close>

definition build_log :: "start_env \<Rightarrow> string option \<Rightarrow> bool option" where
  "build_log se log_path =
     (if log_path \<noteq> None \<and> se_mkdir se = MkdirFailed then Some False
      else if \<not> se_path se then None
      else Some (se_fopen se))"

definition initialize_node ::
    "start_env \<Rightarrow> 'd node \<Rightarrow> view \<Rightarrow> string option \<Rightarrow> 'd db option \<Rightarrow> 'd node option" where
  "initialize_node se nd v log_path db_p = do {
     opened \<leftarrow> build_log se log_path;
     if \<not> se_comp se then None
     else Some (nd\<lparr>n_log_open := opened,
       consensus_comp := Some (init_consensus_comp (n_node_id nd) db_p (n_group_size nd) v)\<rparr>)
   }"

text \<open>The view a node starts in; \<open>start_mode\<close> is a pointer into the environment.\<close>

definition start_view :: "u32 \<Rightarrow> string \<Rightarrow> view" where
  "start_view node_id start_mode =
     (if start_mode \<noteq> [] \<and> hd start_mode = CHR ''s''
      then \<lparr>cv_view_id = 1, leader_id = node_id, cv_req_id = 0\<rparr>
      else \<lparr>cv_view_id = 0, leader_id = 9999, cv_req_id = 0\<rparr>)"

definition new_node :: "u32 \<Rightarrow> 'd node" where
  "new_node node_id = \<lparr>n_node_id = node_id, n_stat_log = 0, n_sys_log = 0, my_address = 0, n_group_size = 0,
     n_db_name = [], hb_on = 0, n_log_open = False, consensus_comp = None\<rparr>"

definition system_initialize ::
    "('c, 's) libconfig \<Rightarrow> start_env \<Rightarrow> u32 \<Rightarrow> string \<Rightarrow> string option \<Rightarrow> 'd db option \<Rightarrow> string option \<Rightarrow> 'd node option option" where
  "system_initialize lc se node_id config_path log_path db_p start_mode =
     (if \<not> se_node se then None
      else case start_mode of None \<Rightarrow> None | Some mode \<Rightarrow>
        case consensus_read_config lc se (new_node node_id) config_path of (nd, rc) \<Rightarrow>
          if rc \<noteq> 0 then Some None
          else do {
            nd' \<leftarrow> initialize_node se nd (start_view node_id mode) log_path db_p;
            Some (Some nd')
          })"

section \<open>Queries and requests\<close>

definition get_leader_id :: "'d node \<Rightarrow> u32 option" where
  "get_leader_id nd = map_option (\<lambda>cc. leader_id (cur_view cc)) (consensus_comp nd)"

definition get_group_size :: "'d node \<Rightarrow> u32" where
  "get_group_size nd = n_group_size nd"

text \<open>
  The input for the network layer; the heartbeat fields are handed on as they are. \<open>init\<close> is the
  result of \<open>dare_server_init\<close> on it.
\<close>

record server_input =
  si_group_size :: u32
  si_server_idx :: u32
  si_my_address :: u32
  si_hb_on :: u32

definition launch_rdma :: "(server_input \<Rightarrow> int) \<Rightarrow> 'd node \<Rightarrow> int" where
  "launch_rdma init nd =
     (if init \<lparr>si_group_size = n_group_size nd, si_server_idx = n_node_id nd, si_my_address = my_address nd,
               si_hb_on = hb_on nd\<rparr> \<noteq> 0 then 1 else 0)"

text \<open>The new thread is added to the list of the internal threads, also when it could not be created.\<close>

definition launch_replica_thread :: "u64 option \<Rightarrow> u64 \<Rightarrow> u64 list \<Rightarrow> u64 list \<times> int" where
  "launch_replica_thread created old excluded =
     (case created of Some tid \<Rightarrow> (excluded @ [tid], 0) | None \<Rightarrow> (excluded @ [old], 1))"

text \<open>
  A submitted request: the node and the log it writes to, the stamp behind the client pointer, which a connect overwrites with
  the stamp of the request, and the offset of the entry. \<open>views\<close> is what the waiting thread sees.
\<close>

definition rsm_op ::
    "'d bdb \<Rightarrow> ('d consensus_component \<Rightarrow> server_data \<Rightarrow> mem list) \<Rightarrow> 'd node \<Rightarrow> server_data \<Rightarrow> nat \<Rightarrow> u8 list option \<Rightarrow> u8
      \<Rightarrow> view_stamp option \<Rightarrow> ('d node \<times> server_data \<times> view_stamp option \<times> nat) option" where
  "rsm_op B views nd sv ret buf ty clt_id = do {
     cc \<leftarrow> consensus_comp nd;
     (cc', sv', posts, entry, ok) \<leftarrow> leader_handle_submit_req B cc sv ret buf ty clt_id (views cc sv);
     Some (nd\<lparr>consensus_comp := Some cc'\<rparr>, sv', (if ty = P_TCP_CONNECT then Some (get_next_view_stamp cc) else clt_id), entry)
   }"

section \<open>A started node\<close>

text \<open>
  C28: a node that starts has an identifier within the group of the configuration file, and it is the
  leader of view 1 exactly in start mode \<open>s\<close>; in every other mode it follows the leader 9999, which
  no group has, until a view change. Its heartbeats are off, whatever the file says.
\<close>

theorem system_initialize_correct:
  assumes "system_initialize lc se node_id config_path log_path db_p (Some mode) = Some (Some nd)"
  shows "node_id < n_group_size nd \<and> hb_on nd = 0 \<and>
     (\<exists>cfg. config_read_file lc config_path = Some cfg \<and> config_lookup_int lc cfg ''group_size'' = Some (n_group_size nd)) \<and>
     (\<exists>cc. consensus_comp nd = Some cc \<and> cc_node_id cc = node_id \<and> cc_group_size cc = n_group_size nd \<and> db_ptr cc = db_p \<and>
        highest_committed_vs cc = \<lparr>view_id = 1, req_id = 0\<rparr> \<and>
        (if mode \<noteq> [] \<and> hd mode = CHR ''s'' then my_role cc = LEADER \<and> get_leader_id nd = Some node_id
         else get_leader_id nd = Some 9999 \<and> (n_group_size nd \<le> 9999 \<longrightarrow> my_role cc = SECONDARY)))"
proof -
  obtain nd1 where c: "consensus_read_config lc se (new_node node_id) config_path = (nd1, 0)"
    and i: "initialize_node se nd1 (start_view node_id mode) log_path db_p = Some nd"
    using assms by (auto simp: system_initialize_def bind_eq_Some_conv split: if_splits prod.splits)
  have n1: "n_node_id nd1 = node_id" "hb_on nd1 = 0" "node_id < n_group_size nd1"
      "\<exists>cfg. config_read_file lc config_path = Some cfg \<and> config_lookup_int lc cfg ''group_size'' = Some (n_group_size nd1)"
    using c by (auto simp: consensus_read_config_def Let_def new_node_def split: option.splits if_splits)
  have nd: "n_group_size nd = n_group_size nd1" "hb_on nd = 0"
      "consensus_comp nd = Some (init_consensus_comp node_id db_p (n_group_size nd1) (start_view node_id mode))"
    using i n1(1,2) by (auto simp: initialize_node_def bind_eq_Some_conv split: if_splits)
  have "node_id \<noteq> 9999" if "n_group_size nd1 \<le> 9999" using n1(3) that by auto
  then show ?thesis using n1 nd by (auto simp: init_consensus_comp_def start_view_def get_leader_id_def)
qed

definition ex_config :: "(unit, unit) libconfig" where
  "ex_config = \<lparr>config_read_file = \<lambda>_. Some (), config_lookup_int = \<lambda>_ _. Some 3, config_lookup = \<lambda>_ _. Some (),
     config_setting_get_elem = \<lambda>_ _. Some (), config_setting_lookup_int = \<lambda>_ _. None,
     config_setting_lookup_string = \<lambda>_ _. Some ''node_test''\<rparr>"

definition ex_start :: start_env where
  "ex_start = \<lparr>se_node = True, se_comp = True, se_name = True, se_path = True, se_mkdir = MkdirOk, se_fopen = True, inet_pton = \<lambda>_. None\<rparr>"

theorem system_initialize_correct_witness:
  "\<exists>nd cc. system_initialize ex_config ex_start 1 ''cfg'' None (None :: nat db option) (Some ''s'') = Some (Some nd) \<and>
     consensus_comp nd = Some cc \<and> my_role cc = LEADER \<and> 1 < n_group_size nd"
proof -
  have "\<exists>nd. system_initialize ex_config ex_start 1 ''cfg'' None (None :: nat db option) (Some ''s'') = Some (Some nd)"
    by (simp add: system_initialize_def ex_config_def ex_start_def consensus_read_config_def new_node_def Let_def
        initialize_node_def build_log_def word_le_nat_alt)
  then obtain nd where nd: "system_initialize ex_config ex_start 1 ''cfg'' None (None :: nat db option) (Some ''s'') = Some (Some nd)" by blast
  show ?thesis using system_initialize_correct [OF nd] nd by auto
qed

end
