(* ===== verification/Uthash.thy ===== *)
theory Uthash
  imports Prelude "HOL-Library.Multiset" "HOL-Library.Monad_Syntax"
begin

text \<open>
  The hash tables of \<open>ev_mgr/uthash.h\<close>. The macros work on structures that embed a \<open>UT_hash_handle\<close>;
  here an element is its address with its key, the hash value and the rest of the structure. A
  bucket chain and the list in application order are lists of elements, so the four link fields of
  a handle are the positions in these lists. Counters are 32-bit words as in the structures. The
  table doubles its buckets when a chain gets too long; when memory for that is missing the
  macros exit the process, which is the value \<open>None\<close>.
\<close>

section \<open>The hash function\<close>

fun mix_i :: "nat \<Rightarrow> u32 \<times> u32 \<times> u32 \<Rightarrow> u32 \<times> u32 \<times> u32" where
  "mix_i n (a, b, c) = ((a - b - c) XOR drop_bit n c, b, c)"

fun mix_j :: "nat \<Rightarrow> u32 \<times> u32 \<times> u32 \<Rightarrow> u32 \<times> u32 \<times> u32" where
  "mix_j n (a, b, c) = (a, (b - c - a) XOR push_bit n a, c)"

fun mix_h :: "nat \<Rightarrow> u32 \<times> u32 \<times> u32 \<Rightarrow> u32 \<times> u32 \<times> u32" where
  "mix_h n (a, b, c) = (a, b, (c - a - b) XOR drop_bit n b)"

definition JEN_MIX :: "u32 \<times> u32 \<times> u32 \<Rightarrow> u32 \<times> u32 \<times> u32" where
  "JEN_MIX abc =
     mix_h 15 (mix_j 10 (mix_i 3 (mix_h 5 (mix_j 16 (mix_i 12 (mix_h 13 (mix_j 8 (mix_i 13 abc))))))))"

definition key_byte :: "u8 list \<Rightarrow> nat \<Rightarrow> nat \<Rightarrow> u32" where
  "key_byte k i s = push_bit s (ucast (k ! i))"

definition jen_block :: "u8 list \<Rightarrow> u32 \<times> u32 \<times> u32 \<Rightarrow> u32 \<times> u32 \<times> u32" where
  "jen_block k abc = (case abc of (i, j, h) \<Rightarrow>
     JEN_MIX (i + (key_byte k 0 0 + key_byte k 1 8 + key_byte k 2 16 + key_byte k 3 24),
              j + (key_byte k 4 0 + key_byte k 5 8 + key_byte k 6 16 + key_byte k 7 24),
              h + (key_byte k 8 0 + key_byte k 9 8 + key_byte k 10 16 + key_byte k 11 24)))"

text \<open>The \<open>switch\<close> falls through from the number of remaining bytes down to 1.\<close>

definition tail_byte :: "u8 list \<Rightarrow> nat \<Rightarrow> nat \<Rightarrow> u32" where
  "tail_byte k i s = (if i < length k then key_byte k i s else 0)"

definition jen_tail :: "u8 list \<Rightarrow> u32 \<times> u32 \<times> u32 \<Rightarrow> u32 \<times> u32 \<times> u32" where
  "jen_tail k abc = (case abc of (i, j, h) \<Rightarrow>
     (i + tail_byte k 3 24 + tail_byte k 2 16 + tail_byte k 1 8 + tail_byte k 0 0,
      j + tail_byte k 7 24 + tail_byte k 6 16 + tail_byte k 5 8 + tail_byte k 4 0,
      h + tail_byte k 10 24 + tail_byte k 9 16 + tail_byte k 8 8))"

function jen_loop :: "u8 list \<Rightarrow> u32 \<times> u32 \<times> u32 \<Rightarrow> u8 list \<times> u32 \<times> u32 \<times> u32" where
  "jen_loop k abc = (if length k \<ge> 12 then jen_loop (drop 12 k) (jen_block k abc) else (k, abc))"
  by pat_completeness auto
termination by (relation "measure (\<lambda>(k, abc). length k)") auto

declare jen_loop.simps [simp del]

definition HASH_JEN :: "u8 list \<Rightarrow> u32" where
  "HASH_JEN key =
     (case jen_loop key (0x9e3779b9, 0x9e3779b9, 0xfeedbeef) of
        (k, i, j, h) \<Rightarrow> snd (snd (JEN_MIX (jen_tail k (i, j, h + of_nat (length key))))))"

section \<open>Tables\<close>

definition HASH_INITIAL_NUM_BUCKETS :: u32 where "HASH_INITIAL_NUM_BUCKETS = 32"
definition HASH_INITIAL_NUM_BUCKETS_LOG2 :: u32 where "HASH_INITIAL_NUM_BUCKETS_LOG2 = 5"
definition HASH_BKT_CAPACITY_THRESH :: u32 where "HASH_BKT_CAPACITY_THRESH = 10"

record 'v ut_elem =
  ue_ptr :: nat
  ue_key :: "u8 list"
  ue_hashv :: u32
  ue_val :: 'v

record 'v ut_bucket =
  hh_head :: "'v ut_elem list"
  bk_count :: u32
  expand_mult :: u32

record 'v ut_table =
  buckets :: "'v ut_bucket list"
  num_buckets :: u32
  log2_num_buckets :: u32
  num_items :: u32
  app_order :: "'v ut_elem list"
  ideal_chain_maxlen :: u32
  nonideal_items :: u32
  ineff_expands :: u32
  noexpand :: u32

definition empty_bucket :: "'v ut_bucket" where
  "empty_bucket = \<lparr>hh_head = [], bk_count = 0, expand_mult = 0\<rparr>"

text \<open>Memory for an array of buckets of 16 bytes each, on a machine with less than 32 GiB.\<close>

definition uthash_malloc :: "int \<Rightarrow> int \<Rightarrow> bool" where
  "uthash_malloc lim bytes \<longleftrightarrow> bytes \<le> lim \<and> bytes < 2 ^ 35"

definition HASH_TO_BKT :: "u32 \<Rightarrow> u32 \<Rightarrow> nat" where
  "HASH_TO_BKT hashv num_bkts = unat (hashv AND (num_bkts - 1))"

definition HASH_MAKE_TABLE :: "int \<Rightarrow> 'v ut_table option" where
  "HASH_MAKE_TABLE lim =
     (if uthash_malloc lim (16 * uint HASH_INITIAL_NUM_BUCKETS)
      then Some \<lparr>buckets = replicate (unat HASH_INITIAL_NUM_BUCKETS) empty_bucket, num_buckets = HASH_INITIAL_NUM_BUCKETS,
             log2_num_buckets = HASH_INITIAL_NUM_BUCKETS_LOG2, num_items = 0, app_order = [], ideal_chain_maxlen = 0,
             nonideal_items = 0, ineff_expands = 0, noexpand = 0\<rparr>
      else None)"

text \<open>One element moved to the front of its new bucket, with the number of elements beyond the ideal length.\<close>

definition move_elem ::
    "u32 \<Rightarrow> u32 \<Rightarrow> 'v ut_elem \<Rightarrow> 'v ut_bucket list \<times> u32 \<Rightarrow> 'v ut_bucket list \<times> u32" where
  "move_elem ideal nb h st = (case st of (bs, nonideal) \<Rightarrow>
     let i = HASH_TO_BKT (ue_hashv h) nb; b = bs ! i; c = bk_count b + 1
     in if c > ideal
        then (bs[i := \<lparr>hh_head = h # hh_head b, bk_count = c, expand_mult = c div ideal\<rparr>], nonideal + 1)
        else (bs[i := b\<lparr>hh_head := h # hh_head b, bk_count := c\<rparr>], nonideal))"

definition HASH_EXPAND_BUCKETS :: "int \<Rightarrow> 'v ut_table \<Rightarrow> 'v ut_table option" where
  "HASH_EXPAND_BUCKETS lim t =
     (let nb = num_buckets t * 2;
          ideal = drop_bit (unat (log2_num_buckets t) + 1) (num_items t) + (if num_items t AND (nb - 1) \<noteq> 0 then 1 else 0)
      in if \<not> uthash_malloc lim (16 * uint nb) then None
         else
           (case fold (move_elem ideal nb) (concat (map hh_head (buckets t))) (replicate (unat nb) empty_bucket, 0) of
              (bs, nonideal) \<Rightarrow>
                let ineff = (if nonideal > drop_bit 1 (num_items t) then ineff_expands t + 1 else 0)
                in Some (t\<lparr>buckets := bs, num_buckets := nb, log2_num_buckets := log2_num_buckets t + 1,
                       ideal_chain_maxlen := ideal, nonideal_items := nonideal, ineff_expands := ineff,
                       noexpand := (if ineff > 1 then 1 else noexpand t)\<rparr>)))"

definition HASH_ADD_TO_BKT :: "int \<Rightarrow> 'v ut_table \<Rightarrow> nat \<Rightarrow> 'v ut_elem \<Rightarrow> 'v ut_table option" where
  "HASH_ADD_TO_BKT lim t i h =
     (let b = buckets t ! i;
          b' = b\<lparr>bk_count := bk_count b + 1, hh_head := h # hh_head b\<rparr>;
          t' = t\<lparr>buckets := (buckets t)[i := b']\<rparr>
      in if bk_count b' \<ge> (expand_mult b' + 1) * HASH_BKT_CAPACITY_THRESH \<and> noexpand t \<noteq> 1
         then HASH_EXPAND_BUCKETS lim t' else Some t')"

text \<open>\<open>head\<close> is \<open>None\<close> for an empty table; the result is \<open>None\<close> when the process exits.\<close>

definition HASH_ADD :: "int \<Rightarrow> 'v ut_table option \<Rightarrow> nat \<Rightarrow> u8 list \<Rightarrow> 'v \<Rightarrow> 'v ut_table option option" where
  "HASH_ADD lim head ptr key v = map_option Some (do {
     t \<leftarrow> (case head of None \<Rightarrow> HASH_MAKE_TABLE lim | Some t \<Rightarrow> Some t);
     let h = \<lparr>ue_ptr = ptr, ue_key = key, ue_hashv = HASH_JEN key, ue_val = v\<rparr>;
     HASH_ADD_TO_BKT lim (t\<lparr>app_order := app_order t @ [h], num_items := num_items t + 1\<rparr>)
       (HASH_TO_BKT (ue_hashv h) (num_buckets t)) h
   })"

definition HASH_FIND_IN_BKT :: "'v ut_elem list \<Rightarrow> u8 list \<Rightarrow> 'v ut_elem option" where
  "HASH_FIND_IN_BKT chain key = find (\<lambda>h. length (ue_key h) = length key \<and> ue_key h = key) chain"

definition HASH_FIND :: "'v ut_table option \<Rightarrow> u8 list \<Rightarrow> 'v ut_elem option" where
  "HASH_FIND head key =
     (case head of
        None \<Rightarrow> None
      | Some t \<Rightarrow> HASH_FIND_IN_BKT (hh_head (buckets t ! HASH_TO_BKT (HASH_JEN key) (num_buckets t))) key)"

definition HASH_DEL_IN_BKT :: "'v ut_bucket \<Rightarrow> 'v ut_elem \<Rightarrow> 'v ut_bucket" where
  "HASH_DEL_IN_BKT b del =
     b\<lparr>bk_count := bk_count b - 1, hh_head := filter (\<lambda>h. ue_ptr h \<noteq> ue_ptr del) (hh_head b)\<rparr>"

definition HASH_DELETE :: "'v ut_table \<Rightarrow> 'v ut_elem \<Rightarrow> 'v ut_table option" where
  "HASH_DELETE t del =
     (if map ue_ptr (app_order t) = [ue_ptr del] then None
      else
        let i = HASH_TO_BKT (ue_hashv del) (num_buckets t)
        in Some (t\<lparr>app_order := filter (\<lambda>h. ue_ptr h \<noteq> ue_ptr del) (app_order t),
               buckets := (buckets t)[i := HASH_DEL_IN_BKT (buckets t ! i) del], num_items := num_items t - 1\<rparr>))"

definition HASH_DEL :: "'v ut_table option \<Rightarrow> 'v ut_elem \<Rightarrow> 'v ut_table option" where
  "HASH_DEL head del = (case head of None \<Rightarrow> None | Some t \<Rightarrow> HASH_DELETE t del)"

definition HASH_COUNT :: "'v ut_table option \<Rightarrow> u32" where
  "HASH_COUNT head = (case head of None \<Rightarrow> 0 | Some t \<Rightarrow> num_items t)"

text \<open>An assignment to a field of a structure in the table, through a pointer to it.\<close>

definition upd_elem :: "nat \<Rightarrow> ('v \<Rightarrow> 'v) \<Rightarrow> 'v ut_elem \<Rightarrow> 'v ut_elem" where
  "upd_elem p f h = (if ue_ptr h = p then h\<lparr>ue_val := f (ue_val h)\<rparr> else h)"

definition hash_assign :: "'v ut_table option \<Rightarrow> nat \<Rightarrow> ('v \<Rightarrow> 'v) \<Rightarrow> 'v ut_table option" where
  "hash_assign head p f = map_option (\<lambda>t. t\<lparr>app_order := map (upd_elem p f) (app_order t),
     buckets := map (\<lambda>b. b\<lparr>hh_head := map (upd_elem p f) (hh_head b)\<rparr>) (buckets t)\<rparr>) head"

section \<open>Buckets\<close>

lemma upd_elem_simps [simp]:
  "ue_ptr (upd_elem p f h) = ue_ptr h" "ue_key (upd_elem p f h) = ue_key h" "ue_hashv (upd_elem p f h) = ue_hashv h"
  "ue_val (upd_elem p f h) = (if ue_ptr h = p then f (ue_val h) else ue_val h)"
  by (simp_all add: upd_elem_def)

lemma bkt_take: "L < 32 \<Longrightarrow> HASH_TO_BKT h (2 ^ L) = take_bit L (unat h)"
proof -
  assume "L < 32"
  have "h AND (2 ^ L - 1) = take_bit L h" by (simp add: take_bit_eq_mask mask_eq_exp_minus_1)
  then show ?thesis by (simp add: HASH_TO_BKT_def unsigned_take_bit_eq)
qed

lemma bkt_less: "L < 32 \<Longrightarrow> HASH_TO_BKT h (2 ^ L) < 2 ^ L"
  by (simp add: bkt_take)

lemma unat_pow: "L < 32 \<Longrightarrow> unat ((2 :: u32) ^ L) = 2 ^ L"
proof -
  assume "L < 32"
  then have "(2 :: nat) ^ L < 2 ^ 32" by (rule power_strict_increasing) simp
  then have "unat (of_nat (2 ^ L) :: u32) = 2 ^ L" by (simp only: unat_of_nat) (simp add: take_bit_nat_eq_self)
  then show "unat ((2 :: u32) ^ L) = 2 ^ L" by simp
qed

definition chains :: "'v ut_bucket list \<Rightarrow> 'v ut_elem list" where
  "chains bs = concat (map hh_head bs)"

lemma chains_upd: "i < length bs \<Longrightarrow> mset (chains (bs[i := b])) + mset (hh_head (bs ! i)) = mset (chains bs) + mset (hh_head b)"
proof (induction bs arbitrary: i)
  case (Cons c bs)
  then show ?case by (cases i) (auto simp: chains_def add_ac)
qed simp

text \<open>The elements of a bucket belong there and are counted.\<close>

definition bucket_ok :: "u32 \<Rightarrow> nat \<Rightarrow> 'v ut_bucket \<Rightarrow> bool" where
  "bucket_ok nb i b \<longleftrightarrow> (\<forall>h \<in> set (hh_head b). ue_hashv h = HASH_JEN (ue_key h) \<and> HASH_TO_BKT (ue_hashv h) nb = i) \<and>
     bk_count b = of_nat (length (hh_head b))"

definition buckets_ok :: "nat \<Rightarrow> 'v ut_bucket list \<Rightarrow> bool" where
  "buckets_ok L bs \<longleftrightarrow> length bs = 2 ^ L \<and> (\<forall>i < 2 ^ L. bucket_ok (2 ^ L) i (bs ! i))"

lemma buckets_ok_upd: "buckets_ok L bs \<Longrightarrow> i < 2 ^ L \<Longrightarrow> bucket_ok (2 ^ L) i b \<Longrightarrow> buckets_ok L (bs[i := b])"
  by (simp add: buckets_ok_def nth_list_update)

lemma move_ok:
  assumes b: "buckets_ok L bs" and L: "L < 32" and h: "ue_hashv h = HASH_JEN (ue_key h)" and m: "move_elem ideal (2 ^ L) h (bs, x) = (bs', y)"
  shows "buckets_ok L bs'" "mset (chains bs') = add_mset h (mset (chains bs))"
proof -
  let ?i = "HASH_TO_BKT (ue_hashv h) (2 ^ L)" and ?b = "bs ! HASH_TO_BKT (ue_hashv h) (2 ^ L)"
  have i: "?i < 2 ^ L" by (rule bkt_less [OF L])
  then have ok: "bucket_ok (2 ^ L) ?i ?b" "?i < length bs" using b by (simp_all add: buckets_ok_def)
  obtain b' where b': "bs' = bs[?i := b']" "hh_head b' = h # hh_head ?b" "bk_count b' = bk_count ?b + 1"
    using m by (auto simp: move_elem_def Let_def split: if_splits)
  have "bucket_ok (2 ^ L) ?i b'" using ok(1) b'(2,3) h unfolding bucket_ok_def by auto
  then show "buckets_ok L bs'" unfolding b'(1) by (rule buckets_ok_upd [OF b i])
  show "mset (chains bs') = add_mset h (mset (chains bs))" using chains_upd [OF ok(2), of b'] b' by simp
qed

lemma move_all_ok:
  assumes "fold (move_elem ideal (2 ^ L)) hs (bs, x) = (bs', y)" and "buckets_ok L bs" and "L < 32"
    and "\<forall>h \<in> set hs. ue_hashv h = HASH_JEN (ue_key h)"
  shows "buckets_ok L bs' \<and> mset (chains bs') = mset hs + mset (chains bs)"
  using assms
proof (induction hs arbitrary: bs x)
  case (Cons h hs)
  obtain bs1 x1 where m: "move_elem ideal (2 ^ L) h (bs, x) = (bs1, x1)" by force
  note mo = move_ok [OF Cons.prems(2,3) _ m]
  have "fold (move_elem ideal (2 ^ L)) hs (bs1, x1) = (bs', y)" using Cons.prems(1) m by simp
  from Cons.IH [OF this] mo Cons.prems(3,4) show ?case by simp
qed simp

section \<open>The invariant\<close>

definition table_inv :: "'v ut_table \<Rightarrow> bool" where
  "table_inv t \<longleftrightarrow> (\<exists>L. 5 \<le> L \<and> L \<le> 30 \<and> log2_num_buckets t = of_nat L \<and> num_buckets t = 2 ^ L \<and> buckets_ok L (buckets t)) \<and>
     mset (chains (buckets t)) = mset (app_order t) \<and> num_items t = of_nat (length (app_order t)) \<and>
     distinct (map ue_ptr (app_order t)) \<and> distinct (map ue_key (app_order t))"

definition elems :: "'v ut_table option \<Rightarrow> 'v ut_elem list" where
  "elems head = (case head of None \<Rightarrow> [] | Some t \<Rightarrow> app_order t)"

definition hash_inv :: "'v ut_table option \<Rightarrow> bool" where
  "hash_inv head \<longleftrightarrow> (case head of None \<Rightarrow> True | Some t \<Rightarrow> table_inv t \<and> app_order t \<noteq> [])"

lemma chains_hashv: "buckets_ok L bs \<Longrightarrow> h \<in> set (chains bs) \<Longrightarrow> ue_hashv h = HASH_JEN (ue_key h)"
  by (fastforce simp: buckets_ok_def bucket_ok_def chains_def in_set_conv_nth)

lemma expand_ok:
  assumes inv: "table_inv t" and e: "HASH_EXPAND_BUCKETS lim t = Some t'"
  shows "table_inv t'" "app_order t' = app_order t"
proof -
  obtain L where L: "5 \<le> L" "L \<le> 30" "log2_num_buckets t = of_nat L" "num_buckets t = 2 ^ L" "buckets_ok L (buckets t)"
    using inv by (auto simp: table_inv_def)
  have nb: "num_buckets t * 2 = 2 ^ Suc L" using L(4) by simp
  let ?ideal = "drop_bit (unat (log2_num_buckets t) + 1) (num_items t) + (if num_items t AND (2 ^ Suc L - 1) \<noteq> 0 then 1 else 0)"
  obtain bs x where f: "fold (move_elem ?ideal (2 ^ Suc L)) (chains (buckets t)) (replicate (unat ((2 :: u32) ^ Suc L)) empty_bucket, 0) = (bs, x)" by force
  have m: "uthash_malloc lim (16 * uint ((2 :: u32) ^ Suc L))"
    and t': "buckets t' = bs" "num_buckets t' = 2 ^ Suc L" "log2_num_buckets t' = of_nat (Suc L)" "app_order t' = app_order t" "num_items t' = num_items t"
    using e f L(3) unfolding HASH_EXPAND_BUCKETS_def Let_def nb chains_def [symmetric] by (auto split: if_splits simp del: power_Suc)
  have l30: "Suc L \<le> 30"
  proof (rule ccontr)
    assume "\<not> Suc L \<le> 30"
    then have "L = 30" using L(2) by simp
    then show False using m by (simp add: uthash_malloc_def)
  qed
  have u: "unat ((2 :: u32) ^ Suc L) = 2 ^ Suc L" by (rule unat_pow) (use l30 in simp)
  have e0: "buckets_ok (Suc L) (replicate (2 ^ Suc L) empty_bucket)" by (simp add: buckets_ok_def bucket_ok_def empty_bucket_def del: power_Suc)
  have "buckets_ok (Suc L) bs \<and> mset (chains bs) = mset (chains (buckets t)) + mset (chains (replicate (2 ^ Suc L) empty_bucket :: 'a ut_bucket list))"
    by (rule move_all_ok [OF f [unfolded u] e0]) (use l30 chains_hashv [OF L(5)] in auto)
  moreover have "chains (replicate k empty_bucket) = []" for k by (induction k) (simp_all add: chains_def empty_bucket_def)
  ultimately show "table_inv t'" using inv L l30 unfolding table_inv_def t' by (auto intro!: exI [of _ "Suc L"] simp del: power_Suc)
  show "app_order t' = app_order t" by (rule t'(4))
qed

section \<open>Operations\<close>

lemma find_iff:
  assumes "\<And>h h'. h \<in> set xs \<Longrightarrow> h' \<in> set xs \<Longrightarrow> P h \<Longrightarrow> P h' \<Longrightarrow> h = h'"
  shows "find P xs = Some h \<longleftrightarrow> h \<in> set xs \<and> P h"
proof
  assume "find P xs = Some h"
  then show "h \<in> set xs \<and> P h" by (auto simp: find_Some_iff)
next
  assume h: "h \<in> set xs \<and> P h"
  then obtain h' where h': "find P xs = Some h'" by (metis find_None_iff option.exhaust)
  then have "h' \<in> set xs" "P h'" by (auto simp: find_Some_iff)
  with h h' show "find P xs = Some h" using assms by blast
qed

lemma key_unique: "distinct (map ue_key xs) \<Longrightarrow> h \<in> set xs \<Longrightarrow> h' \<in> set xs \<Longrightarrow> ue_key h = ue_key h' \<Longrightarrow> h = h'"
  by (metis distinct_map inj_onD)

lemma chain_elems:
  assumes inv: "table_inv t"
  shows "h \<in> set (hh_head (buckets t ! HASH_TO_BKT (HASH_JEN (ue_key h)) (num_buckets t))) \<longleftrightarrow> h \<in> set (app_order t)"
proof -
  obtain L where L: "L \<le> 30" "num_buckets t = 2 ^ L" "buckets_ok L (buckets t)" using inv by (auto simp: table_inv_def)
  have s: "set (chains (buckets t)) = set (app_order t)" using inv by (metis table_inv_def set_mset_mset)
  let ?i = "HASH_TO_BKT (HASH_JEN (ue_key h)) (num_buckets t)"
  have i: "?i < 2 ^ L" "?i < length (buckets t)" using bkt_less [of L] L by (simp_all add: buckets_ok_def)
  have "h \<in> set (hh_head (buckets t ! ?i))" if hc: "h \<in> set (chains (buckets t))"
  proof -
    obtain b where b: "b \<in> set (buckets t)" "h \<in> set (hh_head b)" using hc by (auto simp: chains_def)
    then obtain j where j: "j < length (buckets t)" "h \<in> set (hh_head (buckets t ! j))" by (auto simp: in_set_conv_nth [of b])
    then have "bucket_ok (2 ^ L) j (buckets t ! j)" using L(3) by (simp add: buckets_ok_def)
    then have "ue_hashv h = HASH_JEN (ue_key h) \<and> HASH_TO_BKT (ue_hashv h) (2 ^ L) = j" using j(2) unfolding bucket_ok_def by blast
    then have "HASH_TO_BKT (HASH_JEN (ue_key h)) (2 ^ L) = j" by auto
    then show ?thesis using j L(2) by simp
  qed
  moreover have "h \<in> set (chains (buckets t))" if "h \<in> set (hh_head (buckets t ! ?i))" using that i(2) by (auto simp: chains_def)
  ultimately show ?thesis using s by blast
qed

lemma find_elems:
  assumes "hash_inv head"
  shows "HASH_FIND head k = find (\<lambda>h. ue_key h = k) (elems head)"
proof (cases head)
  case (Some t)
  then have t: "table_inv t" "distinct (map ue_key (app_order t))" using assms by (auto simp: hash_inv_def table_inv_def)
  let ?c = "hh_head (buckets t ! HASH_TO_BKT (HASH_JEN k) (num_buckets t))"
  have c: "h \<in> set ?c \<and> ue_key h = k \<longleftrightarrow> h \<in> set (app_order t) \<and> ue_key h = k" for h using chain_elems [OF t(1), of h] by auto
  have u: "h = h'" if "h \<in> set (app_order t)" "h' \<in> set (app_order t)" "ue_key h = k" "ue_key h' = k" for h h'
    using key_unique [OF t(2) that(1,2)] that(3,4) by simp
  have "find (\<lambda>h. ue_key h = k) ?c = Some h \<longleftrightarrow> h \<in> set ?c \<and> ue_key h = k" for h by (rule find_iff) (use c u in blast)
  moreover have "find (\<lambda>h. ue_key h = k) (app_order t) = Some h \<longleftrightarrow> h \<in> set (app_order t) \<and> ue_key h = k" for h
    by (rule find_iff) (use u in blast)
  ultimately have "find (\<lambda>h. ue_key h = k) ?c = Some h \<longleftrightarrow> find (\<lambda>h. ue_key h = k) (app_order t) = Some h" for h using c by blast
  then have "find (\<lambda>h. ue_key h = k) ?c = find (\<lambda>h. ue_key h = k) (app_order t)" by (metis option.exhaust)
  moreover have f: "(\<lambda>h. length (ue_key h) = length k \<and> ue_key h = k) = (\<lambda>h. ue_key h = k)" by auto
  ultimately show ?thesis using Some by (simp add: HASH_FIND_def HASH_FIND_IN_BKT_def elems_def f del: conj_ac)
qed (simp add: HASH_FIND_def elems_def)

lemma make_ok: "HASH_MAKE_TABLE lim = Some t \<Longrightarrow> table_inv t \<and> app_order t = []"
proof -
  assume "HASH_MAKE_TABLE lim = Some t"
  then have t: "buckets t = replicate 32 empty_bucket" "num_buckets t = 2 ^ 5" "log2_num_buckets t = of_nat 5" "num_items t = 0" "app_order t = []"
    by (auto simp: HASH_MAKE_TABLE_def HASH_INITIAL_NUM_BUCKETS_def HASH_INITIAL_NUM_BUCKETS_LOG2_def split: if_splits)
  have "chains (replicate k empty_bucket) = []" for k by (induction k) (simp_all add: chains_def empty_bucket_def)
  moreover have "buckets_ok 5 (replicate 32 empty_bucket)" by (simp add: buckets_ok_def bucket_ok_def empty_bucket_def)
  ultimately show ?thesis unfolding table_inv_def t by (auto intro!: exI [of _ 5])
qed

lemma add_bkt_ok:
  assumes inv: "table_inv t" and h: "ue_hashv h = HASH_JEN (ue_key h)" "ue_key h \<notin> ue_key ` set (app_order t)" "ue_ptr h \<notin> ue_ptr ` set (app_order t)"
    and a: "HASH_ADD_TO_BKT lim (t\<lparr>app_order := app_order t @ [h], num_items := num_items t + 1\<rparr>) (HASH_TO_BKT (ue_hashv h) (num_buckets t)) h = Some t'"
  shows "table_inv t' \<and> app_order t' = app_order t @ [h]"
proof -
  obtain L where L: "5 \<le> L" "L \<le> 30" "log2_num_buckets t = of_nat L" "num_buckets t = 2 ^ L" "buckets_ok L (buckets t)"
    using inv by (auto simp: table_inv_def)
  let ?i = "HASH_TO_BKT (ue_hashv h) (num_buckets t)"
  let ?b = "buckets t ! ?i"
  let ?b' = "?b\<lparr>bk_count := bk_count ?b + 1, hh_head := h # hh_head ?b\<rparr>"
  let ?t1 = "t\<lparr>app_order := app_order t @ [h], num_items := num_items t + 1, buckets := (buckets t)[?i := ?b']\<rparr>"
  have i: "?i < 2 ^ L" "?i < length (buckets t)" using bkt_less [of L] L by (simp_all add: buckets_ok_def)
  have "bucket_ok (2 ^ L) ?i ?b" using L(5) i by (simp add: buckets_ok_def)
  then have "bucket_ok (2 ^ L) ?i ?b'" using h(1) L(4) unfolding bucket_ok_def by auto
  note b = buckets_ok_upd [OF L(5) i(1) this]
  have m: "mset (chains ((buckets t)[?i := ?b'])) = add_mset h (mset (chains (buckets t)))" using chains_upd [OF i(2), of ?b'] by simp
  have t1: "table_inv ?t1" using inv L b m h(2,3) unfolding table_inv_def by (auto simp: image_iff)
  have "t' = ?t1 \<or> HASH_EXPAND_BUCKETS lim ?t1 = Some t'"
    using a by (auto simp: HASH_ADD_TO_BKT_def Let_def split: if_splits)
  then show ?thesis using t1 expand_ok [OF t1] by auto
qed

lemma add_ok:
  assumes inv: "hash_inv head" and k: "k \<notin> ue_key ` set (elems head)" "p \<notin> ue_ptr ` set (elems head)" and a: "HASH_ADD lim head p k v = Some head'"
  shows "hash_inv head' \<and> elems head' = elems head @ [\<lparr>ue_ptr = p, ue_key = k, ue_hashv = HASH_JEN k, ue_val = v\<rparr>]"
proof -
  let ?h = "\<lparr>ue_ptr = p, ue_key = k, ue_hashv = HASH_JEN k, ue_val = v\<rparr>"
  obtain t where t: "head' = Some t" using a by (auto simp: HASH_ADD_def)
  obtain t0 where t0: "table_inv t0" "app_order t0 = elems head"
      "HASH_ADD_TO_BKT lim (t0\<lparr>app_order := app_order t0 @ [?h], num_items := num_items t0 + 1\<rparr>) (HASH_TO_BKT (HASH_JEN k) (num_buckets t0)) ?h = Some t"
  proof (cases head)
    case None
    then obtain t0 where "HASH_MAKE_TABLE lim = Some t0"
        "HASH_ADD_TO_BKT lim (t0\<lparr>app_order := app_order t0 @ [?h], num_items := num_items t0 + 1\<rparr>) (HASH_TO_BKT (HASH_JEN k) (num_buckets t0)) ?h = Some t"
      using a t by (auto simp: HASH_ADD_def Let_def bind_eq_Some_conv)
    then show ?thesis using that [of t0] make_ok [of lim t0] None by (simp add: elems_def)
  next
    case (Some t0)
    then show ?thesis using a t inv that [of t0] by (auto simp: HASH_ADD_def Let_def elems_def hash_inv_def)
  qed
  have "table_inv t \<and> app_order t = app_order t0 @ [?h]" by (rule add_bkt_ok [OF t0(1)]) (use k t0 in auto)
  then show ?thesis using t0(2) t by (simp add: hash_inv_def elems_def)
qed

lemma filter_remove: "distinct (map f xs) \<Longrightarrow> h \<in> set xs \<Longrightarrow> filter (\<lambda>x. f x \<noteq> f h) xs = remove1 h xs"
proof (induction xs)
  case (Cons x xs)
  show ?case
  proof (cases "x = h")
    case True
    then have "filter (\<lambda>x. f x \<noteq> f h) xs = xs" using Cons.prems by (intro filter_True) (auto simp: image_iff)
    then show ?thesis using True by simp
  next
    case False
    then have "f x \<noteq> f h" using Cons.prems by (auto simp: image_iff)
    then show ?thesis using Cons False by simp
  qed
qed simp

lemma distinct_map_remove1: "distinct (map f xs) \<Longrightarrow> distinct (map f (remove1 h xs))"
  by (metis distinct_map distinct_remove1 inj_on_subset set_remove1_subset)

lemma chain_distinct:
  assumes "table_inv t" and "i < length (buckets t)"
  shows "distinct (map ue_ptr (hh_head (buckets t ! i)))"
proof -
  have "mset (map ue_ptr (chains (buckets t))) = mset (map ue_ptr (app_order t))" using assms(1) by (simp add: table_inv_def)
  then have "distinct (map ue_ptr (chains (buckets t)))" using assms(1) by (metis mset_eq_imp_distinct_iff table_inv_def)
  then have "distinct (concat (map (map ue_ptr \<circ> hh_head) (buckets t)))" by (simp add: chains_def map_concat)
  then show ?thesis using assms(2) by (auto simp: distinct_concat_iff)
qed

lemma del_ok:
  assumes inv: "hash_inv (Some t)" and h: "h \<in> set (app_order t)"
  shows "hash_inv (HASH_DELETE t h) \<and> elems (HASH_DELETE t h) = filter (\<lambda>x. ue_ptr x \<noteq> ue_ptr h) (app_order t)"
proof (cases "map ue_ptr (app_order t) = [ue_ptr h]")
  case True
  then show ?thesis by (auto simp: HASH_DELETE_def hash_inv_def elems_def filter_empty_conv)
next
  case False
  have t: "table_inv t" using inv by (simp add: hash_inv_def)
  obtain L where L: "5 \<le> L" "L \<le> 30" "log2_num_buckets t = of_nat L" "num_buckets t = 2 ^ L" "buckets_ok L (buckets t)"
    using t by (auto simp: table_inv_def)
  let ?i = "HASH_TO_BKT (ue_hashv h) (num_buckets t)"
  let ?b = "buckets t ! ?i"
  let ?b' = "HASH_DEL_IN_BKT ?b h"
  have d: "distinct (map ue_ptr (app_order t))" "distinct (map ue_key (app_order t))" "mset (chains (buckets t)) = mset (app_order t)"
    "num_items t = of_nat (length (app_order t))" using t by (simp_all add: table_inv_def)
  have hv: "ue_hashv h = HASH_JEN (ue_key h)" using chains_hashv [OF L(5), of h] h d(3) by (metis set_mset_mset)
  have i: "?i < 2 ^ L" "?i < length (buckets t)" using bkt_less [of L] L by (simp_all add: buckets_ok_def)
  have bok: "bucket_ok (2 ^ L) ?i ?b" using L(5) i by (simp add: buckets_ok_def)
  have hb: "h \<in> set (hh_head ?b)" using chain_elems [OF t, of h] h hv by simp
  have r: "filter (\<lambda>x. ue_ptr x \<noteq> ue_ptr h) (app_order t) = remove1 h (app_order t)" "hh_head ?b' = remove1 h (hh_head ?b)"
    using filter_remove [OF d(1) h] filter_remove [OF chain_distinct [OF t i(2)] hb] by (simp_all add: HASH_DEL_IN_BKT_def)
  have l: "(of_nat (length xs - 1) :: u32) = of_nat (length xs) - 1" if "h \<in> set xs" for xs :: "'a ut_elem list"
    using that by (cases xs) simp_all
  have "bucket_ok (2 ^ L) ?i ?b'"
  proof -
    have "bk_count ?b = of_nat (length (hh_head ?b))" using bok unfolding bucket_ok_def by blast
    then have "bk_count ?b' = of_nat (length (hh_head ?b) - 1)" using l [OF hb] by (simp add: HASH_DEL_IN_BKT_def)
    then have "bk_count ?b' = of_nat (length (hh_head ?b'))" using hb unfolding r(2) by (simp add: length_remove1)
    moreover have "set (hh_head ?b') \<subseteq> set (hh_head ?b)" unfolding r(2) by (rule set_remove1_subset)
    ultimately show ?thesis using bok unfolding bucket_ok_def by blast
  qed
  note b = buckets_ok_upd [OF L(5) i(1) this]
  have "mset (chains ((buckets t)[?i := ?b'])) = mset (remove1 h (app_order t))"
  proof -
    have "mset (hh_head ?b) = add_mset h (mset (hh_head ?b'))" using hb unfolding r(2) by simp
    then have "mset (chains ((buckets t)[?i := ?b'])) + add_mset h (mset (hh_head ?b')) = mset (app_order t) + mset (hh_head ?b')"
      using chains_upd [OF i(2), of ?b'] d(3) by metis
    then have "add_mset h (mset (chains ((buckets t)[?i := ?b']))) = mset (app_order t)" by simp
    then show ?thesis by (metis add_mset_remove_trivial mset_remove1)
  qed
  moreover note distinct_map_remove1 [OF d(1), of h] distinct_map_remove1 [OF d(2), of h]
  moreover have "remove1 h (app_order t) \<noteq> []"
  proof
    assume "remove1 h (app_order t) = []"
    then have "app_order t = [h]" using h by (cases "app_order t") (auto split: if_splits)
    then show False using False by simp
  qed
  ultimately show ?thesis
    using False L b d h l [OF h] r(1)
    by (auto simp: HASH_DELETE_def Let_def hash_inv_def elems_def table_inv_def length_remove1 intro!: exI [of _ L])
qed

lemma assign_ok:
  assumes "hash_inv head"
  shows "hash_inv (hash_assign head p f) \<and> elems (hash_assign head p f) = map (upd_elem p f) (elems head)"
proof (cases head)
  case (Some t)
  have m: "ue_ptr \<circ> upd_elem p f = ue_ptr" "ue_key \<circ> upd_elem p f = ue_key" by (simp_all add: fun_eq_iff)
  have c: "chains (map (\<lambda>b. b\<lparr>hh_head := map (upd_elem p f) (hh_head b)\<rparr>) bs) = map (upd_elem p f) (chains bs)" for bs
    by (induction bs) (simp_all add: chains_def)
  have "bucket_ok nb i (b\<lparr>hh_head := map (upd_elem p f) (hh_head b)\<rparr>)" if "bucket_ok nb i b" for nb i b
    using that by (auto simp: bucket_ok_def)
  then have "buckets_ok L (map (\<lambda>b. b\<lparr>hh_head := map (upd_elem p f) (hh_head b)\<rparr>) bs)" if "buckets_ok L bs" for L bs
    using that by (simp add: buckets_ok_def)
  then show ?thesis using assms Some c m by (auto simp: hash_inv_def hash_assign_def elems_def table_inv_def)
qed (simp add: hash_inv_def hash_assign_def elems_def)

lemma count_ok: "hash_inv head \<Longrightarrow> HASH_COUNT head = of_nat (length (elems head))"
  by (auto simp: HASH_COUNT_def hash_inv_def elems_def table_inv_def split: option.split)

section \<open>The contract of a table\<close>

text \<open>What the users of a table rely on; \<open>lookup\<close> returns the structure, which is named by its address.\<close>

locale keyed_table =
  fixes inv :: "'s \<Rightarrow> bool" and lookup :: "'s \<Rightarrow> 'k \<Rightarrow> 'e option" and add :: "'s \<Rightarrow> nat \<Rightarrow> 'k \<Rightarrow> 'v \<Rightarrow> 's option"
    and del :: "'s \<Rightarrow> 'e \<Rightarrow> 's" and assign :: "'s \<Rightarrow> nat \<Rightarrow> ('v \<Rightarrow> 'v) \<Rightarrow> 's" and ptr :: "'e \<Rightarrow> nat" and val :: "'e \<Rightarrow> 'v"
    and ptrs :: "'s \<Rightarrow> nat set"
  assumes lookup_ptr: "inv s \<Longrightarrow> lookup s k = Some e \<Longrightarrow> ptr e \<in> ptrs s"
    and ptr_inj: "inv s \<Longrightarrow> lookup s k = Some e \<Longrightarrow> lookup s k' = Some e' \<Longrightarrow> ptr e = ptr e' \<Longrightarrow> k = k'"
    and add: "inv s \<Longrightarrow> lookup s k = None \<Longrightarrow> p \<notin> ptrs s \<Longrightarrow> add s p k v = Some s' \<Longrightarrow>
      inv s' \<and> ptrs s' = insert p (ptrs s) \<and> (\<forall>k'. k' \<noteq> k \<longrightarrow> lookup s' k' = lookup s k') \<and> (\<exists>e. lookup s' k = Some e \<and> ptr e = p \<and> val e = v)"
    and del: "inv s \<Longrightarrow> lookup s k = Some e \<Longrightarrow>
      inv (del s e) \<and> ptrs (del s e) \<subseteq> ptrs s \<and> (\<forall>k'. lookup (del s e) k' = (if k' = k then None else lookup s k'))"
    and assign: "inv s \<Longrightarrow> inv (assign s p f) \<and> ptrs (assign s p f) = ptrs s \<and>
      map_option val (lookup (assign s p f) k) = map_option (\<lambda>e. if ptr e = p then f (val e) else val e) (lookup s k)"
begin

definition vals :: "'s \<Rightarrow> 'k \<Rightarrow> 'v option" where
  "vals s k = map_option val (lookup s k)"

lemma vals_add:
  assumes "inv s" and "vals s k = None" and "p \<notin> ptrs s" and "add s p k v = Some s'"
  shows "vals s' = (vals s)(k \<mapsto> v)" "inv s'" "ptrs s' = insert p (ptrs s)"
  using add [OF assms(1) _ assms(3,4)] assms(2) by (auto simp: vals_def fun_eq_iff)

lemma vals_del:
  assumes "inv s" and "lookup s k = Some e"
  shows "vals (del s e) = (vals s)(k := None)" "inv (del s e)" "ptrs (del s e) \<subseteq> ptrs s"
  using del [OF assms] by (auto simp: vals_def fun_eq_iff)

lemma vals_assign:
  assumes "inv s" and "lookup s k = Some e"
  shows "vals (assign s (ptr e) f) = (vals s)(k \<mapsto> f (val e))" "inv (assign s (ptr e) f)" "ptrs (assign s (ptr e) f) = ptrs s"
proof -
  show "vals (assign s (ptr e) f) = (vals s)(k \<mapsto> f (val e))"
  proof
    fix k'
    show "vals (assign s (ptr e) f) k' = ((vals s)(k \<mapsto> f (val e))) k'"
      using assign [OF assms(1), of "ptr e" f k'] assms ptr_inj [OF assms(1) _ assms(2), of k']
      by (cases "lookup s k'") (auto simp: vals_def)
  qed
  show "inv (assign s (ptr e) f)" "ptrs (assign s (ptr e) f) = ptrs s" using assign [OF assms(1)] by simp_all
qed

end

lemma find_snoc: "find P (xs @ [x]) = (case find P xs of None \<Rightarrow> if P x then Some x else None | Some y \<Rightarrow> Some y)"
  by (induction xs) auto

lemma find_remove1:
  assumes "distinct (map f xs)" and "e \<in> set xs"
  shows "find (\<lambda>h. f h = k) (remove1 e xs) = (if k = f e then None else find (\<lambda>h. f h = k) xs)"
  using assms by (induction xs) (auto simp: find_None_iff image_iff)

lemma find_mapped: "find P (map g xs) = map_option g (find (P \<circ> g) xs)"
  by (induction xs) auto

lemma lookup_Some:
  assumes "hash_inv s" and "HASH_FIND s k = Some e"
  shows "e \<in> set (elems s)" "ue_key e = k"
  using assms(2) unfolding find_elems [OF assms(1)] by (auto simp: find_Some_iff)

lemma elems_distinct: "hash_inv s \<Longrightarrow> distinct (map ue_ptr (elems s)) \<and> distinct (map ue_key (elems s))"
  by (auto simp: hash_inv_def elems_def table_inv_def split: option.splits)

interpretation ut: keyed_table hash_inv HASH_FIND "HASH_ADD lim" HASH_DEL hash_assign ue_ptr ue_val "\<lambda>s. ue_ptr ` set (elems s)" for lim
proof unfold_locales
  fix s :: "'a ut_table option" and k k' e e' p v s' f
  assume i: "hash_inv s"
  note u = elems_distinct [OF i]
  show "ue_ptr e \<in> ue_ptr ` set (elems s)" if "HASH_FIND s k = Some e" using lookup_Some [OF i that] by simp
  show "k = k'" if "HASH_FIND s k = Some e" "HASH_FIND s k' = Some e'" "ue_ptr e = ue_ptr e'"
    using lookup_Some [OF i that(1)] lookup_Some [OF i that(2)] that(3) u by (metis distinct_map inj_onD)
  show "hash_inv s' \<and> ue_ptr ` set (elems s') = insert p (ue_ptr ` set (elems s)) \<and>
      (\<forall>k'. k' \<noteq> k \<longrightarrow> HASH_FIND s' k' = HASH_FIND s k') \<and> (\<exists>e. HASH_FIND s' k = Some e \<and> ue_ptr e = p \<and> ue_val e = v)"
    if "HASH_FIND s k = None" "p \<notin> ue_ptr ` set (elems s)" "HASH_ADD lim s p k v = Some s'"
  proof -
    have k: "k \<notin> ue_key ` set (elems s)" using that(1) unfolding find_elems [OF i] by (auto simp: find_None_iff)
    have a: "hash_inv s'" "elems s' = elems s @ [\<lparr>ue_ptr = p, ue_key = k, ue_hashv = HASH_JEN k, ue_val = v\<rparr>]"
      using add_ok [OF i k that(2,3)] by simp_all
    have n: "find (\<lambda>h. ue_key h = k) (elems s) = None" using that(1) find_elems [OF i] by metis
    show ?thesis using a n unfolding find_elems [OF i] find_elems [OF a(1)]
      by (auto simp: find_snoc split: option.split)
  qed
  show "hash_inv (HASH_DEL s e) \<and> ue_ptr ` set (elems (HASH_DEL s e)) \<subseteq> ue_ptr ` set (elems s) \<and>
      (\<forall>k'. HASH_FIND (HASH_DEL s e) k' = (if k' = k then None else HASH_FIND s k'))" if f: "HASH_FIND s k = Some e"
  proof -
    note e = lookup_Some [OF i f]
    obtain t where t: "s = Some t" using f by (cases s) (auto simp: HASH_FIND_def)
    have d: "hash_inv (HASH_DEL s e)" "elems (HASH_DEL s e) = remove1 e (elems s)"
      using del_ok [of t e] i t e(1) filter_remove [of ue_ptr "elems s" e] u by (auto simp: HASH_DEL_def elems_def)
    show ?thesis using d u e find_remove1 [of ue_key "elems s" e] unfolding find_elems [OF i] find_elems [OF d(1)]
      using set_remove1_subset [of e "elems s"] by auto
  qed
  show "hash_inv (hash_assign s p f) \<and> ue_ptr ` set (elems (hash_assign s p f)) = ue_ptr ` set (elems s) \<and>
      map_option ue_val (HASH_FIND (hash_assign s p f) k) = map_option (\<lambda>e. if ue_ptr e = p then f (ue_val e) else ue_val e) (HASH_FIND s k)"
  proof -
    have a: "hash_inv (hash_assign s p f)" "elems (hash_assign s p f) = map (upd_elem p f) (elems s)" using assign_ok [OF i] by simp_all
    have "(\<lambda>h. ue_key h = k) \<circ> upd_elem p f = (\<lambda>h. ue_key h = k)" by (simp add: fun_eq_iff)
    moreover have "ue_ptr ` set (elems (hash_assign s p f)) = ue_ptr ` set (elems s)"
      unfolding a(2) set_map image_image by simp
    ultimately show ?thesis unfolding find_elems [OF i] find_elems [OF a(1)] a(2)
      using a(1) by (auto simp: find_mapped option.map_comp comp_def intro!: option.map_cong)
  qed
qed

section \<open>Runs\<close>

text \<open>
  A client of a table finds a structure before it adds, removes or changes one. A run of such
  operations is compared with the same run on a finite map.
\<close>

datatype 'v table_op = OpAdd nat "u8 list" 'v | OpDel "u8 list" | OpSet "u8 list" 'v

fun table_step :: "int \<Rightarrow> 'v ut_table option \<Rightarrow> 'v table_op \<Rightarrow> 'v ut_table option option" where
  "table_step lim h (OpAdd p k v) = (case HASH_FIND h k of None \<Rightarrow> HASH_ADD lim h p k v | Some e \<Rightarrow> Some h)"
| "table_step lim h (OpDel k) = Some (case HASH_FIND h k of None \<Rightarrow> h | Some e \<Rightarrow> HASH_DEL h e)"
| "table_step lim h (OpSet k v) = Some (case HASH_FIND h k of None \<Rightarrow> h | Some e \<Rightarrow> hash_assign h (ue_ptr e) (\<lambda>_. v))"

fun table_run :: "int \<Rightarrow> 'v ut_table option \<Rightarrow> 'v table_op list \<Rightarrow> 'v ut_table option option" where
  "table_run lim h [] = Some h"
| "table_run lim h (p # ps) = do { h' \<leftarrow> table_step lim h p; table_run lim h' ps }"

fun map_step :: "(u8 list \<Rightarrow> 'v option) \<Rightarrow> 'v table_op \<Rightarrow> u8 list \<Rightarrow> 'v option" where
  "map_step m (OpAdd p k v) = (case m k of None \<Rightarrow> m(k \<mapsto> v) | Some e \<Rightarrow> m)"
| "map_step m (OpDel k) = m(k := None)"
| "map_step m (OpSet k v) = (case m k of None \<Rightarrow> m | Some e \<Rightarrow> m(k \<mapsto> v))"

fun add_ptrs :: "'v table_op list \<Rightarrow> nat list" where
  "add_ptrs [] = []"
| "add_ptrs (OpAdd p k v # ps) = p # add_ptrs ps"
| "add_ptrs (OpDel k # ps) = add_ptrs ps"
| "add_ptrs (OpSet k v # ps) = add_ptrs ps"

lemma table_step_ok:
  assumes i: "hash_inv h" and s: "table_step lim h p = Some h'" and f: "set (add_ptrs [p]) \<inter> ue_ptr ` set (elems h) = {}"
  shows "hash_inv h' \<and> ut.vals h' = map_step (ut.vals h) p \<and> ue_ptr ` set (elems h') \<subseteq> ue_ptr ` set (elems h) \<union> set (add_ptrs [p])"
proof (cases p)
  case (OpAdd q k v)
  then show ?thesis using assms ut.vals_add [of h k q lim v h'] by (cases "HASH_FIND h k") (auto simp: ut.vals_def)
next
  case (OpDel k)
  then show ?thesis using assms ut.vals_del [of h k] by (cases "HASH_FIND h k") (auto simp: ut.vals_def fun_eq_iff)
next
  case (OpSet k v)
  then show ?thesis using assms ut.vals_assign [of h k _ "\<lambda>_. v"] by (cases "HASH_FIND h k") (auto simp: ut.vals_def)
qed

lemma add_ptrs_Cons: "add_ptrs (p # ps) = add_ptrs [p] @ add_ptrs ps"
  by (cases p) auto

lemma table_run_ok:
  "hash_inv h \<Longrightarrow> table_run lim h ps = Some h' \<Longrightarrow> distinct (add_ptrs ps) \<Longrightarrow> set (add_ptrs ps) \<inter> ue_ptr ` set (elems h) = {} \<Longrightarrow>
   hash_inv h' \<and> ut.vals h' = foldl map_step (ut.vals h) ps"
proof (induction ps arbitrary: h)
  case (Cons p ps)
  obtain g where g: "table_step lim h p = Some g" "table_run lim g ps = Some h'" using Cons.prems(2) by (auto simp: bind_eq_Some_conv)
  note a = add_ptrs_Cons [of p ps]
  have s: "hash_inv g \<and> ut.vals g = map_step (ut.vals h) p \<and> ue_ptr ` set (elems g) \<subseteq> ue_ptr ` set (elems h) \<union> set (add_ptrs [p])"
    using table_step_ok [OF Cons.prems(1) g(1)] Cons.prems(4) unfolding a by auto
  have "set (add_ptrs ps) \<inter> set (add_ptrs [p]) = {}" using Cons.prems(3) unfolding a by auto
  moreover have "set (add_ptrs ps) \<inter> ue_ptr ` set (elems h) = {}" using Cons.prems(4) unfolding a by auto
  ultimately have "set (add_ptrs ps) \<inter> ue_ptr ` set (elems g) = {}" using s by blast
  then show ?case using Cons.IH [of g] g(2) s Cons.prems(3) unfolding a by auto
qed simp

lemma elems_dom: "hash_inv h \<Longrightarrow> dom (ut.vals h) = ue_key ` set (elems h)"
  by (auto simp: ut.vals_def dom_def find_elems find_Some_iff find_None_iff image_iff not_None_eq [symmetric] simp del: not_None_eq)

lemma count_dom: "hash_inv h \<Longrightarrow> HASH_COUNT h = of_nat (card (dom (ut.vals h)))"
  using elems_distinct [of h] distinct_card [of "map ue_key (elems h)"] by (simp add: count_ok elems_dom)

lemma HASH_JEN_short: "length key < 12 \<Longrightarrow>
   HASH_JEN key = snd (snd (JEN_MIX (jen_tail key (0x9e3779b9, 0x9e3779b9, 0xfeedbeef + of_nat (length key)))))"
  by (simp add: HASH_JEN_def jen_loop.simps)

lemmas jen_eval = HASH_JEN_short jen_tail_def tail_byte_def key_byte_def JEN_MIX_def

lemma jen_1: "HASH_JEN [1,0,0,0] = 1645737893"  by (simp add: jen_eval)
lemma jen_2: "HASH_JEN [2,0,0,0] = 1670575996"  by (simp add: jen_eval)

lemmas table_eval = HASH_ADD_def HASH_MAKE_TABLE_def HASH_ADD_TO_BKT_def uthash_malloc_def HASH_FIND_def HASH_FIND_IN_BKT_def
  HASH_TO_BKT_def HASH_INITIAL_NUM_BUCKETS_def HASH_INITIAL_NUM_BUCKETS_LOG2_def HASH_BKT_CAPACITY_THRESH_def empty_bucket_def HASH_DEL_def
  HASH_DELETE_def HASH_DEL_IN_BKT_def hash_assign_def upd_elem_def HASH_COUNT_def

definition table_example :: "nat table_op list" where
  "table_example = [OpAdd 1 [1, 0, 0, 0] 5, OpAdd 2 [2, 0, 0, 0] 6, OpSet [2, 0, 0, 0] 7, OpDel [1, 0, 0, 0]]"

lemma table_example_runs: "\<exists>h. table_run 1000000 None table_example = Some h"
  by (simp add: table_example_def table_eval jen_1 jen_2 Let_def word_le_nat_alt)

text \<open>
  C27: a table behaves as a finite map. Whatever structures a client adds, removes and changes,
  finding each one first, a lookup returns what the map holds and the count is the number of its
  keys; neither collisions nor the expansion of the buckets shows.
\<close>

theorem uthash_refines_map:
  fixes ps :: "'v table_op list"
  assumes "table_run lim None ps = Some h" and "distinct (add_ptrs ps)"
  shows "map_option ue_val (HASH_FIND h k) = foldl map_step Map.empty ps k \<and> HASH_COUNT h = of_nat (card (dom (foldl map_step Map.empty ps)))"
proof -
  have n: "hash_inv (None :: 'v ut_table option)" "elems (None :: 'v ut_table option) = []"
      "ut.vals (None :: 'v ut_table option) = Map.empty"
    by (auto simp: hash_inv_def elems_def ut.vals_def HASH_FIND_def)
  have "hash_inv h" "ut.vals h = foldl map_step Map.empty ps" using table_run_ok [OF n(1) assms] n(2,3) by simp_all
  then show ?thesis using count_dom [of h] by (metis ut.vals_def)
qed

theorem uthash_refines_map_witness:
  "\<exists>h. table_run 1000000 None table_example = Some h \<and> map_option ue_val (HASH_FIND h [2, 0, 0, 0]) = Some 7 \<and> HASH_COUNT h = 1"
proof -
  obtain h where h: "table_run 1000000 None table_example = Some h" using table_example_runs by blast
  have d: "distinct (add_ptrs table_example)" by (simp add: table_example_def)
  have m: "foldl map_step Map.empty table_example = [[2, 0, 0, 0] \<mapsto> 7]" by (auto simp: table_example_def fun_eq_iff)
  show ?thesis using h uthash_refines_map [OF h d, of "[2, 0, 0, 0]"] unfolding m by simp
qed

end
