(* ===== verification/Ev_Mgr.thy ===== *)
theory Ev_Mgr
  imports Node Uthash Decision
begin

text \<open>
  The event manager of \<open>ev_mgr/ev_mgr.c\<close>. On the leader its handlers turn the socket calls of the
  server program into requests, named by the stamp of the connection; on the other nodes the
  callback \<open>update_state\<close> replays the committed requests over connections of its own to the local
  server. The tables map descriptors to stamps on the leader and stamps to descriptors on a replica.

  The output checker, the decision log and the log region are global data of other modules, so they
  are fields of the state here. \<open>None\<close> is a fault, an exit, or a loop that does not end.
\<close>

section \<open>State\<close>

record leader_tcp_pair =
  lt_vs :: view_stamp

record leader_udp_pair =
  lu_vs :: view_stamp

record replica_tcp_pair =
  p_s :: int
  s_p :: int
  accepted :: bool

text \<open>
  Calls on connections: with descriptors, the ones a replica makes on its own connections to the
  server, and with stamps, what a sequence of requests asks for.
\<close>

datatype 'k conn_call = CConnect 'k | CWrite 'k "u8 list" | CClose 'k

type_synonym sock_call = "int conn_call"

record 'd event_manager =
  em_node_id :: u32
  leader_tcp_map :: "leader_tcp_pair ut_table option"
  replica_tcp_map :: "replica_tcp_pair ut_table option"
  leader_udp_map :: "leader_udp_pair ut_table option"
  check_output :: u32
  em_rsm :: u32
  cur_rec :: u64
  excluded_threads :: "u64 list"
  con_node :: "'d node"
  em_srv :: server_data
  em_out :: out_state
  em_dec :: dec_state
  em_brk :: nat
  em_avail :: nat
  em_calls :: "sock_call list"

text \<open>
  The surroundings: the memory for the tables, what a waiting submission sees, the log after the
  pause in \<open>prepare_peer_array\<close>, which descriptors are sockets, the descriptor \<open>socket\<close> returns, the
  thread and descriptor of the server's \<open>accept\<close>, and whether the decision log and its threads work.
\<close>

record 'd ev_env =
  ev_bdb :: "'d bdb"
  ev_lim :: int
  ev_views :: "'d consensus_component \<Rightarrow> server_data \<Rightarrow> mem list"
  ev_settled :: "server_data \<Rightarrow> mem"
  ev_is_sock :: "int \<Rightarrow> bool"
  ev_socket :: "'d event_manager \<Rightarrow> int"
  ev_accept :: "'d event_manager \<Rightarrow> (u64 \<times> int) option"
  ev_opens :: bool
  ev_creates :: "u32 \<Rightarrow> int \<Rightarrow> bool"

definition no_stamp :: view_stamp where "no_stamp = \<lparr>view_id = 0, req_id = 0\<rparr>"

text \<open>Keys as the tables see them: the bytes of an \<open>int\<close> and of a \<open>view_stamp\<close>.\<close>

definition int_key :: "int \<Rightarrow> u8 list" where
  "int_key fd = word_le 4 (word_of_int fd :: u32)"

definition vs_key :: "view_stamp \<Rightarrow> u8 list" where
  "vs_key vs = word_le 4 (view_id vs) @ word_le 4 (req_id vs)"

text \<open>Memory for one structure; it is cleared without a check, so a null pointer is a fault.\<close>

definition ev_malloc :: "'d event_manager \<Rightarrow> (nat \<times> 'd event_manager) option" where
  "ev_malloc em =
     (if em_avail em = 0 then None
      else Some (em_brk em, em\<lparr>em_brk := em_brk em + 1, em_avail := em_avail em - 1\<rparr>))"

text \<open>The list of the library's own threads, searched with \<open>pidcomp\<close>.\<close>

definition pidcomp :: "u64 \<Rightarrow> u64 \<Rightarrow> bool" where
  "pidcomp ptr key \<longleftrightarrow> ptr = key"

definition internal_threads :: "u64 list \<Rightarrow> u64 \<Rightarrow> bool" where
  "internal_threads excluded pid \<longleftrightarrow> find (\<lambda>p. pidcomp p pid) excluded \<noteq> None"

definition em_leader :: "'d event_manager \<Rightarrow> bool option" where
  "em_leader em = map_option (\<lambda>l. em_node_id em = l) (get_leader_id (con_node em))"

definition em_db :: "'d event_manager \<Rightarrow> 'd db option" where
  "em_db em = (case consensus_comp (con_node em) of None \<Rightarrow> None | Some cc \<Rightarrow> db_ptr cc)"

definition em_rsm_op ::
    "'d ev_env \<Rightarrow> 'd event_manager \<Rightarrow> nat \<Rightarrow> u8 list option \<Rightarrow> u8 \<Rightarrow> view_stamp option \<Rightarrow> ('d event_manager \<times> view_stamp option \<times> nat) option" where
  "em_rsm_op E em ret buf ty clt = do {
     (nd, sv, clt', entry) \<leftarrow> rsm_op (ev_bdb E) (ev_views E) (con_node em) (em_srv em) ret buf ty clt;
     Some (em\<lparr>con_node := nd, em_srv := sv\<rparr>, clt', entry)
   }"

section \<open>Records\<close>

text \<open>A stored \<open>request_record\<close>: the size with the end mark, the type, the client, the data.\<close>

record request_record =
  rr_data_size :: u64
  rr_type :: u8
  rr_clt_id :: view_stamp
  rr_data :: "u8 list"

definition RR_HEADER :: nat where "RR_HEADER = 20"

definition bytes_mem :: "u8 list \<Rightarrow> mem" where
  "bytes_mem bs = (\<lambda>i. if i < length bs then bs ! i else 0)"

definition request_of_bytes :: "u8 list \<Rightarrow> request_record" where
  "request_of_bytes bs =
     (let m = bytes_mem bs
      in \<lparr>rr_data_size = get_u64 m 0, rr_type = get_u8 m 8, rr_clt_id = get_vs m 12,
          rr_data = get_bytes m RR_HEADER (unat (get_u64 m 0) - 1)\<rparr>)"

text \<open>A record is read through the pointer that \<open>retrieve_record\<close> sets when it finds one.\<close>

definition get_record :: "'d ev_env \<Rightarrow> 'd event_manager \<Rightarrow> u64 \<Rightarrow> request_record option" where
  "get_record E em index =
     map_option request_of_bytes (snd (retrieve_record (ev_bdb E) (em_db em) (db_key index) None))"

section \<open>Handlers of the server's calls\<close>

definition mgr_on_accept :: "'d ev_env \<Rightarrow> u64 \<Rightarrow> int \<Rightarrow> 'd event_manager \<Rightarrow> 'd event_manager option" where
  "mgr_on_accept E tid fd em =
     (if internal_threads (excluded_threads em) tid then Some em
      else do {
        leader \<leftarrow> em_leader em;
        if leader then do {
          (new_conn, em1) \<leftarrow> ev_malloc em;
          tcp \<leftarrow> HASH_ADD (ev_lim E) (leader_tcp_map em1) new_conn (int_key fd) \<lparr>lt_vs = no_stamp\<rparr>;
          (em2, clt, entry) \<leftarrow> em_rsm_op E (em1\<lparr>leader_tcp_map := tcp\<rparr>) 0 None P_TCP_CONNECT (Some no_stamp);
          vs \<leftarrow> clt;
          Some (em2\<lparr>leader_tcp_map := hash_assign (leader_tcp_map em2) new_conn (\<lambda>_. \<lparr>lt_vs = vs\<rparr>)\<rparr>)
        } else do {
          retrieve_data \<leftarrow> get_record E em (cur_rec em);
          ret \<leftarrow> HASH_FIND (replica_tcp_map em) (vs_key (rr_clt_id retrieve_data));
          Some (em\<lparr>replica_tcp_map := hash_assign (replica_tcp_map em) (ue_ptr ret) (\<lambda>v. v\<lparr>s_p := fd, accepted := True\<rparr>)\<rparr>)
        }
      })"

text \<open>The C string in the first bytes of an address; one that fills the buffer is read past its end.\<close>

definition sa_string :: "u8 list \<Rightarrow> u8 list option" where
  "sa_string sa_data =
     (let s = takeWhile (\<lambda>b. b \<noteq> 0) (take 14 sa_data)
      in if length s < 14 then Some s else None)"

definition mgr_on_recvfrom :: "'d ev_env \<Rightarrow> u64 \<Rightarrow> nat \<Rightarrow> u8 list \<Rightarrow> u8 list option \<Rightarrow> 'd event_manager \<Rightarrow> 'd event_manager option" where
  "mgr_on_recvfrom E tid ret buf src_addr em =
     (if internal_threads (excluded_threads em) tid then Some em
      else do {
        leader \<leftarrow> em_leader em;
        if \<not> leader then Some em
        else do {
          sa_data \<leftarrow> src_addr;
          tmp \<leftarrow> sa_string sa_data;
          (case HASH_FIND (leader_udp_map em) tmp of
             None \<Rightarrow> do {
               (new_conn, em1) \<leftarrow> ev_malloc em;
               udp \<leftarrow> HASH_ADD (ev_lim E) (leader_udp_map em1) new_conn tmp \<lparr>lu_vs = no_stamp\<rparr>;
               (em2, clt, entry) \<leftarrow> em_rsm_op E (em1\<lparr>leader_udp_map := udp\<rparr>) 0 None P_UDP_CONNECT (Some no_stamp);
               (em3, clt3, entry) \<leftarrow> em_rsm_op E em2 ret (Some buf) P_SEND clt;
               Some em3
             }
           | Some s \<Rightarrow> do {
               (em1, clt, entry) \<leftarrow> em_rsm_op E em ret (Some buf) P_SEND (Some (lu_vs (ue_val s)));
               Some em1
             })
        }
      })"

definition mgr_on_close :: "'d ev_env \<Rightarrow> u64 \<Rightarrow> int \<Rightarrow> 'd event_manager \<Rightarrow> 'd event_manager option" where
  "mgr_on_close E tid fd em =
     (if internal_threads (excluded_threads em) tid then Some em
      else do {
        (out, rc) \<leftarrow> del_output (em_out em) fd;
        let em1 = em\<lparr>em_out := out\<rparr>;
        leader \<leftarrow> em_leader em1;
        if \<not> leader then Some em1
        else (case HASH_FIND (leader_tcp_map em1) (int_key fd) of
            None \<Rightarrow> Some em1
          | Some ret \<Rightarrow> do {
              let close_vs = lt_vs (ue_val ret);
              (em2, c2, entry) \<leftarrow> em_rsm_op E (em1\<lparr>leader_tcp_map := HASH_DEL (leader_tcp_map em1) ret\<rparr>) 0 None P_CLOSE (Some close_vs);
              (em3, c3, entry) \<leftarrow> em_rsm_op E em2 0 None P_NOP None;
              Some em3
            })
      })"

text \<open>
  The answers of the group to an output check, read after a pause; the leader's own hash is filled in.
  The identifier of the leader indexes the array.
\<close>

definition prepare_peer_array ::
    "out_state \<Rightarrow> int \<Rightarrow> mem \<Rightarrow> nat \<Rightarrow> u32 \<Rightarrow> int \<Rightarrow> nat \<Rightarrow> (out_state \<times> output_peer list) option" where
  "prepare_peer_array out fd m e ldr hash_index group_size =
     (let peer_array = map (\<lambda>i. \<lparr>p_leader_id = ldr, p_node_id = ack_node_id m e i, p_hash = ack_hash m e i,
            p_hash_index = hash_index, p_fd = - 1\<rparr>) [0..<group_size]
      in if group_size \<le> unat ldr then None
         else do {
           (out', h) \<leftarrow> get_output_hash out fd hash_index;
           Some (out', peer_array[unat ldr := (peer_array ! unat ldr)\<lparr>p_hash := h, p_fd := fd\<rparr>])
         })"

definition mgr_on_check :: "'d ev_env \<Rightarrow> u64 \<Rightarrow> int \<Rightarrow> u8 list \<Rightarrow> 'd event_manager \<Rightarrow> 'd event_manager option" where
  "mgr_on_check E tid fd buf em =
     (if internal_threads (excluded_threads em) tid \<or> check_output em = 0 then Some em
      else do {
        (out, rc) \<leftarrow> store_output (em_out em) fd buf;
        let em1 = em\<lparr>em_out := out\<rparr>;
        if rc \<le> 0 then Some em1
        else do {
          leader \<leftarrow> em_leader em1;
          if \<not> leader then Some em1
          else do {
            (out2, hash_index) \<leftarrow> determine_output (em_out em1) fd;
            let em2 = em1\<lparr>em_out := out2\<rparr>;
            if hash_index = - 1 then Some em2
            else do {
              socket_pair \<leftarrow> HASH_FIND (leader_tcp_map em2) (int_key fd);
              (em3, c, entry) \<leftarrow> em_rsm_op E em2 8 (Some (word_le 8 (word_of_int hash_index :: u64))) P_OUTPUT
                (Some (lt_vs (ue_val socket_pair)));
              (out3, peer_array) \<leftarrow> prepare_peer_array (em_out em3) fd (ev_settled E (em_srv em3)) entry (em_node_id em3) hash_index
                (unat (get_group_size (con_node em3)));
              Some (em3\<lparr>em_out := out3, em_dec := fst (do_decision (ev_opens E) (ev_creates E) (em_dec em3) (Some peer_array))\<rparr>)
            }
          }
        }
      })"

definition server_side_on_read :: "'d ev_env \<Rightarrow> u64 \<Rightarrow> u8 list \<Rightarrow> int \<Rightarrow> 'd event_manager \<Rightarrow> 'd event_manager option" where
  "server_side_on_read E tid buf fd em =
     (if internal_threads (excluded_threads em) tid then Some em
      else do {
        leader \<leftarrow> em_leader em;
        if leader \<and> ev_is_sock E fd \<and> em_rsm em \<noteq> 0 then do {
          socket_pair \<leftarrow> HASH_FIND (leader_tcp_map em) (int_key fd);
          (em1, c, entry) \<leftarrow> em_rsm_op E em (length buf) (Some buf) P_SEND (Some (lt_vs (ue_val socket_pair)));
          Some em1
        } else Some em
      })"

section \<open>Replaying on a replica\<close>

definition do_action_close :: "view_stamp \<Rightarrow> 'd event_manager \<Rightarrow> 'd event_manager" where
  "do_action_close clt_id em =
     (case HASH_FIND (replica_tcp_map em) (vs_key clt_id) of
        None \<Rightarrow> em
      | Some ret \<Rightarrow> em\<lparr>em_calls := em_calls em @ [CClose (p_s (ue_val ret))],
                       replica_tcp_map := HASH_DEL (replica_tcp_map em) ret\<rparr>)"

text \<open>The entry of a connection, created when it is not there.\<close>

definition find_or_add :: "'d ev_env \<Rightarrow> view_stamp \<Rightarrow> 'd event_manager \<Rightarrow> (nat \<times> 'd event_manager) option" where
  "find_or_add E clt_id em =
     (case HASH_FIND (replica_tcp_map em) (vs_key clt_id) of
        Some ret \<Rightarrow> Some (ue_ptr ret, em)
      | None \<Rightarrow> do {
          (p, em1) \<leftarrow> ev_malloc em;
          t \<leftarrow> HASH_ADD (ev_lim E) (replica_tcp_map em1) p (vs_key clt_id) \<lparr>p_s = 0, s_p = 0, accepted = False\<rparr>;
          Some (p, em1\<lparr>replica_tcp_map := t\<rparr>)
        })"

text \<open>A new connection to the server, whose descriptor is stored in the entry.\<close>

definition open_conn :: "'d ev_env \<Rightarrow> nat \<Rightarrow> 'd event_manager \<Rightarrow> 'd event_manager" where
  "open_conn E p em =
     (let fd = ev_socket E em
      in em\<lparr>em_calls := em_calls em @ [CConnect fd],
            replica_tcp_map := hash_assign (replica_tcp_map em) p (\<lambda>v. v\<lparr>p_s := fd\<rparr>)\<rparr>)"

definition is_accepted :: "view_stamp \<Rightarrow> 'd event_manager \<Rightarrow> bool" where
  "is_accepted clt_id em = (case HASH_FIND (replica_tcp_map em) (vs_key clt_id) of None \<Rightarrow> False | Some e \<Rightarrow> accepted (ue_val e))"

text \<open>The loop waits for the server's thread to run \<open>mgr_on_accept\<close>; without it, it never ends.\<close>

definition do_action_tcp_connect :: "'d ev_env \<Rightarrow> view_stamp \<Rightarrow> 'd event_manager \<Rightarrow> 'd event_manager option" where
  "do_action_tcp_connect E clt_id em = do {
     (p, em1) \<leftarrow> find_or_add E clt_id em;
     let em2 = open_conn E p em1;
     if is_accepted clt_id em2 then Some em2
     else do {
       (tid, fd) \<leftarrow> ev_accept E em2;
       em3 \<leftarrow> mgr_on_accept E tid fd em2;
       if is_accepted clt_id em3 then Some em3 else None
     }
   }"

definition do_action_udp_connect :: "'d ev_env \<Rightarrow> view_stamp \<Rightarrow> 'd event_manager \<Rightarrow> 'd event_manager option" where
  "do_action_udp_connect E clt_id em = do {
     (p, em1) \<leftarrow> find_or_add E clt_id em;
     Some (open_conn E p em1)
   }"

definition do_action_send :: "request_record \<Rightarrow> 'd event_manager \<Rightarrow> 'd event_manager" where
  "do_action_send retrieve_data em =
     (case HASH_FIND (replica_tcp_map em) (vs_key (rr_clt_id retrieve_data)) of
        None \<Rightarrow> em
      | Some ret \<Rightarrow> em\<lparr>em_calls := em_calls em @ [CWrite (p_s (ue_val ret)) (rr_data retrieve_data)]\<rparr>)"

text \<open>The descriptor of the server for a client; a client that is not in the table is a null pointer.\<close>

definition get_mapping_fd :: "view_stamp \<Rightarrow> 'd event_manager \<Rightarrow> int option" where
  "get_mapping_fd clt_id em = map_option (\<lambda>e. s_p (ue_val e)) (HASH_FIND (replica_tcp_map em) (vs_key clt_id))"

definition update_state :: "'d ev_env \<Rightarrow> u64 \<Rightarrow> 'd event_manager \<Rightarrow> 'd event_manager option" where
  "update_state E index em =
     (let em1 = em\<lparr>cur_rec := index\<rparr>
      in case get_record E em index of
           None \<Rightarrow> None
         | Some rd \<Rightarrow>
             if rr_type rd = P_TCP_CONNECT then do_action_tcp_connect E (rr_clt_id rd) em1
             else if rr_type rd = P_UDP_CONNECT then do_action_udp_connect E (rr_clt_id rd) em1
             else if rr_type rd = P_SEND then Some (do_action_send rd em1)
             else if rr_type rd = P_CLOSE then Some (do_action_close (rr_clt_id rd) em1)
             else Some em1)"

end
