(* ===== verification/Ev_Submit.thy ===== *)
theory Ev_Submit
  imports Ev_Mgr Cluster_Inv
begin

text \<open>
  What a submission of the event manager leaves in the database of the leader: under the key of the
  next stamp a record from which type, client and data of the request can be read back.
\<close>

section \<open>Records and their bytes\<close>

lemma get_bytes_mem: "a + n \<le> length bs \<Longrightarrow> get_bytes (bytes_mem bs) a n = take n (drop a bs)"
  by (auto simp: get_bytes_def bytes_mem_def intro!: nth_equalityI)

lemma get_bytes_part: "b + n \<le> k \<Longrightarrow> take n (drop b (get_bytes m a k)) = get_bytes m (a + b) n"
  by (auto simp: get_bytes_def add.assoc intro!: nth_equalityI)

lemma read_record:
  assumes "b + n \<le> k"
  shows "get_bytes (bytes_mem (get_bytes m a k)) b n = get_bytes m (a + b) n"
  using assms by (simp add: get_bytes_mem get_bytes_part)

lemma request_of_record:
  assumes "0 < unat (e_data_size m e)"
  shows "request_of_bytes (record_bytes m e) = \<lparr>rr_data_size = e_data_size m e, rr_type = e_type m e, rr_clt_id = e_clt_id m e,
     rr_data = get_bytes m (e + E_DATA) (unat (e_data_size m e) - 1)\<rparr>" "record_bytes m e \<noteq> []"
proof -
  let ?a = "e + E_DATA_SIZE" let ?k = "REQ_RECORD_SIZE m e - 1" let ?r = "bytes_mem (get_bytes m ?a ?k)"
  have k: "23 < ?k" "?k = 23 + unat (e_data_size m e)" using assms by (simp_all add: REQ_RECORD_SIZE_def)
  have s: "get_u64 ?r 0 = e_data_size m e" unfolding get_u64_def e_data_size_def using k by (subst read_record) simp_all
  have t: "get_u8 ?r 8 = e_type m e"
    using k by (simp add: get_u8_def bytes_mem_def e_type_def get_bytes_def layout_simps add.commute)
  have c: "get_vs ?r 12 = e_clt_id m e"
    unfolding get_vs_def e_clt_id_def get_u32_def using k by (simp add: read_record layout_simps ac_simps)
  have d: "get_bytes ?r RR_HEADER (unat (e_data_size m e) - 1) = get_bytes m (e + E_DATA) (unat (e_data_size m e) - 1)"
    using k by (subst read_record) (simp_all add: RR_HEADER_def layout_simps ac_simps)
  show "request_of_bytes (record_bytes m e) = \<lparr>rr_data_size = e_data_size m e, rr_type = e_type m e, rr_clt_id = e_clt_id m e,
     rr_data = get_bytes m (e + E_DATA) (unat (e_data_size m e) - 1)\<rparr>"
    unfolding request_of_bytes_def record_bytes_def Let_def s t c d ..
  show "record_bytes m e \<noteq> []" using k by (simp add: record_bytes_def get_bytes_def)
qed

section \<open>Submissions\<close>

lemma add_entry_ge: "OFF_ENTRIES \<le> log_add_new_entry m"
  by (simp add: log_add_new_entry_def)

lemma reserve_slot:
  assumes "leader_reserve cc sv ds ty clt = Some (cc', sv', s)"
  shows "cc' = cc\<lparr>highest_seen_vs := get_next_view_stamp cc\<rparr>" "s_next s = get_next_view_stamp cc" "s_record_no s = vstol (get_next_view_stamp cc)"
    "s_clt s = (if ty = P_TCP_CONNECT then Some (get_next_view_stamp cc) else clt)" "s_entry s + ENTRY_SIZE + ds + 1 \<le> REGION_SIZE"
    "e_data_size (srv_log sv') (s_entry s) = of_nat ds + 1" "ty = P_TCP_CONNECT \<Longrightarrow> clt \<noteq> None"
proof -
  let ?e = "log_add_new_entry (srv_log sv)"
  have f: "e_data_size (set_end (put_u64 m (?e + E_DATA_SIZE) w) v) ?e = w" for m w v
  proof -
    have "OFF_END + 8 \<le> ?e + E_DATA_SIZE" using add_entry_ge [of "srv_log sv"] by (simp add: layout_simps)
    then show ?thesis by (simp add: e_data_size_def set_end_def mem_simps)
  qed
  show "cc' = cc\<lparr>highest_seen_vs := get_next_view_stamp cc\<rparr>" "s_next s = get_next_view_stamp cc" "s_record_no s = vstol (get_next_view_stamp cc)"
    "s_clt s = (if ty = P_TCP_CONNECT then Some (get_next_view_stamp cc) else clt)" "s_entry s + ENTRY_SIZE + ds + 1 \<le> REGION_SIZE"
    "e_data_size (srv_log sv') (s_entry s) = of_nat ds + 1" "ty = P_TCP_CONNECT \<Longrightarrow> clt \<noteq> None"
    using assms by (auto simp: leader_reserve_def Let_def split_def f in_region_def get_next_view_stamp_def split: if_splits)
qed

lemma fill_client:
  assumes "leader_fill cc m s data ty = Some m'"
  shows "e_clt_id m' (s_entry s) = (if ty \<noteq> P_NOP then the (s_clt s) else no_stamp)" "ty \<noteq> P_NOP \<Longrightarrow> s_clt s \<noteq> None"
  using assms by (auto simp: leader_fill_def Let_def e_clt_id_def get_put_vs no_stamp_def split: option.splits if_splits)

text \<open>The request as a replica reads it.\<close>

definition request_rec :: "nat \<Rightarrow> u8 list option \<Rightarrow> u8 \<Rightarrow> view_stamp option \<Rightarrow> view_stamp \<Rightarrow> request_record" where
  "request_rec ds data ty clt nxt = \<lparr>rr_data_size = of_nat ds + 1, rr_type = ty,
     rr_clt_id = (if ty = P_TCP_CONNECT then nxt else if ty = P_NOP then no_stamp else the clt), rr_data = (case data of None \<Rightarrow> [] | Some bs \<Rightarrow> bs)\<rparr>"

lemma unat_data_size: "ds + 1 < 2 ^ 29 \<Longrightarrow> unat (of_nat ds + 1 :: u64) = Suc ds"
  by (simp add: unat_word_ariths unsigned_of_nat take_bit_nat_eq_self)

lemma filled_record:
  assumes r: "leader_reserve cc sv ds ty clt = Some (cc1, sv1, s)" and f: "leader_fill cc1 (srv_log sv1) s data ty = Some m1"
    and len: "length (case data of None \<Rightarrow> [] | Some bs \<Rightarrow> bs) = ds"
  shows "request_of_bytes (record_bytes m1 (s_entry s)) = request_rec ds data ty clt (get_next_view_stamp cc)"
    "record_bytes m1 (s_entry s) \<noteq> []"
proof -
  note rs = reserve_slot [OF r]
  have l: "\<And>bs. data = Some bs \<Longrightarrow> length bs = ds" using len by simp
  note ff = leader_fill_ok [OF f refl, of ds]
  have ds: "unat (e_data_size m1 (s_entry s)) = Suc ds"
    using ff(2) [OF l] rs(5,6) unat_data_size [of ds] by (simp add: layout_simps)
  have "get_bytes m1 (s_entry s + E_DATA) ds = (case data of None \<Rightarrow> [] | Some bs \<Rightarrow> bs)"
    using ff(7) [OF l] len by (cases data) (auto simp: get_bytes_def)
  then show "request_of_bytes (record_bytes m1 (s_entry s)) = request_rec ds data ty clt (get_next_view_stamp cc)"
    using ff(2,6) [OF l] rs(4,6) fill_client [OF f] ds
    by (subst request_of_record(1)) (auto simp: request_rec_def P_TCP_CONNECT_def P_NOP_def)
  show "record_bytes m1 (s_entry s) \<noteq> []" using ds by (intro request_of_record(2)) simp
qed

text \<open>A database in which every record can be stored.\<close>

definition live_db :: "'d bdb \<Rightarrow> 'd db option \<Rightarrow> bool" where
  "live_db B db_p \<longleftrightarrow> (\<forall>d k v. fst (b_put B d k v) = 0) \<and> (\<exists>p d. db_p = Some p \<and> bdb_ptr p = Some d)"

lemma live_store: "live_db B db_p \<Longrightarrow> fst (store_record B db_p k v) = 0 \<and> live_db B (snd (store_record B db_p k v))"
  by (auto simp: live_db_def store_record_def split: prod.split) (metis fst_conv)

lemma submit_record:
  assumes s: "leader_handle_submit_req B cc sv ds data ty clt views = Some (cc', sv', posts, e, ok)"
    and len: "length (case data of None \<Rightarrow> [] | Some bs \<Rightarrow> bs) = ds" and db: "berkeley_db B contents" "live_db B (db_ptr cc)"
  shows "\<exists>bs. bs \<noteq> [] \<and> request_of_bytes bs = request_rec ds data ty clt (get_next_view_stamp cc) \<and>
     db_view contents (db_ptr cc') = (db_view contents (db_ptr cc))(db_key (vstol (get_next_view_stamp cc)) \<mapsto> bs)"
    "highest_seen_vs cc' = get_next_view_stamp cc" "live_db B (db_ptr cc')" "cur_view cc' = cur_view cc" "cc_group_size cc' = cc_group_size cc"
    "cc_node_id cc' = cc_node_id cc"
proof -
  obtain cc1 sv1 sl m1 ret cc2 where r: "leader_reserve cc sv ds ty clt = Some (cc1, sv1, sl)" "leader_fill cc1 (srv_log sv1) sl data ty = Some m1"
      "leader_store B cc1 m1 sl = (ret, cc2)" and e: "cc' = (if ret = 0 then leader_commit cc2 else cc2)"
  proof -
    obtain cc1 sv1 sl m1 where a: "leader_reserve cc sv ds ty clt = Some (cc1, sv1, sl)" "leader_fill cc1 (srv_log sv1) sl data ty = Some m1"
      using s unfolding leader_handle_submit_req_def
      by (cases "leader_reserve cc sv ds ty clt") (auto simp: bind_eq_Some_conv simp del: Let_def)
    obtain ret cc2 where b: "leader_store B cc1 m1 sl = (ret, cc2)" by force
    have "cc' = (if ret = 0 then leader_commit cc2 else cc2)"
      using s a b by (auto simp: leader_handle_submit_req_def Let_def bind_eq_Some_conv split: if_splits)
    then show ?thesis using that a b by blast
  qed
  note rs = reserve_slot [OF r(1)] and fr = filled_record [OF r(1,2) len]
  have d1: "db_ptr cc1 = db_ptr cc" using rs(1) by simp
  let ?st = "store_record B (db_ptr cc) (db_key (vstol (get_next_view_stamp cc))) (record_bytes m1 (s_entry sl))"
  have c2: "cc2 = cc1\<lparr>db_ptr := snd ?st\<rparr>" "ret = fst ?st"
    using r(3) d1 rs(3) by (auto simp: leader_store_def split: prod.splits)
  note ls = live_store [OF db(2), of "db_key (vstol (get_next_view_stamp cc))" "record_bytes m1 (s_entry sl)"]
  have cc': "cc' = leader_commit cc2" using e c2(2) ls by simp
  have "db_view contents (db_ptr cc') = (db_view contents (db_ptr cc))(db_key (vstol (get_next_view_stamp cc)) \<mapsto> record_bytes m1 (s_entry sl))"
    using berkeley_db.store_view [OF db(1)] ls c2(1) cc' by (simp add: leader_commit_def)
  then show "\<exists>bs. bs \<noteq> [] \<and> request_of_bytes bs = request_rec ds data ty clt (get_next_view_stamp cc) \<and>
     db_view contents (db_ptr cc') = (db_view contents (db_ptr cc))(db_key (vstol (get_next_view_stamp cc)) \<mapsto> bs)" using fr by blast
  show "highest_seen_vs cc' = get_next_view_stamp cc" "live_db B (db_ptr cc')" "cur_view cc' = cur_view cc" "cc_group_size cc' = cc_group_size cc"
    "cc_node_id cc' = cc_node_id cc" using rs(1) c2(1) cc' ls by (simp_all add: leader_commit_def)
qed

end
