(* ===== verification/Spec_Hooks.thy ===== *)
theory Spec_Hooks
  imports Ev_Mgr
begin

text \<open>
  The library calls of the server that the preloaded library replaces. A hook makes the original
  call, whose result is its argument, and tells the event manager; \<open>None\<close> as the manager is the null
  pointer before the start of the process, and \<open>None\<close> as the result is a fault.
\<close>

type_synonym 'd ev_ptr = "'d event_manager option"

text \<open>The manager is told about a socket only.\<close>

definition hook_accept4 :: "'d ev_env \<Rightarrow> u64 \<Rightarrow> int \<Rightarrow> 'd ev_ptr \<Rightarrow> ('d ev_ptr \<times> int) option" where
  "hook_accept4 E tid ret ev_mgr =
     (case ev_mgr of
        None \<Rightarrow> Some (ev_mgr, ret)
      | Some em \<Rightarrow>
          if ret \<ge> 0 \<and> ev_is_sock E ret then map_option (\<lambda>em'. (Some em', ret)) (mgr_on_accept E tid ret em)
          else Some (ev_mgr, ret))"

definition hook_accept :: "'d ev_env \<Rightarrow> u64 \<Rightarrow> int \<Rightarrow> 'd ev_ptr \<Rightarrow> ('d ev_ptr \<times> int) option" where
  "hook_accept E tid ret ev_mgr =
     (case ev_mgr of
        None \<Rightarrow> Some (ev_mgr, ret)
      | Some em \<Rightarrow>
          if ret \<ge> 0 \<and> ev_is_sock E ret then map_option (\<lambda>em'. (Some em', ret)) (mgr_on_accept E tid ret em)
          else Some (ev_mgr, ret))"

text \<open>The manager is told before the descriptor is closed.\<close>

definition hook_close :: "'d ev_env \<Rightarrow> u64 \<Rightarrow> int \<Rightarrow> int \<Rightarrow> 'd ev_ptr \<Rightarrow> ('d ev_ptr \<times> int) option" where
  "hook_close E tid fildes ret ev_mgr =
     (case ev_mgr of
        None \<Rightarrow> Some (ev_mgr, ret)
      | Some em \<Rightarrow>
          if ev_is_sock E fildes then map_option (\<lambda>em'. (Some em', ret)) (mgr_on_close E tid fildes em)
          else Some (ev_mgr, ret))"

text \<open>The three calls that read; \<open>buf\<close> is the buffer after the call, of which \<open>ret\<close> bytes were read.\<close>

definition hook_recv :: "'d ev_env \<Rightarrow> u64 \<Rightarrow> int \<Rightarrow> u8 list \<Rightarrow> int \<Rightarrow> 'd ev_ptr \<Rightarrow> ('d ev_ptr \<times> int) option" where
  "hook_recv E tid sockfd buf ret ev_mgr =
     (case ev_mgr of
        None \<Rightarrow> Some (ev_mgr, ret)
      | Some em \<Rightarrow>
          if ret > 0 then map_option (\<lambda>em'. (Some em', ret)) (server_side_on_read E tid (take (nat ret) buf) sockfd em)
          else Some (ev_mgr, ret))"

definition hook_read :: "'d ev_env \<Rightarrow> u64 \<Rightarrow> int \<Rightarrow> u8 list \<Rightarrow> int \<Rightarrow> 'd ev_ptr \<Rightarrow> ('d ev_ptr \<times> int) option" where
  "hook_read E tid fd buf ret ev_mgr =
     (case ev_mgr of
        None \<Rightarrow> Some (ev_mgr, ret)
      | Some em \<Rightarrow>
          if ret > 0 then map_option (\<lambda>em'. (Some em', ret)) (server_side_on_read E tid (take (nat ret) buf) fd em)
          else Some (ev_mgr, ret))"

text \<open>
  Of a message only the first part is handed on, with the length of the whole: a message that
  was scattered over several buffers is read past the end of the first.
\<close>

definition hook_recvmsg :: "'d ev_env \<Rightarrow> u64 \<Rightarrow> int \<Rightarrow> u8 list list \<Rightarrow> int \<Rightarrow> 'd ev_ptr \<Rightarrow> ('d ev_ptr \<times> int) option" where
  "hook_recvmsg E tid sockfd msg_iov ret ev_mgr =
     (case ev_mgr of
        None \<Rightarrow> Some (ev_mgr, ret)
      | Some em \<Rightarrow>
          if ret > 0 then
            (case msg_iov of
               [] \<Rightarrow> None
             | iov # _ \<Rightarrow>
                 if nat ret \<le> length iov
                 then map_option (\<lambda>em'. (Some em', ret)) (server_side_on_read E tid (take (nat ret) iov) sockfd em)
                 else None)
          else Some (ev_mgr, ret))"

text \<open>
  No check of the manager and of the result: a missing manager and a failed call, whose length is
  then taken as an enormous one, are faults.
\<close>

definition hook_recvfrom ::
    "'d ev_env \<Rightarrow> u64 \<Rightarrow> u8 list \<Rightarrow> int \<Rightarrow> u8 list option \<Rightarrow> 'd ev_ptr \<Rightarrow> ('d ev_ptr \<times> int) option" where
  "hook_recvfrom E tid buf ret src_addr ev_mgr =
     (case ev_mgr of
        None \<Rightarrow> None
      | Some em \<Rightarrow>
          if ret < 0 \<and> \<not> internal_threads (excluded_threads em) tid \<and> em_leader em = Some True then None
          else map_option (\<lambda>em'. (Some em', ret)) (mgr_on_recvfrom E tid (nat ret) (take (nat ret) buf) src_addr em))"

definition hook_write :: "'d ev_env \<Rightarrow> u64 \<Rightarrow> int \<Rightarrow> u8 list \<Rightarrow> int \<Rightarrow> 'd ev_ptr \<Rightarrow> ('d ev_ptr \<times> int) option" where
  "hook_write E tid fd buf ret ev_mgr =
     (case ev_mgr of
        None \<Rightarrow> Some (ev_mgr, ret)
      | Some em \<Rightarrow>
          if ret > 0 \<and> ev_is_sock E fd then map_option (\<lambda>em'. (Some em', ret)) (mgr_on_check E tid fd (take (nat ret) buf) em)
          else Some (ev_mgr, ret))"

definition hook_send :: "'d ev_env \<Rightarrow> u64 \<Rightarrow> int \<Rightarrow> u8 list \<Rightarrow> int \<Rightarrow> 'd ev_ptr \<Rightarrow> ('d ev_ptr \<times> int) option" where
  "hook_send E tid fd buf ret ev_mgr =
     (case ev_mgr of
        None \<Rightarrow> Some (ev_mgr, ret)
      | Some em \<Rightarrow>
          if ret > 0 \<and> ev_is_sock E fd then map_option (\<lambda>em'. (Some em', ret)) (mgr_on_check E tid fd (take (nat ret) buf) em)
          else Some (ev_mgr, ret))"

text \<open>The manager is not told what is sent with \<open>sendmsg\<close>.\<close>

definition hook_sendmsg :: "int \<Rightarrow> 'd ev_ptr \<Rightarrow> ('d ev_ptr \<times> int) option" where
  "hook_sendmsg ret ev_mgr = Some (ev_mgr, ret)"

end
