(* ===== verification/Ev_Replay.thy ===== *)
theory Ev_Replay
  imports Ev_Submit Spec_Hooks
begin

text \<open>
  Replaying the requests of the leader on a replica gives the local server the same sessions: the
  same connections in the same order, with the same data and the same ends. Descriptors differ on
  the two machines, so a trace of calls is read with the connections numbered in the order in which
  they were opened.
\<close>

section \<open>Sessions\<close>

datatype sess_ev = SOpen nat | SData nat "u8 list" | SShut nat

type_synonym 'k sess = "('k \<Rightarrow> nat option) \<times> nat \<times> sess_ev list"

fun sess_step :: "'k sess \<Rightarrow> 'k conn_call \<Rightarrow> 'k sess" where
  "sess_step (o', n, t) (CConnect k) = (o'(k \<mapsto> n), Suc n, t @ [SOpen n])"
| "sess_step (o', n, t) (CWrite k bs) = (o', n, t @ (case o' k of None \<Rightarrow> [] | Some i \<Rightarrow> [SData i bs]))"
| "sess_step (o', n, t) (CClose k) = (o'(k := None), n, t @ (case o' k of None \<Rightarrow> [] | Some i \<Rightarrow> [SShut i]))"

definition sess :: "'k conn_call list \<Rightarrow> 'k sess" where
  "sess cs = foldl sess_step (Map.empty, 0, []) cs"

definition sessions :: "'k conn_call list \<Rightarrow> sess_ev list" where
  "sessions cs = snd (snd (sess cs))"

definition open_keys :: "'k conn_call list \<Rightarrow> 'k set" where
  "open_keys cs = dom (fst (sess cs))"

lemma sess_snoc [simp]: "sess (cs @ [c]) = sess_step (sess cs) c"
  by (simp add: sess_def)

lemma sess_step_dom: "dom (fst (sess_step s c)) \<subseteq> dom (fst s) \<union> (case c of CConnect k \<Rightarrow> {k} | _ \<Rightarrow> {})"
  by (cases s; cases c) auto

text \<open>Two traces that correspond, with the names of one mapped to the names of the other.\<close>

definition sess_rel :: "('a \<rightharpoonup> 'b) \<Rightarrow> 'a sess \<Rightarrow> 'b sess \<Rightarrow> bool" where
  "sess_rel \<rho> s1 s2 \<longleftrightarrow> snd s1 = snd s2 \<and> (\<forall>k k' j. \<rho> k = Some j \<longrightarrow> \<rho> k' = Some j \<longrightarrow> k = k') \<and>
     (\<forall>k. fst s1 k = (case \<rho> k of None \<Rightarrow> None | Some j \<Rightarrow> fst s2 j)) \<and> (\<forall>k j. \<rho> k = Some j \<longrightarrow> fst s2 j \<noteq> None)"

lemma sess_rel_empty: "sess_rel Map.empty (sess []) (sess [])"
  by (simp add: sess_rel_def sess_def)

lemma sess_rel_connect:
  assumes "sess_rel \<rho> s1 s2" and "j \<notin> dom (fst s2)"
  shows "sess_rel (\<rho>(k \<mapsto> j)) (sess_step s1 (CConnect k)) (sess_step s2 (CConnect j))"
proof -
  obtain o1 n t where s1: "s1 = (o1, n, t)" by (cases s1)
  then obtain o2 where s2: "s2 = (o2, n, t)" using assms(1) by (cases s2) (auto simp: sess_rel_def)
  have "\<rho> k' \<noteq> Some j" for k' using assms by (auto simp: sess_rel_def s2)
  then show ?thesis using assms(1) unfolding sess_rel_def s1 s2 by (auto split: option.split)
qed

lemma sess_rel_write:
  assumes "sess_rel \<rho> s1 s2" and "\<rho> k = Some j"
  shows "sess_rel \<rho> (sess_step s1 (CWrite k bs)) (sess_step s2 (CWrite j bs))"
  using assms by (cases s1; cases s2) (auto simp: sess_rel_def split: option.split)

lemma sess_rel_close:
  assumes "sess_rel \<rho> s1 s2" and "\<rho> k = Some j"
  shows "sess_rel (\<rho>(k := None)) (sess_step s1 (CClose k)) (sess_step s2 (CClose j))"
proof -
  obtain o1 n t where s1: "s1 = (o1, n, t)" by (cases s1)
  then obtain o2 where s2: "s2 = (o2, n, t)" using assms(1) by (cases s2) (auto simp: sess_rel_def)
  have "\<rho> k' = Some j \<Longrightarrow> k' = k" for k' using assms unfolding sess_rel_def by blast
  then show ?thesis using assms unfolding sess_rel_def s1 s2 by (auto split: option.split)
qed

lemma sess_rel_ignored:
  assumes "sess_rel \<rho> s1 s2" and "\<rho> k = None"
  shows "sess_step s1 (CWrite k bs) = s1" "sess_step s1 (CClose k) = s1"
proof -
  obtain o1 n t where s1: "s1 = (o1, n, t)" by (cases s1)
  have "o1 k = None" using assms by (simp add: sess_rel_def s1)
  then show "sess_step s1 (CWrite k bs) = s1" "sess_step s1 (CClose k) = s1" by (simp_all add: s1 fun_upd_idem)
qed

section \<open>Requests and records\<close>

definition req_call :: "request_record \<Rightarrow> view_stamp conn_call option" where
  "req_call rd =
     (if rr_type rd = P_TCP_CONNECT \<or> rr_type rd = P_UDP_CONNECT then Some (CConnect (rr_clt_id rd))
      else if rr_type rd = P_SEND then Some (CWrite (rr_clt_id rd) (rr_data rd))
      else if rr_type rd = P_CLOSE then Some (CClose (rr_clt_id rd)) else None)"

abbreviation req_sess :: "request_record list \<Rightarrow> view_stamp sess" where
  "req_sess rs \<equiv> sess (List.map_filter req_call rs)"

lemma req_sess_snoc: "req_sess (rs @ [r]) = (case req_call r of None \<Rightarrow> req_sess rs | Some c \<Rightarrow> sess_step (req_sess rs) c)"
  by (simp add: List.map_filter_def split: option.split)

lemma req_dom:
  assumes "dom (fst (req_sess rs)) \<subseteq> A" and "\<And>k. req_call r = Some (CConnect k) \<Longrightarrow> k \<in> A'" and "A \<subseteq> A'"
  shows "dom (fst (req_sess (rs @ [r]))) \<subseteq> A'"
proof (cases "req_call r")
  case None
  then show ?thesis using assms(1,3) by (simp add: req_sess_snoc)
next
  case (Some c)
  have "(case c of CConnect k \<Rightarrow> {k} | _ \<Rightarrow> {}) \<subseteq> A'" using assms(2) Some by (cases c) auto
  then have "dom (fst (sess_step (req_sess rs) c)) \<subseteq> A'" using sess_step_dom [of "req_sess rs" c] assms(1,3) by (meson Un_least order_trans)
  then show ?thesis by (simp add: req_sess_snoc Some)
qed

abbreviation rec_key :: "nat \<Rightarrow> u64" where
  "rec_key i \<equiv> vstol (stamp (Suc i))"

lemma word_le_inj: "LENGTH('a) \<le> 8 * n \<Longrightarrow> word_le n (a :: 'a::len word) = word_le n b \<longleftrightarrow> a = b"
  by (metis le_word_word_le)

lemma db_key_inj: "db_key a = db_key b \<longleftrightarrow> a = b"
  by (simp add: db_key_def word_le_inj)

lemma rec_key_inj:
  assumes "Suc i < 2 ^ 32" and "Suc j < 2 ^ 32"
  shows "rec_key i = rec_key j \<longleftrightarrow> i = j"
proof
  assume "rec_key i = rec_key j"
  then have "2 ^ 32 + Suc i = 2 ^ 32 + Suc j" by (metis unat_vstol_stamp assms)
  then show "i = j" by linarith
qed simp

lemma vs_key_inj: "vs_key a = vs_key b \<longleftrightarrow> a = b"
  by (auto simp: vs_key_def word_le_inj)

text \<open>Descriptors are non-negative.\<close>

definition valid_desc :: "int \<Rightarrow> bool" where
  "valid_desc fd \<longleftrightarrow> 0 \<le> fd \<and> fd < 2 ^ 31"

lemma int_key_inj: "valid_desc a \<Longrightarrow> valid_desc b \<Longrightarrow> int_key a = int_key b \<longleftrightarrow> a = b"
  by (auto simp: int_key_def word_le_inj valid_desc_def word_of_int_eq_iff take_bit_int_eq_self)

lemma get_record_view:
  assumes "berkeley_db (ev_bdb E) contents"
  shows "get_record E em i = (case db_view contents (em_db em) (db_key i) of None \<Rightarrow> None
     | Some bs \<Rightarrow> if bs = [] then None else Some (request_of_bytes bs))"
proof (cases "em_db em")
  case (Some p)
  show ?thesis
  proof (cases "bdb_ptr p")
    case (Some d)
    show ?thesis
    proof (cases "contents d (db_key i)")
      case None
      show ?thesis using \<open>em_db em = Some p\<close> Some None berkeley_db.get_none [OF assms None]
        by (simp add: get_record_def retrieve_record_def db_view_def split_def)
    next
      case c: (Some v)
      show ?thesis using \<open>em_db em = Some p\<close> Some c berkeley_db.get_some [OF assms c]
        by (simp add: get_record_def retrieve_record_def db_view_def)
    qed
  qed (simp add: Some get_record_def retrieve_record_def db_view_def)
qed (simp add: get_record_def retrieve_record_def db_view_def)

section \<open>The leader\<close>

text \<open>The requests of a leader are the records \<open>rs\<close> of its database.\<close>

definition recorded :: "'d ev_env \<Rightarrow> 'd event_manager \<Rightarrow> request_record list \<Rightarrow> bool" where
  "recorded E em rs \<longleftrightarrow> (\<exists>cc. consensus_comp (con_node em) = Some cc \<and> highest_seen_vs cc = stamp (length rs) \<and>
     live_db (ev_bdb E) (db_ptr cc) \<and> leader_id (cur_view cc) = em_node_id em) \<and>
     (\<forall>i<length rs. get_record E em (rec_key i) = Some (rs ! i))"

lemma recorded_cong:
  "con_node em' = con_node em \<Longrightarrow> em_node_id em' = em_node_id em \<Longrightarrow> recorded E em' rs = recorded E em rs"
  by (simp add: recorded_def get_record_def em_db_def)

lemma recorded_leader: "recorded E em rs \<Longrightarrow> em_leader em = Some True"
  by (auto simp: recorded_def em_leader_def get_leader_id_def)

lemma submit_recorded:
  assumes B: "berkeley_db (ev_bdb E) contents" and r: "recorded E em rs" and o: "em_rsm_op E em ds data ty clt = Some (em', clt', e)"
    and len: "length (case data of None \<Rightarrow> [] | Some bs \<Rightarrow> bs) = ds" and n: "Suc (length rs) < 2 ^ 32"
  shows "recorded E em' (rs @ [request_rec ds data ty clt (stamp (Suc (length rs)))])"
    "clt' = (if ty = P_TCP_CONNECT then Some (stamp (Suc (length rs))) else clt)"
    "\<exists>nd sv. em' = em\<lparr>con_node := nd, em_srv := sv\<rparr>"
proof -
  obtain cc where cc: "consensus_comp (con_node em) = Some cc" "highest_seen_vs cc = stamp (length rs)"
    "live_db (ev_bdb E) (db_ptr cc)" "leader_id (cur_view cc) = em_node_id em"
    and g: "\<forall>i<length rs. get_record E em (rec_key i) = Some (rs ! i)" using r by (auto simp: recorded_def)
  have nx: "get_next_view_stamp cc = stamp (Suc (length rs))" by (simp add: get_next_view_stamp_def cc(2) stamp_def add.commute)
  obtain cc' sv posts en ok where s: "leader_handle_submit_req (ev_bdb E) cc (em_srv em) ds data ty clt (ev_views E cc (em_srv em)) = Some (cc', sv, posts, en, ok)"
    and em': "em' = em\<lparr>con_node := (con_node em)\<lparr>consensus_comp := Some cc'\<rparr>, em_srv := sv\<rparr>"
    "clt' = (if ty = P_TCP_CONNECT then Some (get_next_view_stamp cc) else clt)"
    using o cc(1) by (auto simp: em_rsm_op_def rsm_op_def bind_eq_Some_conv)
  show "\<exists>nd sv. em' = em\<lparr>con_node := nd, em_srv := sv\<rparr>" using em'(1) by blast
  show "clt' = (if ty = P_TCP_CONNECT then Some (stamp (Suc (length rs))) else clt)" using em'(2) nx by simp
  note sr = submit_record [OF s len B cc(3), unfolded nx]
  obtain bs where bs: "bs \<noteq> []" "request_of_bytes bs = request_rec ds data ty clt (stamp (Suc (length rs)))"
    "db_view contents (db_ptr cc') = (db_view contents (db_ptr cc))(db_key (rec_key (length rs)) \<mapsto> bs)" using sr(1) by blast
  have db: "em_db em = db_ptr cc" "em_db em' = db_ptr cc'" by (simp_all add: em_db_def cc(1) em'(1))
  have v: "get_record E em' (rec_key i) = (if i = length rs then Some (request_rec ds data ty clt (stamp (Suc (length rs)))) else get_record E em (rec_key i))"
    if "i \<le> length rs" for i
    using rec_key_inj [of i "length rs"] that n bs unfolding get_record_view [OF B] db by (simp add: db_key_inj)
  show "recorded E em' (rs @ [request_rec ds data ty clt (stamp (Suc (length rs)))])"
    unfolding recorded_def using sr(2,3,4) cc(4) v g by (auto simp: em'(1) nth_append)
qed

text \<open>The connections of a leader, each under the stamp of its request.\<close>

definition lead_table :: "'d event_manager \<Rightarrow> int \<Rightarrow> view_stamp option" where
  "lead_table em fd = (if valid_desc fd then map_option lt_vs (ut.vals (leader_tcp_map em) (int_key fd)) else None)"

definition leader_inv :: "'d ev_env \<Rightarrow> u64 \<Rightarrow> 'd event_manager \<Rightarrow> request_record list \<Rightarrow> sock_call list \<Rightarrow> bool" where
  "leader_inv E tid em rs cs \<longleftrightarrow> recorded E em rs \<and> hash_inv (leader_tcp_map em) \<and>
     (\<forall>p\<in>ue_ptr ` set (elems (leader_tcp_map em)). p < em_brk em) \<and> \<not> internal_threads (excluded_threads em) tid \<and> em_rsm em \<noteq> 0 \<and>
     dom (fst (req_sess rs)) \<subseteq> stamp ` {..length rs} \<and> sess_rel (lead_table em) (sess cs) (req_sess rs)"

text \<open>
  The server's calls, each through its hook, one at a time: an accepted connection, data that was
  read, and the end of a connection.
\<close>

fun leader_step :: "'d ev_env \<Rightarrow> u64 \<Rightarrow> sock_call \<Rightarrow> 'd ev_ptr \<Rightarrow> 'd ev_ptr option" where
  "leader_step E tid (CConnect fd) p = map_option fst (hook_accept E tid fd p)"
| "leader_step E tid (CWrite fd bs) p = map_option fst (hook_read E tid fd bs (int (length bs)) p)"
| "leader_step E tid (CClose fd) p = map_option fst (hook_close E tid fd 0 p)"

fun leader_run :: "'d ev_env \<Rightarrow> u64 \<Rightarrow> sock_call list \<Rightarrow> 'd ev_ptr \<Rightarrow> 'd ev_ptr option" where
  "leader_run E tid [] p = Some p"
| "leader_run E tid (c # cs) p = Option.bind (leader_step E tid c p) (leader_run E tid cs)"

text \<open>Calls on sockets; a descriptor that is accepted is not in use, and data is not empty.\<close>

fun call_ok :: "'d ev_env \<Rightarrow> int set \<Rightarrow> sock_call \<Rightarrow> bool" where
  "call_ok E S (CConnect fd) \<longleftrightarrow> valid_desc fd \<and> ev_is_sock E fd \<and> fd \<notin> S"
| "call_ok E S (CWrite fd bs) \<longleftrightarrow> valid_desc fd \<and> ev_is_sock E fd \<and> bs \<noteq> []"
| "call_ok E S (CClose fd) \<longleftrightarrow> valid_desc fd \<and> ev_is_sock E fd"

lemma leader_step_calls:
  "call_ok E S (CConnect fd) \<Longrightarrow> leader_step E tid (CConnect fd) (Some em) = map_option Some (mgr_on_accept E tid fd em)"
  "call_ok E S (CWrite fd bs) \<Longrightarrow> leader_step E tid (CWrite fd bs) (Some em) = map_option Some (server_side_on_read E tid bs fd em)"
  "call_ok E S (CClose fd) \<Longrightarrow> leader_step E tid (CClose fd) (Some em) = map_option Some (mgr_on_close E tid fd em)"
  by (simp_all add: hook_accept_def hook_read_def hook_close_def valid_desc_def option.map_comp comp_def)

lemma request_call:
  "req_call (request_rec 0 None P_TCP_CONNECT clt nxt) = Some (CConnect nxt)"
  "req_call (request_rec ds (Some bs) P_SEND (Some vs) nxt) = Some (CWrite vs bs)"
  "req_call (request_rec 0 None P_CLOSE (Some vs) nxt) = Some (CClose vs)"
  "req_call (request_rec 0 None P_NOP clt nxt) = None"
  by (simp_all add: req_call_def request_rec_def P_TCP_CONNECT_def P_UDP_CONNECT_def P_SEND_def P_CLOSE_def P_NOP_def)

lemma leader_accept:
  assumes B: "berkeley_db (ev_bdb E) contents" and i: "leader_inv E tid em rs cs" and c: "call_ok E (open_keys cs) (CConnect fd)"
    and r: "mgr_on_accept E tid fd em = Some em'" and n: "Suc (length rs) < 2 ^ 32"
  shows "leader_inv E tid em' (rs @ [request_rec 0 None P_TCP_CONNECT (Some no_stamp) (stamp (Suc (length rs)))]) (cs @ [CConnect fd])"
proof -
  let ?s = "stamp (Suc (length rs))" and ?k = "int_key fd" and ?p = "em_brk em"
  let ?em1 = "em\<lparr>em_brk := em_brk em + 1, em_avail := em_avail em - 1\<rparr>"
  note i' = i [unfolded leader_inv_def]
  have rel: "sess_rel (lead_table em) (sess cs) (req_sess rs)" and hi: "hash_inv (leader_tcp_map em)" using i' by blast+
  obtain tcp em2 clt e vs where t: "HASH_ADD (ev_lim E) (leader_tcp_map em) ?p ?k \<lparr>lt_vs = no_stamp\<rparr> = Some tcp"
    and o: "em_rsm_op E (?em1\<lparr>leader_tcp_map := tcp\<rparr>) 0 None P_TCP_CONNECT (Some no_stamp) = Some (em2, clt, e)"
    and vs: "clt = Some vs" and em': "em' = em2\<lparr>leader_tcp_map := hash_assign (leader_tcp_map em2) ?p (\<lambda>_. \<lparr>lt_vs = vs\<rparr>)\<rparr>"
    using r i' recorded_leader [of E em rs] unfolding mgr_on_accept_def ev_malloc_def
    by (auto simp: bind_eq_Some_conv split: if_splits)
  have "recorded E (?em1\<lparr>leader_tcp_map := tcp\<rparr>) rs" using i' by (subst recorded_cong [of _ em]) simp_all
  note sub = submit_recorded [OF B this o _ n]
  have vs': "vs = ?s" using sub(2) vs by simp
  obtain nd sv where em2: "em2 = ?em1\<lparr>leader_tcp_map := tcp, con_node := nd, em_srv := sv\<rparr>" using sub(3) by auto
  have none: "lead_table em fd = None" using c rel by (auto simp: sess_rel_def open_keys_def split: option.splits)
  then have v0: "ut.vals (leader_tcp_map em) ?k = None" using c by (simp add: lead_table_def)
  have p: "?p \<notin> ue_ptr ` set (elems (leader_tcp_map em))" using i' by blast
  note va = ut.vals_add [OF hi v0 p t]
  obtain el where el: "HASH_FIND tcp ?k = Some el" "ue_ptr el = ?p"
    using ut.add [OF hi _ p t] v0 by (auto simp: ut.vals_def)
  note vb = ut.vals_assign [OF va(2) el(1), of "\<lambda>_. \<lparr>lt_vs = ?s\<rparr>", unfolded el(2)]
  have tab: "lead_table em' = (lead_table em)(fd \<mapsto> ?s)"
    using c int_key_inj [of _ fd] by (auto simp: fun_eq_iff lead_table_def em' em2 vs' vb(1) va(1))
  have fr: "?s \<notin> dom (fst (req_sess rs))"
  proof
    assume "?s \<in> dom (fst (req_sess rs))"
    then obtain j where "j \<le> length rs" "stamp j = ?s" using i' by (metis (no_types, lifting) atMost_iff imageE subsetD)
    then show False using stamp_eq_iff [of j "Suc (length rs)"] n by simp
  qed
  have rc: "req_sess (rs @ [request_rec 0 None P_TCP_CONNECT (Some no_stamp) ?s]) = sess_step (req_sess rs) (CConnect ?s)"
    by (simp add: req_sess_snoc request_call)
  have rec: "recorded E em' (rs @ [request_rec 0 None P_TCP_CONNECT (Some no_stamp) ?s])"
    using sub(1) by (subst recorded_cong [of _ em2]) (simp_all add: em')
  have pt: "\<forall>q\<in>ue_ptr ` set (elems (leader_tcp_map em')). q < em_brk em'" "hash_inv (leader_tcp_map em')"
    using va(3) vb(2,3) i' by (auto simp: em' em2 vs')
  have st: "dom (fst (req_sess (rs @ [request_rec 0 None P_TCP_CONNECT (Some no_stamp) ?s])))
      \<subseteq> stamp ` {..length (rs @ [request_rec 0 None P_TCP_CONNECT (Some no_stamp) ?s])}"
    using i' by (intro req_dom [of rs "stamp ` {..length rs}"]) (auto simp: request_call)
  show ?thesis unfolding leader_inv_def rc sess_snoc tab
    using sess_rel_connect [OF rel fr, of fd] rec i' pt st [unfolded rc] by (simp add: em' em2)
qed

lemma leader_read:
  assumes B: "berkeley_db (ev_bdb E) contents" and i: "leader_inv E tid em rs cs" and c: "valid_desc fd" "ev_is_sock E fd"
    and r: "server_side_on_read E tid bs fd em = Some em'" and n: "Suc (length rs) < 2 ^ 32"
  obtains vs where "lead_table em fd = Some vs"
    "leader_inv E tid em' (rs @ [request_rec (length bs) (Some bs) P_SEND (Some vs) (stamp (Suc (length rs)))]) (cs @ [CWrite fd bs])"
proof -
  note i' = i [unfolded leader_inv_def]
  have rel: "sess_rel (lead_table em) (sess cs) (req_sess rs)" using i' by blast
  obtain el clt e where f: "HASH_FIND (leader_tcp_map em) (int_key fd) = Some el"
    and o: "em_rsm_op E em (length bs) (Some bs) P_SEND (Some (lt_vs (ue_val el))) = Some (em', clt, e)"
    using r i' c(2) recorded_leader [of E em rs] unfolding server_side_on_read_def by (auto simp: bind_eq_Some_conv)
  let ?vs = "lt_vs (ue_val el)" let ?rs = "rs @ [request_rec (length bs) (Some bs) P_SEND (Some ?vs) (stamp (Suc (length rs)))]"
  have tab: "lead_table em fd = Some ?vs" using c f by (simp add: lead_table_def ut.vals_def)
  have "recorded E em rs" using i' by blast
  note sub = submit_recorded [OF B this o _ n]
  obtain nd sv where em': "em' = em\<lparr>con_node := nd, em_srv := sv\<rparr>" using sub(3) by auto
  have rc: "req_sess ?rs = sess_step (req_sess rs) (CWrite ?vs bs)" by (simp add: req_sess_snoc request_call)
  have st: "dom (fst (req_sess ?rs)) \<subseteq> stamp ` {..length ?rs}"
    using i' by (intro req_dom [of rs "stamp ` {..length rs}"]) (auto simp: request_call)
  have "lead_table em' = lead_table em" by (simp add: em' lead_table_def fun_eq_iff)
  then have "leader_inv E tid em' ?rs (cs @ [CWrite fd bs])" unfolding leader_inv_def rc sess_snoc
    using sess_rel_write [OF rel tab, of bs] sub(1) i' st [unfolded rc] by (simp add: em')
  then show ?thesis using that tab by blast
qed

lemma leader_close:
  assumes B: "berkeley_db (ev_bdb E) contents" and i: "leader_inv E tid em rs cs" and c: "valid_desc fd"
    and r: "mgr_on_close E tid fd em = Some em'" and n: "Suc (Suc (length rs)) < 2 ^ 32"
  shows "leader_inv E tid em' (case lead_table em fd of None \<Rightarrow> rs
     | Some vs \<Rightarrow> rs @ [request_rec 0 None P_CLOSE (Some vs) (stamp (Suc (length rs)))] @ [request_rec 0 None P_NOP None (stamp (Suc (Suc (length rs))))])
     (cs @ [CClose fd])"
proof -
  note i' = i [unfolded leader_inv_def]
  have rel: "sess_rel (lead_table em) (sess cs) (req_sess rs)" and hi: "hash_inv (leader_tcp_map em)" using i' by blast+
  obtain out rc0 where d: "del_output (em_out em) fd = Some (out, rc0)" using r i' by (auto simp: mgr_on_close_def bind_eq_Some_conv)
  let ?em1 = "em\<lparr>em_out := out\<rparr>"
  have r1: "recorded E ?em1 rs" using i' by (subst recorded_cong [of _ em]) simp_all
  show ?thesis
  proof (cases "HASH_FIND (leader_tcp_map em) (int_key fd)")
    case None
    then have e: "em' = ?em1" "lead_table em fd = None"
      using r i' d recorded_leader [OF r1] by (simp_all add: mgr_on_close_def lead_table_def ut.vals_def)
    have "lead_table em' = lead_table em" by (simp add: e(1) lead_table_def fun_eq_iff)
    then show ?thesis using i' r1 by (simp add: leader_inv_def e sess_rel_ignored [OF rel e(2)])
  next
    case (Some el)
    let ?vs = "lt_vs (ue_val el)" let ?t = "HASH_DEL (leader_tcp_map em) el"
    let ?rs = "rs @ [request_rec 0 None P_CLOSE (Some ?vs) (stamp (Suc (length rs)))]"
    obtain em2 c2 e2 c3 e3 where o: "em_rsm_op E (?em1\<lparr>leader_tcp_map := ?t\<rparr>) 0 None P_CLOSE (Some ?vs) = Some (em2, c2, e2)"
        "em_rsm_op E em2 0 None P_NOP None = Some (em', c3, e3)"
      using r i' d Some recorded_leader [OF r1] by (auto simp: mgr_on_close_def bind_eq_Some_conv)
    have "recorded E (?em1\<lparr>leader_tcp_map := ?t\<rparr>) rs" using i' by (subst recorded_cong [of _ em]) simp_all
    note sub = submit_recorded [OF B this o(1)]
    have r2: "recorded E em2 ?rs" using sub(1) n by simp
    note sub2 = submit_recorded [OF B r2 o(2)]
    obtain nd sv nd' sv' where em': "em' = ?em1\<lparr>leader_tcp_map := ?t, con_node := nd, em_srv := sv, con_node := nd', em_srv := sv'\<rparr>"
      using sub(3) sub2(3) n by auto
    have tab: "lead_table em fd = Some ?vs" using c Some by (simp add: lead_table_def ut.vals_def)
    note vd = ut.vals_del [OF hi Some]
    have tab': "lead_table em' = (lead_table em)(fd := None)"
      using c int_key_inj [of _ fd] by (auto simp: fun_eq_iff lead_table_def em' vd(1))
    let ?rs2 = "?rs @ [request_rec 0 None P_NOP None (stamp (Suc (length ?rs)))]"
    have rc: "req_sess ?rs2 = sess_step (req_sess rs) (CClose ?vs)" by (simp only: req_sess_snoc request_call option.case)
    have "dom (fst (req_sess ?rs)) \<subseteq> stamp ` {..length ?rs}"
      using i' by (intro req_dom [of rs "stamp ` {..length rs}"]) (auto simp: request_call)
    then have st: "dom (fst (req_sess ?rs2)) \<subseteq> stamp ` {..length ?rs2}"
      by (rule req_dom) (auto simp: request_call)
    have "recorded E em' ?rs2" using sub2(1) n by simp
    then have "leader_inv E tid em' ?rs2 (cs @ [CClose fd])" unfolding leader_inv_def rc sess_snoc tab'
      using sess_rel_close [OF rel tab] vd(2,3) i' st [unfolded rc] by (auto simp: em')
    then show ?thesis by (simp add: tab)
  qed
qed

fun calls_ok :: "'d ev_env \<Rightarrow> sock_call list \<Rightarrow> sock_call list \<Rightarrow> bool" where
  "calls_ok E cs [] \<longleftrightarrow> True"
| "calls_ok E cs (c # evs) \<longleftrightarrow> call_ok E (open_keys cs) c \<and> calls_ok E (cs @ [c]) evs"

lemma leader_step_inv:
  assumes B: "berkeley_db (ev_bdb E) contents" and i: "leader_inv E tid em rs cs" and c: "call_ok E (open_keys cs) c"
    and r: "leader_step E tid c (Some em) = Some p" and n: "length rs + 2 < 2 ^ 32"
  shows "\<exists>em' rs'. p = Some em' \<and> leader_inv E tid em' rs' (cs @ [c]) \<and> length rs' \<le> length rs + 2"
proof (cases c)
  case (CConnect fd)
  then obtain em' where e: "p = Some em'" "mgr_on_accept E tid fd em = Some em'" using r leader_step_calls(1) [OF c [unfolded CConnect], of tid em] by (auto simp del: leader_step.simps)
  show ?thesis using leader_accept [OF B i _ e(2)] c n CConnect e(1) by (intro exI [of _ em'] exI conjI) auto
next
  case (CWrite fd bs)
  then obtain em' where e: "p = Some em'" "server_side_on_read E tid bs fd em = Some em'"
    using r leader_step_calls(2) [OF c [unfolded CWrite], of tid em] by (auto simp del: leader_step.simps)
  obtain vs where "leader_inv E tid em' (rs @ [request_rec (length bs) (Some bs) P_SEND (Some vs) (stamp (Suc (length rs)))]) (cs @ [c])"
    using leader_read [OF B i _ _ e(2)] c n CWrite by auto
  then show ?thesis using e(1) by (intro exI [of _ em'] exI conjI) auto
next
  case (CClose fd)
  then obtain em' where e: "p = Some em'" "mgr_on_close E tid fd em = Some em'" using r leader_step_calls(3) [OF c [unfolded CClose], of tid em] by (auto simp del: leader_step.simps)
  have "leader_inv E tid em' (case lead_table em fd of None \<Rightarrow> rs
     | Some vs \<Rightarrow> rs @ [request_rec 0 None P_CLOSE (Some vs) (stamp (Suc (length rs)))] @ [request_rec 0 None P_NOP None (stamp (Suc (Suc (length rs))))]) (cs @ [c])"
    using leader_close [OF B i _ e(2)] c n CClose by simp
  then show ?thesis using e(1) by (intro exI [of _ em'] exI conjI) (auto split: option.split)
qed

lemma leader_run_inv:
  assumes B: "berkeley_db (ev_bdb E) contents"
  shows "leader_inv E tid em rs cs \<Longrightarrow> calls_ok E cs evs \<Longrightarrow> leader_run E tid evs (Some em) = Some p \<Longrightarrow> length rs + 2 * length evs < 2 ^ 32 \<Longrightarrow>
    \<exists>em' rs'. p = Some em' \<and> leader_inv E tid em' rs' (cs @ evs) \<and> length rs' \<le> length rs + 2 * length evs"
proof (induction evs arbitrary: em rs cs)
  case (Cons c evs)
  obtain q where q: "leader_step E tid c (Some em) = Some q" "leader_run E tid evs q = Some p" using Cons.prems(3) by (auto simp: bind_eq_Some_conv)
  obtain em1 rs1 where r: "q = Some em1" "leader_inv E tid em1 rs1 (cs @ [c])" "length rs1 \<le> length rs + 2"
    using leader_step_inv [OF B Cons.prems(1) _ q(1)] Cons.prems(2,4) by auto
  have "length rs1 + 2 * length evs < 2 ^ 32" using r(3) Cons.prems(4) by simp
  then obtain em' rs' where "p = Some em'" "leader_inv E tid em' rs' ((cs @ [c]) @ evs)" "length rs' \<le> length rs1 + 2 * length evs"
    using Cons.IH [OF r(2) _ q(2) [unfolded r(1)]] Cons.prems(2) by auto
  then show ?case using r(3) by (intro exI [of _ em'] exI [of _ rs']) simp
qed auto

section \<open>The replica\<close>

definition rep_table :: "'d event_manager \<Rightarrow> view_stamp \<Rightarrow> int option" where
  "rep_table em vs = map_option p_s (ut.vals (replica_tcp_map em) (vs_key vs))"

definition replica_inv :: "'d ev_env \<Rightarrow> 'd event_manager \<Rightarrow> request_record list \<Rightarrow> nat \<Rightarrow> bool" where
  "replica_inv E em rs n \<longleftrightarrow> em_leader em = Some False \<and> (\<forall>i<length rs. get_record E em (rec_key i) = Some (rs ! i)) \<and>
     hash_inv (replica_tcp_map em) \<and> (\<forall>p\<in>ue_ptr ` set (elems (replica_tcp_map em)). p < em_brk em) \<and>
     sess_rel (rep_table em) (req_sess (take n rs)) (sess (em_calls em))"

lemma replica_invI:
  assumes "replica_inv E em rs n" and "con_node em' = con_node em" and "em_node_id em' = em_node_id em"
    and "hash_inv (replica_tcp_map em')" and "\<forall>p\<in>ue_ptr ` set (elems (replica_tcp_map em')). p < em_brk em'"
    and "sess_rel (rep_table em') (req_sess (take n' rs)) (sess (em_calls em'))"
  shows "replica_inv E em' rs n'"
  using assms by (simp add: replica_inv_def em_leader_def get_record_def em_db_def)

text \<open>
  What a replica relies on: a new socket has a descriptor that is not in use, and the server accepts
  in a thread of its own.
\<close>

definition replica_env :: "'d ev_env \<Rightarrow> bool" where
  "replica_env E \<longleftrightarrow> (\<forall>em. ev_socket E em \<notin> open_keys (em_calls em)) \<and>
     (\<forall>em tid fd. ev_accept E em = Some (tid, fd) \<longrightarrow> \<not> internal_threads (excluded_threads em) tid)"

lemma find_or_add_ok:
  assumes h: "hash_inv (replica_tcp_map em)" "\<forall>p\<in>ue_ptr ` set (elems (replica_tcp_map em)). p < em_brk em"
    and f: "find_or_add E clt em = Some (p, em1)"
  obtains t b a el where "em1 = em\<lparr>replica_tcp_map := t, em_brk := b, em_avail := a\<rparr>" "hash_inv t" "\<forall>p\<in>ue_ptr ` set (elems t). p < b"
    "HASH_FIND t (vs_key clt) = Some el" "ue_ptr el = p" "\<forall>k. k \<noteq> vs_key clt \<longrightarrow> ut.vals t k = ut.vals (replica_tcp_map em) k"
proof (cases "HASH_FIND (replica_tcp_map em) (vs_key clt)")
  case (Some el)
  then show ?thesis using that [where t = "replica_tcp_map em" and b = "em_brk em" and a = "em_avail em" and el = el] h f by (simp add: find_or_add_def)
next
  case None
  obtain t where t: "HASH_ADD (ev_lim E) (replica_tcp_map em) (em_brk em) (vs_key clt) \<lparr>p_s = 0, s_p = 0, accepted = False\<rparr> = Some t"
    "p = em_brk em" "em1 = em\<lparr>replica_tcp_map := t, em_brk := em_brk em + 1, em_avail := em_avail em - 1\<rparr>"
    using f None by (auto simp: find_or_add_def ev_malloc_def bind_eq_Some_conv split: if_splits)
  have fr: "em_brk em \<notin> ue_ptr ` set (elems (replica_tcp_map em))" using h(2) by blast
  have v: "ut.vals (replica_tcp_map em) (vs_key clt) = None" using None by (simp add: ut.vals_def)
  note va = ut.vals_add [OF h(1) v fr t(1)]
  obtain el where el: "HASH_FIND t (vs_key clt) = Some el" "ue_ptr el = p" using ut.add [OF h(1) None fr t(1)] t(2) by auto
  have b: "\<forall>p\<in>ue_ptr ` set (elems t). p < em_brk em + 1" unfolding va(3) using h(2) by auto
  show ?thesis by (rule that [OF t(3) va(2) b el]) (simp add: va(1))
qed

lemma req_sess_Suc:
  "n < length rs \<Longrightarrow> req_sess (take (Suc n) rs) = (case req_call (rs ! n) of None \<Rightarrow> req_sess (take n rs) | Some c \<Rightarrow> sess_step (req_sess (take n rs)) c)"
  by (simp add: take_Suc_conv_app_nth req_sess_snoc)

text \<open>The state after the connection is opened.\<close>

lemma open_conn_inv:
  assumes E: "replica_env E" and i: "replica_inv E em rs n" and n: "n < length rs" "req_call (rs ! n) = Some (CConnect clt)"
    and f: "find_or_add E clt (em\<lparr>cur_rec := ix\<rparr>) = Some (p, em1)"
  shows "replica_inv E (open_conn E p em1) rs (Suc n)"
proof -
  note i' = i [unfolded replica_inv_def]
  obtain t b a el where em1: "em1 = em\<lparr>cur_rec := ix, replica_tcp_map := t, em_brk := b, em_avail := a\<rparr>" and t: "hash_inv t" "\<forall>p\<in>ue_ptr ` set (elems t). p < b"
    and el: "HASH_FIND t (vs_key clt) = Some el" "ue_ptr el = p" and v: "\<forall>k. k \<noteq> vs_key clt \<longrightarrow> ut.vals t k = ut.vals (replica_tcp_map em) k"
    by (rule find_or_add_ok [OF _ _ f]) (use i' in auto)
  let ?fd = "ev_socket E em1" let ?t' = "hash_assign t p (\<lambda>v. v\<lparr>p_s := ?fd\<rparr>)"
  note va = ut.vals_assign [OF t(1) el(1), of "\<lambda>v. v\<lparr>p_s := ?fd\<rparr>", unfolded el(2)]
  obtain em2 where em2: "open_conn E p em1 = em2" "replica_tcp_map em2 = ?t'" "em_calls em2 = em_calls em @ [CConnect ?fd]" "em_brk em2 = b"
    "con_node em2 = con_node em" "em_node_id em2 = em_node_id em"
    using that [of "open_conn E p em1"] by (simp add: open_conn_def em1 Let_def)
  have tab: "rep_table em2 = (rep_table em)(clt \<mapsto> ?fd)"
    using v va(1) by (auto simp: rep_table_def fun_eq_iff em2(2) vs_key_inj)
  have "?fd \<notin> open_keys (em_calls em1)" using E by (simp add: replica_env_def)
  then have fr: "?fd \<notin> dom (fst (sess (em_calls em)))" by (simp add: open_keys_def em1)
  have rel: "sess_rel (rep_table em) (req_sess (take n rs)) (sess (em_calls em))" using i' by blast
  have c: "req_sess (take (Suc n) rs) = sess_step (req_sess (take n rs)) (CConnect clt)" using n by (simp add: req_sess_Suc)
  show ?thesis unfolding em2(1)
    by (rule replica_invI [OF i em2(5,6)]) (use va(2,3) t(2) sess_rel_connect [OF rel fr, of clt] in \<open>simp_all add: em2(2,3,4) tab c\<close>)
qed

lemma accept_inv:
  assumes E: "replica_env E" and i: "replica_inv E em rs n" and r: "mgr_on_accept E tid fd em = Some em'" and t: "\<not> internal_threads (excluded_threads em) tid"
  shows "replica_inv E em' rs n"
proof -
  note i' = i [unfolded replica_inv_def]
  have l: "em_leader em = Some False" using i' by blast
  obtain rd where rd: "get_record E em (cur_rec em) = Some rd"
    using r t l by (cases "get_record E em (cur_rec em)") (simp_all add: mgr_on_accept_def)
  obtain el where g: "HASH_FIND (replica_tcp_map em) (vs_key (rr_clt_id rd)) = Some el"
    using r t l rd by (cases "HASH_FIND (replica_tcp_map em) (vs_key (rr_clt_id rd))") (simp_all add: mgr_on_accept_def)
  have em': "em' = em\<lparr>replica_tcp_map := hash_assign (replica_tcp_map em) (ue_ptr el) (\<lambda>v. v\<lparr>s_p := fd, accepted := True\<rparr>)\<rparr>"
    using r t l rd g by (simp add: mgr_on_accept_def)
  have hi: "hash_inv (replica_tcp_map em)" using i' by blast
  note va = ut.vals_assign [OF hi g, of "\<lambda>v. v\<lparr>s_p := fd, accepted := True\<rparr>"]
  have "rep_table em' = rep_table em" using va(1) g by (auto simp: rep_table_def fun_eq_iff em' ut.vals_def)
  then show ?thesis using i' va(2,3) by (intro replica_invI [OF i]) (simp_all add: em')
qed

lemma send_inv:
  assumes i: "replica_inv E em rs n" and n: "n < length rs" "rr_type (rs ! n) = P_SEND"
  shows "replica_inv E (do_action_send (rs ! n) (em\<lparr>cur_rec := ix\<rparr>)) rs (Suc n)"
proof -
  let ?k = "rr_clt_id (rs ! n)"
  note i' = i [unfolded replica_inv_def]
  have rel: "sess_rel (rep_table em) (req_sess (take n rs)) (sess (em_calls em))" using i' by blast
  have c: "req_sess (take (Suc n) rs) = sess_step (req_sess (take n rs)) (CWrite ?k (rr_data (rs ! n)))"
    using n by (simp add: req_sess_Suc req_call_def P_TCP_CONNECT_def P_UDP_CONNECT_def P_SEND_def)
  have t: "rep_table (do_action_send (rs ! n) (em\<lparr>cur_rec := ix\<rparr>)) = rep_table em"
    by (simp add: rep_table_def do_action_send_def fun_eq_iff split: option.split)
  have "sess_rel (rep_table em) (req_sess (take (Suc n) rs)) (sess (em_calls (do_action_send (rs ! n) (em\<lparr>cur_rec := ix\<rparr>))))"
  proof (cases "HASH_FIND (replica_tcp_map em) (vs_key ?k)")
    case None
    then show ?thesis using rel sess_rel_ignored(1) [OF rel, of ?k] by (simp add: c do_action_send_def rep_table_def ut.vals_def)
  next
    case (Some el)
    then have "rep_table em ?k = Some (p_s (ue_val el))" by (simp add: rep_table_def ut.vals_def)
    then show ?thesis using sess_rel_write [OF rel] Some by (simp add: c do_action_send_def)
  qed
  then show ?thesis using i' t
    by (intro replica_invI [OF i]) (simp_all add: do_action_send_def split: option.split)
qed

lemma close_inv:
  assumes i: "replica_inv E em rs n" and n: "n < length rs" "rr_type (rs ! n) = P_CLOSE"
  shows "replica_inv E (do_action_close (rr_clt_id (rs ! n)) (em\<lparr>cur_rec := ix\<rparr>)) rs (Suc n)"
proof -
  let ?k = "rr_clt_id (rs ! n)" let ?em' = "do_action_close ?k (em\<lparr>cur_rec := ix\<rparr>)"
  note i' = i [unfolded replica_inv_def]
  have rel: "sess_rel (rep_table em) (req_sess (take n rs)) (sess (em_calls em))" and hi: "hash_inv (replica_tcp_map em)" using i' by blast+
  have c: "req_sess (take (Suc n) rs) = sess_step (req_sess (take n rs)) (CClose ?k)"
    using n by (simp add: req_sess_Suc req_call_def P_TCP_CONNECT_def P_UDP_CONNECT_def P_SEND_def P_CLOSE_def)
  show ?thesis
  proof (cases "HASH_FIND (replica_tcp_map em) (vs_key ?k)")
    case None
    then have "?em' = em\<lparr>cur_rec := ix\<rparr>" "rep_table em ?k = None" "rep_table ?em' = rep_table em"
      by (simp_all add: do_action_close_def rep_table_def ut.vals_def fun_eq_iff)
    then show ?thesis using i' sess_rel_ignored(2) [OF rel, of ?k] by (intro replica_invI [OF i]) (simp_all add: c)
  next
    case (Some el)
    note vd = ut.vals_del [OF hi Some]
    have e: "?em' = em\<lparr>cur_rec := ix, em_calls := em_calls em @ [CClose (p_s (ue_val el))], replica_tcp_map := HASH_DEL (replica_tcp_map em) el\<rparr>"
      using Some by (simp add: do_action_close_def)
    have t: "rep_table em ?k = Some (p_s (ue_val el))" "rep_table ?em' = (rep_table em)(?k := None)"
      using Some vd(1) by (auto simp: e rep_table_def ut.vals_def fun_eq_iff vs_key_inj)
    show ?thesis using sess_rel_close [OF rel t(1)] vd(2,3) i' t(2) by (intro replica_invI [OF i]) (auto simp: c e)
  qed
qed

lemma update_state_inv:
  assumes E: "replica_env E" and i: "replica_inv E em rs n" and n: "n < length rs" and r: "update_state E (rec_key n) em = Some em'"
  shows "replica_inv E em' rs (Suc n)"
proof -
  note i' = i [unfolded replica_inv_def]
  let ?rd = "rs ! n" let ?em1 = "em\<lparr>cur_rec := rec_key n\<rparr>"
  have g: "get_record E em (rec_key n) = Some ?rd" using i' n by blast
  consider (tcp) "rr_type ?rd = P_TCP_CONNECT" | (udp) "rr_type ?rd = P_UDP_CONNECT" | (snd) "rr_type ?rd = P_SEND"
    | (cls) "rr_type ?rd = P_CLOSE" | (none) "rr_type ?rd \<notin> {P_TCP_CONNECT, P_UDP_CONNECT, P_SEND, P_CLOSE}" by blast
  then show ?thesis
  proof cases
    case tcp
    then have "do_action_tcp_connect E (rr_clt_id ?rd) ?em1 = Some em'" using r g by (simp add: update_state_def)
    then obtain p em1 where f: "find_or_add E (rr_clt_id ?rd) ?em1 = Some (p, em1)"
      and e: "em' = open_conn E p em1 \<or> (\<exists>tid fd. ev_accept E (open_conn E p em1) = Some (tid, fd) \<and> mgr_on_accept E tid fd (open_conn E p em1) = Some em')"
      by (cases "find_or_add E (rr_clt_id ?rd) ?em1") (auto simp: do_action_tcp_connect_def bind_eq_Some_conv Let_def split: if_splits)
    have "req_call ?rd = Some (CConnect (rr_clt_id ?rd))" using tcp by (simp add: req_call_def)
    note oc = open_conn_inv [OF E i n this f]
    show ?thesis using e oc accept_inv [OF E oc] E by (auto simp: replica_env_def)
  next
    case udp
    then obtain p em1 where f: "find_or_add E (rr_clt_id ?rd) ?em1 = Some (p, em1)" "em' = open_conn E p em1"
      using r g by (auto simp: update_state_def do_action_udp_connect_def bind_eq_Some_conv P_UDP_CONNECT_def P_TCP_CONNECT_def)
    have "req_call ?rd = Some (CConnect (rr_clt_id ?rd))" using udp by (simp add: req_call_def)
    then show ?thesis using open_conn_inv [OF E i n _ f(1)] f(2) by simp
  next
    case snd
    then have "em' = do_action_send ?rd ?em1"
      using r g by (simp add: update_state_def P_TCP_CONNECT_def P_UDP_CONNECT_def P_SEND_def)
    then show ?thesis using send_inv [OF i n snd] by simp
  next
    case cls
    then have "em' = do_action_close (rr_clt_id ?rd) ?em1"
      using r g by (simp add: update_state_def P_TCP_CONNECT_def P_UDP_CONNECT_def P_SEND_def P_CLOSE_def)
    then show ?thesis using close_inv [OF i n cls] by simp
  next
    case none
    then have e: "em' = ?em1" "req_call ?rd = None" using r g by (simp_all add: update_state_def req_call_def)
    have "rep_table em' = rep_table em" by (simp add: e rep_table_def fun_eq_iff)
    then show ?thesis using i' by (intro replica_invI [OF i]) (simp_all add: req_sess_Suc [OF n] e)
  qed
qed

text \<open>The requests up to a number, applied in order.\<close>

fun replay :: "'d ev_env \<Rightarrow> nat \<Rightarrow> 'd event_manager \<Rightarrow> 'd event_manager option" where
  "replay E 0 em = Some em"
| "replay E (Suc n) em = Option.bind (replay E n em) (update_state E (rec_key n))"

lemma replay_inv:
  assumes "replica_env E" and "replica_inv E em rs 0"
  shows "n \<le> length rs \<Longrightarrow> replay E n em = Some em' \<Longrightarrow> replica_inv E em' rs n"
proof (induction n arbitrary: em')
  case (Suc n)
  then obtain em1 where "replay E n em = Some em1" "update_state E (rec_key n) em1 = Some em'" by (auto simp: bind_eq_Some_conv)
  then show ?case using Suc update_state_inv [OF assms(1)] by auto
qed (use assms in auto)

section \<open>The same sessions\<close>

definition leader_start :: "'d ev_env \<Rightarrow> u64 \<Rightarrow> 'd event_manager \<Rightarrow> bool" where
  "leader_start E tid em \<longleftrightarrow> leader_tcp_map em = None \<and> \<not> internal_threads (excluded_threads em) tid \<and> em_rsm em \<noteq> 0 \<and>
     (\<exists>cc. consensus_comp (con_node em) = Some cc \<and> highest_seen_vs cc = stamp 0 \<and> live_db (ev_bdb E) (db_ptr cc) \<and>
        leader_id (cur_view cc) = em_node_id em)"

definition replica_start :: "'d event_manager \<Rightarrow> bool" where
  "replica_start em \<longleftrightarrow> replica_tcp_map em = None \<and> em_calls em = [] \<and> em_leader em = Some False"

definition requests :: "'d event_manager \<Rightarrow> nat" where
  "requests em = (case consensus_comp (con_node em) of None \<Rightarrow> 0 | Some cc \<Rightarrow> unat (req_id (highest_seen_vs cc)))"

lemma empty_tables:
  "hash_inv None" "elems None = []" "ut.vals None = Map.empty"
  by (simp_all add: hash_inv_def elems_def ut.vals_def HASH_FIND_def fun_eq_iff)

lemma leader_start_inv:
  assumes "leader_start E tid em"
  shows "leader_inv E tid em [] []"
proof -
  have "lead_table em = Map.empty" using assms by (simp add: lead_table_def leader_start_def empty_tables fun_eq_iff)
  then show ?thesis using assms sess_rel_empty
    by (auto simp: leader_inv_def leader_start_def recorded_def empty_tables List.map_filter_def sess_def)
qed

lemma replica_start_inv:
  assumes "replica_start em" and "\<forall>i<length rs. get_record E em (rec_key i) = Some (rs ! i)"
  shows "replica_inv E em rs 0"
proof -
  have "rep_table em = Map.empty" using assms by (simp add: rep_table_def replica_start_def empty_tables fun_eq_iff)
  then show ?thesis using assms sess_rel_empty
    by (simp add: replica_inv_def replica_start_def empty_tables List.map_filter_def)
qed

text \<open>
  C4: a replica that applies the requests of the leader gives its server the sessions the clients
  had with the leader's server: the same connections in the same order, each with the same data in the same order
  and the same end, whatever descriptors the two machines use. The leader starts with no request and
  a database that takes every record, and its server accepts on descriptors that are not in use; the
  replica has the records of the leader, and its new sockets have descriptors that are not in use.
\<close>

theorem replay_same_sessions:
  assumes "berkeley_db (ev_bdb E) contents" and "leader_start E tid lead" and "calls_ok E [] evs" and "2 * length evs < 2 ^ 32"
    and "leader_run E tid evs (Some lead) = Some (Some lead')"
    and "replica_env E'" and "replica_start rep" and "\<forall>i<requests lead'. get_record E' rep (rec_key i) = get_record E lead' (rec_key i)"
    and "replay E' (requests lead') rep = Some rep'"
  shows "sessions (em_calls rep') = sessions evs"
proof -
  obtain rs where rs: "leader_inv E tid lead' rs evs" "length rs \<le> 2 * length evs"
    using leader_run_inv [OF assms(1) leader_start_inv [OF assms(2)] assms(3,5)] assms(4) by auto
  have n: "requests lead' = length rs" using rs assms(4) by (auto simp: requests_def leader_inv_def recorded_def unat_req_stamp)
  have "replica_inv E' rep rs 0"
    using assms(7,8) rs(1) n by (intro replica_start_inv) (auto simp: leader_inv_def recorded_def)
  then have "replica_inv E' rep' rs (length rs)" using replay_inv [OF assms(6)] assms(9) n by auto
  then have "snd (req_sess rs) = snd (sess (em_calls rep'))" by (simp add: replica_inv_def sess_rel_def)
  moreover have "snd (sess evs) = snd (req_sess rs)" using rs(1) by (simp add: leader_inv_def sess_rel_def)
  ultimately show ?thesis by (simp add: sessions_def)
qed

section \<open>A run of a single server\<close>

text \<open>A group of one server, whose loop sees an empty log; its submissions return.\<close>

definition solo :: "(u8 list \<rightharpoonup> u8 list) event_manager \<Rightarrow> bool" where
  "solo em \<longleftrightarrow> (\<exists>cc. consensus_comp (con_node em) = Some cc \<and> cc_group_size cc = 1 \<and> cc_node_id cc = 0 \<and> view_id (highest_seen_vs cc) = 1 \<and>
     live_db map_bdb (db_ptr cc)) \<and> srv_log (em_srv em) = (\<lambda>_. 0) \<and> length (servers (em_srv em)) = 1"

definition ex_env :: "(u8 list \<rightharpoonup> u8 list) ev_env" where
  "ex_env = \<lparr>ev_bdb = map_bdb, ev_lim = 4096, ev_views = \<lambda>cc sv. [\<lambda>_. 0], ev_settled = srv_log, ev_is_sock = \<lambda>_. True,
     ev_socket = \<lambda>em. 1 + foldr (\<lambda>c n. case c of CConnect k \<Rightarrow> max k n | _ \<Rightarrow> n) (em_calls em) 0,
     ev_accept = \<lambda>em. if internal_threads (excluded_threads em) 7 then None else Some (7, 20), ev_opens = True, ev_creates = \<lambda>_ _. True\<rparr>"

lemma zero_scan: "view_id (s_next s) = 1 \<Longrightarrow> scan_acks (\<lambda>_. 0) s b = b"
proof -
  assume "view_id (s_next s) = 1"
  then have "\<lparr>view_id = 0, req_id = 0\<rparr> \<noteq> s_next s" by (metis view_stamp.select_convs(1) zero_neq_one)
  then have "scan_ack (\<lambda>_. 0) s i = id" for i
    by (auto simp: scan_ack_def fun_eq_iff ack_msg_vs_def get_vs_def get_u32_def get_bytes_def eval_nat_numeral)
  then show ?thesis by (simp add: scan_acks_def fold_id)
qed

lemma solo_quorum: "reached_quorum (node_bit 0) 1"
proof -
  have "bit (node_bit 0) 0" by (simp add: node_bit_def bit_simps)
  then have "0 \<in> set (filter (bit (node_bit 0)) [0..<64])" by simp
  then have "filter (bit (node_bit 0)) [0..<64] \<noteq> []" by (metis empty_iff list.set(1))
  then show ?thesis by (simp add: reached_quorum_def popcount_def Suc_le_eq)
qed

lemma marked_length: "length (fst (mark_sends idx i eps)) = length eps"
  by (induction eps arbitrary: i) (simp_all add: split_def)

lemma solo_op:
  assumes s: "solo em" and d: "ds \<le> 100" and c: "clt \<noteq> None \<or> ty = P_NOP"
  obtains em' c' e where "em_rsm_op ex_env em ds data ty clt = Some (em', c', e)" "solo em'"
proof -
  obtain cc where cc: "consensus_comp (con_node em) = Some cc" "cc_group_size cc = 1" "cc_node_id cc = 0" "view_id (highest_seen_vs cc) = 1"
    "live_db map_bdb (db_ptr cc)" using s by (auto simp: solo_def)
  let ?z = "\<lambda>_. 0 :: u8"
  have z: "srv_log (em_srv em) = ?z" "length (servers (em_srv em)) = 1" using s by (auto simp: solo_def)
  have e: "log_add_new_entry ?z = OFF_ENTRIES" by (simp add: log_add_new_entry_def is_log_empty_def log_end_def get_u64_def log_len_def get_bytes_def eval_nat_numeral)
  have nn: "\<not> (ty = P_TCP_CONNECT \<and> clt = None)" using c by (auto simp: P_TCP_CONNECT_def P_NOP_def)
  have "leader_reserve cc (em_srv em) ds ty clt \<noteq> None"
    using nn d z e cc(2) by (simp add: leader_reserve_def Let_def split_def in_region_def layout_simps MAX_SERVER_COUNT_def)
  then obtain cc1 sv1 sl where r: "leader_reserve cc (em_srv em) ds ty clt = Some (cc1, sv1, sl)" by (cases "leader_reserve cc (em_srv em) ds ty clt") auto
  note rs = reserve_slot [OF r]
  have "leader_fill cc1 (srv_log sv1) sl data ty \<noteq> None" using rs(4) c by (auto simp: leader_fill_def Let_def split: option.splits)
  then obtain m1 where f: "leader_fill cc1 (srv_log sv1) sl data ty = Some m1" by blast
  let ?cc2 = "cc1\<lparr>db_ptr := snd (store_record map_bdb (db_ptr cc1) (db_key (s_record_no sl)) (record_bytes m1 (s_entry sl)))\<rparr>"
  have db: "live_db map_bdb (db_ptr cc1)" using cc(5) rs(1) by simp
  note ls = live_store [OF db, of "db_key (s_record_no sl)" "record_bytes m1 (s_entry sl)"]
  have st: "leader_store map_bdb cc1 m1 sl = (0, ?cc2)" using ls by (auto simp: leader_store_def split: prod.splits)
  have rk: "recheck sl 1 [?z] (node_bit 0) = Some ?z" using rs(2) cc(4) solo_quorum by (simp add: zero_scan get_next_view_stamp_def)
  have mc: "may_commit ?cc2 ?z sl" by (simp add: may_commit_def e_msg_vs_def get_vs_def get_u32_def get_bytes_def eval_nat_numeral)
  have sv1: "length (servers sv1) = 1"
    using r z(2) cc(2) marked_length [of "srv_idx (em_srv em)" 0 "take 1 (servers (em_srv em))"]
    by (auto simp: leader_reserve_def Let_def split_def split: if_splits)
  have "\<exists>ps. leader_handle_submit_req map_bdb cc (em_srv em) ds data ty clt [?z] = Some (leader_commit ?cc2, sv1\<lparr>srv_log := ?z\<rparr>, ps, s_entry sl, True)"
    by (simp add: leader_handle_submit_req_def r f st rk mc Let_def cc(2,3) del: recheck.simps)
  then obtain ps where h: "leader_handle_submit_req map_bdb cc (em_srv em) ds data ty clt [?z]
      = Some (leader_commit ?cc2, sv1\<lparr>srv_log := ?z\<rparr>, ps, s_entry sl, True)" by blast
  obtain c' where o: "em_rsm_op ex_env em ds data ty clt =
      Some (em\<lparr>con_node := (con_node em)\<lparr>consensus_comp := Some (leader_commit ?cc2)\<rparr>, em_srv := sv1\<lparr>srv_log := ?z\<rparr>\<rparr>, c', s_entry sl)"
  proof -
    have "\<exists>c'. em_rsm_op ex_env em ds data ty clt =
      Some (em\<lparr>con_node := (con_node em)\<lparr>consensus_comp := Some (leader_commit ?cc2)\<rparr>, em_srv := sv1\<lparr>srv_log := ?z\<rparr>\<rparr>, c', s_entry sl)"
      by (simp add: em_rsm_op_def rsm_op_def ex_env_def cc(1) h)
    then show ?thesis using that by blast
  qed
  have "live_db map_bdb (db_ptr ?cc2)" using ls by simp
  then show ?thesis using that [OF o] cc rs(1) sv1 by (simp add: solo_def leader_commit_def get_next_view_stamp_def)
qed

lemma first_add:
  obtains t where "HASH_ADD (ev_lim ex_env) None p k v = Some t"
proof -
  have "HASH_TO_BKT (HASH_JEN k) 32 < 32" using bkt_less [of 5 "HASH_JEN k"] by simp
  then have "HASH_ADD (ev_lim ex_env) None p k v \<noteq> None"
    by (simp add: HASH_ADD_def HASH_MAKE_TABLE_def HASH_ADD_TO_BKT_def Let_def ex_env_def uthash_malloc_def HASH_INITIAL_NUM_BUCKETS_def
      HASH_INITIAL_NUM_BUCKETS_LOG2_def HASH_BKT_CAPACITY_THRESH_def empty_bucket_def word_le_nat_alt)
  then show ?thesis using that by blast
qed

lemma open_connected: "k \<in> open_keys cs \<Longrightarrow> CConnect k \<in> set cs"
proof (induction cs rule: rev_induct)
  case (snoc c cs)
  then show ?case using sess_step_dom [of "sess cs" c] by (cases c) (auto simp: open_keys_def)
qed (simp add: open_keys_def sess_def)

lemma socket_max: "CConnect k \<in> set cs \<Longrightarrow> k \<le> foldr (\<lambda>c n. case c of CConnect k \<Rightarrow> max k n | _ \<Rightarrow> n) cs (0 :: int)"
  by (induction cs) (auto split: conn_call.split)

lemma ex_replica_env: "replica_env ex_env"
  using open_connected socket_max by (fastforce simp: replica_env_def ex_env_def split: if_splits)

text \<open>The handlers return on such a server.\<close>

lemma accept_runs:
  assumes "solo em" and "em_leader em = Some True" and "\<not> internal_threads (excluded_threads em) tid" and "leader_tcp_map em = None" and "0 < em_avail em"
  obtains em' where "mgr_on_accept ex_env tid fd em = Some em'" "solo em'" "em_out em' = em_out em"
proof -
  let ?em1 = "em\<lparr>em_brk := em_brk em + 1, em_avail := em_avail em - 1\<rparr>"
  obtain t where t: "HASH_ADD (ev_lim ex_env) None (em_brk em) (int_key fd) \<lparr>lt_vs = no_stamp\<rparr> = Some t" by (rule first_add)
  have s1: "solo (?em1\<lparr>leader_tcp_map := t\<rparr>)" using assms(1) by (simp add: solo_def)
  obtain em2 c e where o: "em_rsm_op ex_env (?em1\<lparr>leader_tcp_map := t\<rparr>) 0 None P_TCP_CONNECT (Some no_stamp) = Some (em2, c, e)" "solo em2"
    by (rule solo_op [OF s1, of 0 "Some no_stamp" P_TCP_CONNECT None]) auto
  have c: "c \<noteq> None" "em_out em2 = em_out em" using o(1) by (auto simp: em_rsm_op_def rsm_op_def bind_eq_Some_conv)
  then obtain vs where vs: "c = Some vs" by blast
  let ?em3 = "em2\<lparr>leader_tcp_map := hash_assign (leader_tcp_map em2) (em_brk em) (\<lambda>_. \<lparr>lt_vs = vs\<rparr>)\<rparr>"
  have "mgr_on_accept ex_env tid fd em = Some ?em3" using assms(2-5) t o(1) vs by (simp add: mgr_on_accept_def ev_malloc_def)
  moreover have "solo ?em3" using o(2) by (simp add: solo_def)
  ultimately show ?thesis using that c(2) by simp
qed

lemma read_runs:
  assumes "solo em" and "em_leader em = Some True" and "\<not> internal_threads (excluded_threads em) tid" and "lead_table em fd \<noteq> None" and "length bs \<le> 100"
    and "em_rsm em \<noteq> 0"
  obtains em' where "server_side_on_read ex_env tid bs fd em = Some em'" "solo em'" "em_out em' = em_out em"
proof -
  obtain el where el: "HASH_FIND (leader_tcp_map em) (int_key fd) = Some el"
    using assms(4) by (auto simp: lead_table_def ut.vals_def split: if_splits)
  obtain em2 c e where o: "em_rsm_op ex_env em (length bs) (Some bs) P_SEND (Some (lt_vs (ue_val el))) = Some (em2, c, e)" "solo em2"
    by (rule solo_op [OF assms(1,5), of "Some (lt_vs (ue_val el))" P_SEND "Some bs"]) auto
  have "em_out em2 = em_out em" using o(1) by (auto simp: em_rsm_op_def bind_eq_Some_conv)
  moreover have "server_side_on_read ex_env tid bs fd em = Some em2" using assms(2,3,6) el o(1) by (simp add: server_side_on_read_def ex_env_def)
  ultimately show ?thesis using that o(2) by simp
qed

lemma close_runs:
  assumes "solo em" and "em_leader em = Some True" and "\<not> internal_threads (excluded_threads em) tid" and "lead_table em fd \<noteq> None"
    and "del_output (em_out em) fd = Some (out, rc)"
  obtains em' where "mgr_on_close ex_env tid fd em = Some em'"
proof -
  obtain el where el: "HASH_FIND (leader_tcp_map em) (int_key fd) = Some el"
    using assms(4) by (auto simp: lead_table_def ut.vals_def split: if_splits)
  let ?em1 = "em\<lparr>em_out := out, leader_tcp_map := HASH_DEL (leader_tcp_map em) el\<rparr>"
  have s1: "solo ?em1" using assms(1) by (simp add: solo_def)
  obtain em2 c e where o: "em_rsm_op ex_env ?em1 0 None P_CLOSE (Some (lt_vs (ue_val el))) = Some (em2, c, e)" "solo em2"
    by (rule solo_op [OF s1, of 0 "Some (lt_vs (ue_val el))" P_CLOSE None]) auto
  obtain em3 c3 e3 where o3: "em_rsm_op ex_env em2 0 None P_NOP None = Some (em3, c3, e3)" by (rule solo_op [OF o(2), of 0 None P_NOP None]) auto
  have "em_leader (em\<lparr>em_out := out\<rparr>) = Some True" using assms(2) by (simp add: em_leader_def)
  then show ?thesis using assms(3,5) el o(1) o3 by (intro that [of em3]) (simp add: mgr_on_close_def)
qed

lemma connect_runs:
  assumes i: "replica_inv ex_env em rs n" and n: "n < length rs" "rr_type (rs ! n) = P_TCP_CONNECT" and t: "replica_tcp_map em = None" "0 < em_avail em"
    and x: "\<not> internal_threads (excluded_threads em) 7"
  obtains em' where "update_state ex_env (rec_key n) em = Some em'"
proof -
  let ?rd = "rs ! n" let ?k = "rr_clt_id (rs ! n)" let ?em0 = "em\<lparr>cur_rec := rec_key n\<rparr>"
  have g: "get_record ex_env em (rec_key n) = Some ?rd" and l: "em_leader em = Some False" using i n(1) by (auto simp: replica_inv_def)
  obtain t where t': "HASH_ADD (ev_lim ex_env) None (em_brk em) (vs_key ?k) \<lparr>p_s = 0, s_p = 0, accepted = False\<rparr> = Some t" by (rule first_add)
  let ?em1 = "?em0\<lparr>em_brk := em_brk em + 1, em_avail := em_avail em - 1, replica_tcp_map := t\<rparr>"
  have f: "find_or_add ex_env ?k ?em0 = Some (em_brk em, ?em1)"
    using t t' by (simp add: find_or_add_def HASH_FIND_def ev_malloc_def)
  have c: "req_call ?rd = Some (CConnect ?k)" using n(2) by (simp add: req_call_def)
  note oc = open_conn_inv [OF ex_replica_env i n(1) c f]
  let ?em2 = "open_conn ex_env (em_brk em) ?em1"
  have e2: "cur_rec ?em2 = rec_key n" "con_node ?em2 = con_node em" "em_node_id ?em2 = em_node_id em" "excluded_threads ?em2 = excluded_threads em"
    by (simp_all add: open_conn_def Let_def)
  have g2: "get_record ex_env ?em2 (cur_rec ?em2) = Some ?rd" "em_leader ?em2 = Some False"
    using g l e2 by (simp_all add: get_record_def em_db_def em_leader_def)
  have "fst (req_sess (take (Suc n) rs)) ?k \<noteq> None" using n(1) by (cases "req_sess (take n rs)") (simp add: req_sess_Suc c)
  then have "rep_table ?em2 ?k \<noteq> None" using oc by (auto simp: replica_inv_def sess_rel_def split: option.splits)
  then obtain el where el: "HASH_FIND (replica_tcp_map ?em2) (vs_key ?k) = Some el" by (auto simp: rep_table_def ut.vals_def)
  let ?em3 = "?em2\<lparr>replica_tcp_map := hash_assign (replica_tcp_map ?em2) (ue_ptr el) (\<lambda>v. v\<lparr>s_p := 20, accepted := True\<rparr>)\<rparr>"
  have a: "mgr_on_accept ex_env 7 20 ?em2 = Some ?em3" using g2 el x e2(4) by (simp add: mgr_on_accept_def)
  have hi: "hash_inv (replica_tcp_map ?em2)" using oc by (simp add: replica_inv_def)
  have "ut.vals (replica_tcp_map ?em3) (vs_key ?k) = Some ((ue_val el)\<lparr>s_p := 20, accepted := True\<rparr>)"
    using ut.vals_assign(1) [OF hi el, of "\<lambda>v. v\<lparr>s_p := 20, accepted := True\<rparr>"] by simp
  then have "is_accepted ?k ?em3" by (auto simp: is_accepted_def ut.vals_def)
  then have "do_action_tcp_connect ex_env ?k ?em0 \<noteq> None" using f a x e2(4) by (simp add: do_action_tcp_connect_def Let_def ex_env_def)
  then show ?thesis using that g n(2) by (auto simp: update_state_def)
qed

lemma other_runs:
  assumes "replica_inv E em rs n" and "n < length rs" and "rr_type (rs ! n) \<in> {P_SEND, P_CLOSE, P_NOP}"
  obtains em' where "update_state E (rec_key n) em = Some em'"
  using assms that by (auto simp: replica_inv_def update_state_def P_TCP_CONNECT_def P_UDP_CONNECT_def P_SEND_def P_CLOSE_def P_NOP_def)

definition ex_lead :: "(u8 list \<rightharpoonup> u8 list) event_manager" where
  "ex_lead = \<lparr>em_node_id = 0, leader_tcp_map = None, replica_tcp_map = None, leader_udp_map = None, check_output = 0, em_rsm = 1, cur_rec = 0,
     excluded_threads = [], con_node = \<lparr>n_node_id = 0, n_stat_log = 0, n_sys_log = 0, my_address = 0, n_group_size = 1, n_db_name = ''db'', hb_on = 0,
       n_log_open = False, consensus_comp = Some (init_consensus_comp 0 (Some \<lparr>bdb_ptr = Some Map.empty\<rparr>) 1 \<lparr>cv_view_id = 1, leader_id = 0, cv_req_id = 0\<rparr>)\<rparr>,
     em_srv = \<lparr>srv_log = (\<lambda>_. 0), srv_idx = 0, srv_cid_size = 1, servers = [\<lparr>rmt_mr = \<lparr>raddr = 0, rkey = 0\<rparr>, qp = None, qpn = 0, send_count = 0, cq = None, rc_connected = False\<rparr>]\<rparr>,
     em_out = \<lparr>inner_output_mgr = MLive (\<lambda>_. None), oheap = \<lparr>cells = Map.empty, brk = 1, avail = 0, released = []\<rparr>\<rparr>,
     em_dec = \<lparr>fp = False, fp_lines = [], started = []\<rparr>, em_brk = 1, em_avail = 1, em_calls = []\<rparr>"

definition ex_rep :: "(u8 list \<rightharpoonup> u8 list) event_manager \<Rightarrow> (u8 list \<rightharpoonup> u8 list) event_manager" where
  "ex_rep lead = ex_lead\<lparr>em_node_id := em_node_id lead + 1, con_node := con_node lead\<rparr>"

definition ex_evs :: "sock_call list" where
  "ex_evs = [CConnect 5, CWrite 5 [7, 8], CClose 5]"

lemma ex_lead_start: "leader_start ex_env 7 ex_lead" "solo ex_lead"
  by (simp_all add: leader_start_def ex_lead_def ex_env_def solo_def internal_threads_def init_consensus_comp_def stamp_def live_db_def map_bdb_def)

lemma inv_runs:
  assumes "leader_inv E tid em rs cs"
  shows "em_leader em = Some True" "\<not> internal_threads (excluded_threads em) tid" "em_rsm em \<noteq> 0" "fd \<in> open_keys cs \<Longrightarrow> lead_table em fd \<noteq> None"
  using assms recorded_leader by (auto simp: leader_inv_def sess_rel_def open_keys_def split: option.splits)

lemma ex_lead_run:
  obtains lead' rs where "leader_run ex_env 7 ex_evs (Some ex_lead) = Some (Some lead')" and "leader_inv ex_env 7 lead' rs ex_evs"
    and "map rr_type rs = [P_TCP_CONNECT, P_SEND, P_CLOSE, P_NOP]"
proof -
  have B: "berkeley_db (ev_bdb ex_env) (\<lambda>d. d)" using mapdb.berkeley_db_axioms by (simp add: ex_env_def)
  note i0 = leader_start_inv [OF ex_lead_start(1)]
  have vd: "valid_desc 5" and k0: "\<And>fd. ev_is_sock ex_env fd" by (simp_all add: valid_desc_def ex_env_def)
  obtain em1 where m1: "mgr_on_accept ex_env 7 5 ex_lead = Some em1" "solo em1" "em_out em1 = em_out ex_lead"
    by (rule accept_runs [OF ex_lead_start(2) inv_runs(1,2) [OF i0], of 5]) (simp_all add: ex_lead_def)
  have i1: "leader_inv ex_env 7 em1 [request_rec 0 None P_TCP_CONNECT (Some no_stamp) (stamp 1)] [CConnect 5]"
    using leader_accept [OF B i0 _ m1(1)] vd k0 by (simp add: open_keys_def sess_def)
  have k: "5 \<in> open_keys [CConnect (5 :: int)]" "5 \<in> open_keys [CConnect (5 :: int), CWrite 5 [7, 8]]" by (simp_all add: open_keys_def sess_def)
  obtain em2 where m2: "server_side_on_read ex_env 7 [7, 8] 5 em1 = Some em2" "solo em2" "em_out em2 = em_out em1"
    by (rule read_runs [OF m1(2) inv_runs(1,2,4) [OF i1], of 5 "[7, 8]"]) (use k inv_runs(3) [OF i1] in simp_all)
  obtain vs where i2: "leader_inv ex_env 7 em2
    ([request_rec 0 None P_TCP_CONNECT (Some no_stamp) (stamp 1)] @ [request_rec 2 (Some [7, 8]) P_SEND (Some vs) (stamp 2)]) ([CConnect 5] @ [CWrite 5 [7, 8]])"
  proof -
    have k: "ev_is_sock ex_env 5" by (simp add: ex_env_def)
    show ?thesis by (rule leader_read [OF B i1 vd k m2(1)]) (simp, rule that, simp_all add: numeral_2_eq_2)
  qed
  have d: "del_output (em_out em2) 5 = Some (em_out em2, 0)"
    by (simp add: m2(3) m1(3) ex_lead_def del_output_def del_output_handler_by_fd_def get_output_mgr_def MAX_FD_SIZE_def)
  obtain em3 where m3: "mgr_on_close ex_env 7 5 em2 = Some em3"
    by (rule close_runs [OF m2(2) inv_runs(1,2,4) [OF i2], of 5, OF _ d]) (use k in simp_all)
  obtain vs2 where v2: "lead_table em2 5 = Some vs2" using inv_runs(4) [OF i2, of 5] k by auto
  note i3 = leader_close [OF B i2 vd m3, unfolded v2]
  have "\<exists>rs. leader_inv ex_env 7 em3 rs (([CConnect 5] @ [CWrite 5 [7, 8]]) @ [CClose 5]) \<and> map rr_type rs = [P_TCP_CONNECT, P_SEND, P_CLOSE, P_NOP]"
    by (intro exI conjI, rule i3) (simp_all add: request_rec_def)
  then obtain rs where "leader_inv ex_env 7 em3 rs ex_evs" "map rr_type rs = [P_TCP_CONNECT, P_SEND, P_CLOSE, P_NOP]" by (auto simp: ex_evs_def)
  then show ?thesis by (rule that [rotated]) (simp add: ex_evs_def hook_accept_def hook_read_def hook_close_def k0 m1(1) m2(1) m3)
qed

lemma replay_runs:
  assumes i: "replica_inv ex_env em rs 0" and t: "replica_tcp_map em = None" "0 < em_avail em" "\<not> internal_threads (excluded_threads em) 7"
    and ty: "map rr_type rs = [P_TCP_CONNECT, P_SEND, P_CLOSE, P_NOP]"
  obtains em' where "replay ex_env 4 em = Some em'"
proof -
  have n: "length rs = 4" using arg_cong [OF ty, of length] by simp
  have y: "rr_type (rs ! 0) = P_TCP_CONNECT" "rr_type (rs ! 1) \<in> {P_SEND, P_CLOSE, P_NOP}" "rr_type (rs ! 2) \<in> {P_SEND, P_CLOSE, P_NOP}"
    "rr_type (rs ! 3) \<in> {P_SEND, P_CLOSE, P_NOP}"
    using arg_cong [OF ty, of "\<lambda>l. l ! 0"] arg_cong [OF ty, of "\<lambda>l. l ! 1"] arg_cong [OF ty, of "\<lambda>l. l ! 2"] arg_cong [OF ty, of "\<lambda>l. l ! 3"] n
    by (simp_all add: eval_nat_numeral)
  note u = update_state_inv [OF ex_replica_env]
  obtain e1 where e1: "update_state ex_env (rec_key 0) em = Some e1" by (rule connect_runs [OF i _ y(1) t]) (simp_all add: n)
  have i1: "replica_inv ex_env e1 rs 1" using u [OF i _ e1] n by simp
  obtain e2 where e2: "update_state ex_env (rec_key 1) e1 = Some e2" by (rule other_runs [OF i1 _ y(2)]) (simp_all add: n)
  have i2: "replica_inv ex_env e2 rs 2" using u [OF i1 _ e2] n by (simp add: numeral_2_eq_2)
  obtain e3 where e3: "update_state ex_env (rec_key 2) e2 = Some e3" by (rule other_runs [OF i2 _ y(3)]) (simp_all add: n)
  have i3: "replica_inv ex_env e3 rs 3" using u [OF i2 _ e3] n by (simp add: numeral_3_eq_3 numeral_2_eq_2)
  obtain e4 where e4: "update_state ex_env (rec_key 3) e3 = Some e4" by (rule other_runs [OF i3 _ y(4)]) (simp_all add: n)
  have "replay ex_env (Suc (Suc (Suc (Suc 0)))) em = Some e4"
    using e1 e2 e3 e4 by (simp add: numeral_3_eq_3 numeral_2_eq_2)
  then show ?thesis using that by (simp add: eval_nat_numeral)
qed

theorem replay_same_sessions_witness:
  "\<exists>lead' rep'. leader_run ex_env 7 ex_evs (Some ex_lead) = Some (Some lead') \<and> replay ex_env (requests lead') (ex_rep lead') = Some rep' \<and>
     sessions (em_calls rep') = sessions ex_evs \<and> sessions ex_evs = [SOpen 0, SData 0 [7, 8], SShut 0]"
proof -
  have B: "berkeley_db (ev_bdb ex_env) (\<lambda>d. d)" using mapdb.berkeley_db_axioms by (simp add: ex_env_def)
  obtain lead' rs where l: "leader_run ex_env 7 ex_evs (Some ex_lead) = Some (Some lead')" and i: "leader_inv ex_env 7 lead' rs ex_evs"
    and ty: "map rr_type rs = [P_TCP_CONNECT, P_SEND, P_CLOSE, P_NOP]" by (rule ex_lead_run)
  have n: "length rs = 4" using arg_cong [OF ty, of length] by simp
  then have r: "requests lead' = 4" using i by (auto simp: requests_def leader_inv_def recorded_def)
  have st: "replica_start (ex_rep lead')"
    using i by (auto simp: replica_start_def ex_rep_def ex_lead_def em_leader_def get_leader_id_def leader_inv_def recorded_def)
  have g: "get_record ex_env (ex_rep lead') (rec_key k) = get_record ex_env lead' (rec_key k)" for k
    by (simp add: get_record_def em_db_def ex_rep_def)
  have "replica_inv ex_env (ex_rep lead') rs 0" using i g by (intro replica_start_inv [OF st]) (auto simp: leader_inv_def recorded_def)
  then obtain rep' where p: "replay ex_env 4 (ex_rep lead') = Some rep'"
    by (rule replay_runs [OF _ _ _ _ ty]) (simp_all add: ex_rep_def ex_lead_def internal_threads_def)
  have "sessions (em_calls rep') = sessions ex_evs"
    using replay_same_sessions [OF B ex_lead_start(1) _ _ l ex_replica_env st, of rep'] p g
    by (simp add: r ex_evs_def ex_env_def open_keys_def sess_def valid_desc_def)
  then show ?thesis using l p r by (intro exI [of _ lead'] exI [of _ rep']) (simp add: ex_evs_def sessions_def sess_def)
qed

end
