(* ===== verification/Ev_Udp.thy ===== *)
theory Ev_Udp
  imports Ev_Replay
begin

text \<open>
  Datagrams on the leader: each is recorded once, in order and with its data, but the stamp that is to
  tell the clients apart is never assigned, so that all of them are recorded under the client 0.
\<close>

section \<open>Runs\<close>

fun udp_run :: "'d ev_env \<Rightarrow> u64 \<Rightarrow> (u8 list \<times> u8 list) list \<Rightarrow> 'd event_manager \<Rightarrow> 'd event_manager option" where
  "udp_run E tid [] em = Some em"
| "udp_run E tid ((addr, buf) # ds) em = Option.bind (mgr_on_recvfrom E tid (length buf) buf (Some addr) em) (udp_run E tid ds)"

definition udp_inv :: "'d ev_env \<Rightarrow> u64 \<Rightarrow> 'd event_manager \<Rightarrow> request_record list \<Rightarrow> bool" where
  "udp_inv E tid em rs \<longleftrightarrow> recorded E em rs \<and> \<not> internal_threads (excluded_threads em) tid \<and> hash_inv (leader_udp_map em) \<and>
     (\<forall>p\<in>ue_ptr ` set (elems (leader_udp_map em)). p < em_brk em) \<and>
     (\<forall>k v. ut.vals (leader_udp_map em) k = Some v \<longrightarrow> lu_vs v = no_stamp) \<and> (\<forall>r\<in>set rs. rr_clt_id r = no_stamp)"

definition sent :: "request_record list \<Rightarrow> u8 list list" where
  "sent rs = map rr_data (filter (\<lambda>r. rr_type r = P_SEND) rs)"

lemma udp_request:
  "rr_clt_id (request_rec 0 None P_UDP_CONNECT (Some no_stamp) nxt) = no_stamp" "rr_type (request_rec ds data ty clt nxt) = ty"
  "rr_clt_id (request_rec ds (Some bs) P_SEND (Some no_stamp) nxt) = no_stamp" "rr_data (request_rec ds (Some bs) ty clt nxt) = bs"
  by (simp_all add: request_rec_def P_TCP_CONNECT_def P_UDP_CONNECT_def P_SEND_def)

lemma recvfrom_inv:
  assumes B: "berkeley_db (ev_bdb E) contents" and i: "udp_inv E tid em rs" and n: "length rs + 2 < 2 ^ 32"
    and r: "mgr_on_recvfrom E tid (length buf) buf (Some addr) em = Some em'"
  shows "\<exists>rs'. udp_inv E tid em' rs' \<and> sent rs' = sent rs @ [buf] \<and> length rs' \<le> length rs + 2"
proof -
  note i' = i [unfolded udp_inv_def]
  have rec: "recorded E em rs" and ni: "\<not> internal_threads (excluded_threads em) tid" using i' by blast+
  note l = recorded_leader [OF rec]
  obtain tmp where t: "sa_string addr = Some tmp" using r ni l by (cases "sa_string addr") (simp_all add: mgr_on_recvfrom_def)
  show ?thesis
  proof (cases "HASH_FIND (leader_udp_map em) tmp")
    case (Some s)
    have "ut.vals (leader_udp_map em) tmp = Some (ue_val s)" using Some by (simp add: ut.vals_def)
    then have z: "lu_vs (ue_val s) = no_stamp" using i' by blast
    obtain c e where o: "em_rsm_op E em (length buf) (Some buf) P_SEND (Some no_stamp) = Some (em', c, e)"
      using r ni l t Some z by (auto simp: mgr_on_recvfrom_def bind_eq_Some_conv)
    note sub = submit_recorded [OF B rec o]
    let ?rs = "rs @ [request_rec (length buf) (Some buf) P_SEND (Some no_stamp) (stamp (Suc (length rs)))]"
    obtain nd sv where "em' = em\<lparr>con_node := nd, em_srv := sv\<rparr>" using sub(3) n by auto
    then have "udp_inv E tid em' ?rs" using sub(1) n i' by (auto simp: udp_inv_def udp_request)
    then show ?thesis by (intro exI [of _ ?rs]) (simp add: sent_def udp_request)
  next
    case None
    let ?em1 = "em\<lparr>em_brk := em_brk em + 1, em_avail := em_avail em - 1\<rparr>"
    obtain u em2 c2 e2 c3 e3 where u: "HASH_ADD (ev_lim E) (leader_udp_map em) (em_brk em) tmp \<lparr>lu_vs = no_stamp\<rparr> = Some u"
      and o: "em_rsm_op E (?em1\<lparr>leader_udp_map := u\<rparr>) 0 None P_UDP_CONNECT (Some no_stamp) = Some (em2, c2, e2)"
        "em_rsm_op E em2 (length buf) (Some buf) P_SEND c2 = Some (em', c3, e3)"
      using r ni l t None by (auto simp: mgr_on_recvfrom_def ev_malloc_def bind_eq_Some_conv split: if_splits)
    have "recorded E (?em1\<lparr>leader_udp_map := u\<rparr>) rs" using rec by (subst recorded_cong [of _ em]) simp_all
    note sub = submit_recorded [OF B this o(1)]
    let ?rs = "rs @ [request_rec 0 None P_UDP_CONNECT (Some no_stamp) (stamp (Suc (length rs)))]"
    have s1: "recorded E em2 ?rs" "c2 = Some no_stamp" using sub(1,2) n by (auto simp: P_UDP_CONNECT_def P_TCP_CONNECT_def)
    note sub2 = submit_recorded [OF B s1(1) o(2) [unfolded s1(2)]]
    let ?rs2 = "?rs @ [request_rec (length buf) (Some buf) P_SEND (Some no_stamp) (stamp (Suc (length ?rs)))]"
    obtain nd sv nd' sv' where em': "em' = ?em1\<lparr>leader_udp_map := u, con_node := nd, em_srv := sv, con_node := nd', em_srv := sv'\<rparr>"
      using sub(3) sub2(3) n by auto
    have p: "em_brk em \<notin> ue_ptr ` set (elems (leader_udp_map em))" and h: "hash_inv (leader_udp_map em)" using i' by blast+
    have v: "ut.vals (leader_udp_map em) tmp = None" using None by (simp add: ut.vals_def)
    note va = ut.vals_add [OF h v p u]
    have "recorded E em' ?rs2" using sub2(1) n by simp
    then have "udp_inv E tid em' ?rs2" using va i' by (auto simp: udp_inv_def udp_request em')
    then show ?thesis by (intro exI [of _ ?rs2]) (simp add: sent_def udp_request P_UDP_CONNECT_def P_SEND_def)
  qed
qed

lemma udp_run_inv:
  assumes B: "berkeley_db (ev_bdb E) contents"
  shows "udp_inv E tid em rs \<Longrightarrow> udp_run E tid ds em = Some em' \<Longrightarrow> length rs + 2 * length ds < 2 ^ 32 \<Longrightarrow>
    \<exists>rs'. udp_inv E tid em' rs' \<and> sent rs' = sent rs @ map snd ds"
proof (induction ds arbitrary: em rs)
  case (Cons d ds)
  obtain addr buf where d: "d = (addr, buf)" by (cases d)
  obtain em1 where e: "mgr_on_recvfrom E tid (length buf) buf (Some addr) em = Some em1" "udp_run E tid ds em1 = Some em'"
    using Cons.prems(2) d by (auto simp: bind_eq_Some_conv)
  obtain rs1 where r: "udp_inv E tid em1 rs1" "sent rs1 = sent rs @ [buf]" "length rs1 \<le> length rs + 2"
    using recvfrom_inv [OF B Cons.prems(1) _ e(1)] Cons.prems(3) by auto
  have "length rs1 + 2 * length ds < 2 ^ 32" using r(3) Cons.prems(3) by simp
  then obtain rs' where "udp_inv E tid em' rs'" "sent rs' = sent rs1 @ map snd ds" using Cons.IH [OF r(1) e(2)] by blast
  then show ?case using r(2) d by auto
qed auto

section \<open>Every datagram under one client\<close>

text \<open>
  C18: whatever clients send datagrams to the leader, every datagram is recorded exactly once, in the
  order of arrival and with its data, and every record carries the client 0: the request of
  type \<open>P_UDP_CONNECT\<close> does not assign the stamp of the connection, so that a replica cannot tell the
  clients apart.
\<close>

theorem udp_clients_share:
  assumes "berkeley_db (ev_bdb E) contents" and "recorded E em []" and "\<not> internal_threads (excluded_threads em) tid" and "leader_udp_map em = None"
    and "udp_run E tid ds em = Some em'" and "2 * length ds < 2 ^ 32"
  shows "\<exists>rs. recorded E em' rs \<and> sent rs = map snd ds \<and> (\<forall>r\<in>set rs. rr_clt_id r = no_stamp)"
proof -
  have "udp_inv E tid em []" using assms(2-4) by (simp add: udp_inv_def empty_tables)
  note h = udp_run_inv [OF assms(1) this assms(5)]
  obtain rs where "udp_inv E tid em' rs" "sent rs = sent [] @ map snd ds" using h assms(6) by auto
  then show ?thesis by (auto simp: udp_inv_def sent_def)
qed

theorem udp_clients_share_witness:
  "\<exists>em' rs. udp_run ex_env 7 [([9, 9, 0], [1, 2, 3])] ex_lead = Some em' \<and> recorded ex_env em' rs \<and> sent rs = [[1, 2, 3]] \<and>
     (\<forall>r\<in>set rs. rr_clt_id r = no_stamp)"
proof -
  have B: "berkeley_db (ev_bdb ex_env) (\<lambda>d. d)" using mapdb.berkeley_db_axioms by (simp add: ex_env_def)
  note i = leader_start_inv [OF ex_lead_start(1), unfolded leader_inv_def]
  have rec: "recorded ex_env ex_lead []" and ni: "\<not> internal_threads (excluded_threads ex_lead) 7" using i by blast+
  have u: "leader_udp_map ex_lead = None" "em_avail ex_lead = 1" by (simp_all add: ex_lead_def)
  obtain t where t: "HASH_ADD (ev_lim ex_env) None (em_brk ex_lead) [9, 9] \<lparr>lu_vs = no_stamp\<rparr> = Some t" by (rule first_add)
  let ?em1 = "ex_lead\<lparr>em_brk := em_brk ex_lead + 1, em_avail := 0, leader_udp_map := t\<rparr>"
  have s1: "solo ?em1" using ex_lead_start(2) by (simp add: solo_def)
  obtain em2 c e where o: "em_rsm_op ex_env ?em1 0 None P_UDP_CONNECT (Some no_stamp) = Some (em2, c, e)" "solo em2"
    by (rule solo_op [OF s1, of 0 "Some no_stamp" P_UDP_CONNECT None]) auto
  have c: "c \<noteq> None" using o(1) by (auto simp: em_rsm_op_def rsm_op_def bind_eq_Some_conv)
  obtain em3 c3 e3 where o3: "em_rsm_op ex_env em2 3 (Some [1, 2, 3]) P_SEND c = Some (em3, c3, e3)"
    by (rule solo_op [OF o(2), of 3 c P_SEND "Some [1, 2, 3]"]) (use c in auto)
  have "udp_run ex_env 7 [([9, 9, 0], [1, 2, 3])] ex_lead = Some em3"
    using ni recorded_leader [OF rec] t o(1) o3 [unfolded numeral_3_eq_3] by (simp add: mgr_on_recvfrom_def sa_string_def Let_def u HASH_FIND_def ev_malloc_def)
  then show ?thesis using udp_clients_share [OF B rec ni u(1), of "[([9, 9, 0], [1, 2, 3])]" em3] by auto
qed

end
