(* ===== verification/Ev_Init.thy ===== *)
theory Ev_Init
  imports Ev_Replay
begin

text \<open>
  The start of the event manager: the reader of its part of the configuration in
  \<open>config-comp/config-mgr.c\<close>, \<open>mgr_init\<close> and \<open>mgr_on_process_init\<close> of \<open>ev_mgr.c\<close>, and the hooks that call
  them when the server starts and when it forks. An outer \<open>None\<close> is a fault, an inner one the null
  pointer.
\<close>

section \<open>Configuration\<close>

record mgr_settings =
  ms_rsm :: u32
  ms_check_output :: u32
  ts_log :: u32
  ms_sys_log :: u32
  ms_stat_log :: u32
  req_log :: u32
  sin_port :: u16
  sin_addr :: u32
  ms_db_name :: string

definition no_settings :: mgr_settings where
  "no_settings = \<lparr>ms_rsm = 0, ms_check_output = 0, ts_log = 0, ms_sys_log = 0, ms_stat_log = 0, req_log = 0, sin_port = 0,
     sin_addr = 0, ms_db_name = []\<rparr>"

definition htons :: "u16 \<Rightarrow> u16" where
  "htons w = push_bit 8 w OR drop_bit 8 w"

text \<open>The fields that were read before an error stay set; the manager is freed then.\<close>

definition mgr_read_config ::
    "('c, 's) libconfig \<Rightarrow> start_env \<Rightarrow> u32 \<Rightarrow> mgr_settings \<Rightarrow> string \<Rightarrow> mgr_settings \<times> int" where
  "mgr_read_config lc se node_id ms config_path =
     (case config_read_file lc config_path of None \<Rightarrow> (ms, - 1) | Some config_file \<Rightarrow>
      case config_lookup_int lc config_file ''group_size'' of None \<Rightarrow> (ms, - 1) | Some group_size \<Rightarrow>
      if group_size \<le> node_id then (ms, - 1) else
      let ms = (case config_lookup lc config_file ''mgr_global_config'' of None \<Rightarrow> ms | Some g \<Rightarrow>
            ms\<lparr>ms_rsm := setting_or (ms_rsm ms) (config_setting_lookup_int lc g ''rsm''),
               ms_check_output := setting_or (ms_check_output ms) (config_setting_lookup_int lc g ''check_output'')\<rparr>) in
      case config_lookup lc config_file ''mgr_config'' of None \<Rightarrow> (ms, - 1) | Some mgr_config \<Rightarrow>
      case config_setting_get_elem lc mgr_config node_id of None \<Rightarrow> (ms, - 1) | Some mgr_ele \<Rightarrow>
      let ms = ms\<lparr>ts_log := setting_or (ts_log ms) (config_setting_lookup_int lc mgr_ele ''time_stamp_log''),
                  ms_sys_log := setting_or (ms_sys_log ms) (config_setting_lookup_int lc mgr_ele ''sys_log''),
                  ms_stat_log := setting_or (ms_stat_log ms) (config_setting_lookup_int lc mgr_ele ''stat_log''),
                  req_log := setting_or (req_log ms) (config_setting_lookup_int lc mgr_ele ''req_log'')\<rparr> in
      case config_setting_lookup_string lc mgr_ele ''ip_address'' of None \<Rightarrow> (ms, - 1) | Some peer_ipaddr \<Rightarrow>
      case config_setting_lookup_int lc mgr_ele ''port'' of None \<Rightarrow> (ms, - 1) | Some peer_port \<Rightarrow>
      let ms = ms\<lparr>sin_port := htons (ucast peer_port),
                  sin_addr := setting_or (sin_addr ms) (inet_pton se peer_ipaddr)\<rparr> in
      case config_setting_lookup_string lc mgr_ele ''db_name'' of None \<Rightarrow> (ms, - 1) | Some db_name \<Rightarrow>
      if \<not> se_name se then (ms, - 1) else (ms\<lparr>ms_db_name := db_name\<rparr>, 0))"

section \<open>Starting the manager\<close>

text \<open>
  What the calls during the start return: the memory for the manager, for the paths of its two log
  files and for the handle of the database, and the log directory.
\<close>

record mgr_start =
  mg_alloc :: bool
  mg_path :: bool
  mg_req_path :: bool
  mg_db :: bool
  mg_mkdir :: mkdir_result

text \<open>
  What a process start finds: the result of \<open>dare_server_init\<close>, the threads that are created, and what is in
  the variables of the threads when they are not.
\<close>

record proc_start =
  ps_server :: "server_input \<Rightarrow> int"
  ps_replica :: "u64 option"
  ps_old :: u64
  ps_check :: "u64 option"
  ps_garbage :: u64

text \<open>The new lists of internal threads; the result is the one of the replica thread only.\<close>

definition mgr_on_process_init :: "proc_start \<Rightarrow> 'd event_manager \<Rightarrow> 'd event_manager \<times> int" where
  "mgr_on_process_init ps em =
     (let rdma = launch_rdma (ps_server ps) (con_node em);
          (excluded, rc) = launch_replica_thread (ps_replica ps) (ps_old ps) [];
          ck = (case ps_check ps of Some tid \<Rightarrow> tid | None \<Rightarrow> ps_garbage ps)
      in (em\<lparr>excluded_threads := excluded @ [ck]\<rparr>, rc))"

text \<open>The two log files: a missing buffer is cleared before it is tested.\<close>

definition mgr_logs :: "mgr_start \<Rightarrow> string option \<Rightarrow> unit option" where
  "mgr_logs mg log_path =
     (if log_path \<noteq> None \<and> mg_mkdir mg = MkdirFailed then Some ()
      else if mg_path mg \<and> mg_req_path mg then Some () else None)"

text \<open>
  The global states the manager works on: the network layer, the output log and the decision log,
  and the memory for the entries of its tables.
\<close>

record world =
  w_srv :: server_data
  w_out :: out_state
  w_dec :: dec_state
  w_brk :: nat
  w_avail :: nat

definition new_manager :: "world \<Rightarrow> u32 \<Rightarrow> mgr_settings \<Rightarrow> 'd node \<Rightarrow> 'd event_manager" where
  "new_manager w node_id ms nd =
     \<lparr>em_node_id = node_id, leader_tcp_map = None, replica_tcp_map = None, leader_udp_map = None, check_output = ms_check_output ms,
      em_rsm = ms_rsm ms, cur_rec = 0, excluded_threads = [], con_node = nd, em_srv = w_srv w, em_out = w_out w, em_dec = w_dec w,
      em_brk = w_brk w, em_avail = w_avail w, em_calls = []\<rparr>"

definition mgr_init ::
    "'d bdb \<Rightarrow> ('c, 's) libconfig \<Rightarrow> start_env \<Rightarrow> mgr_start \<Rightarrow> proc_start \<Rightarrow> world \<Rightarrow> u32 \<Rightarrow> string \<Rightarrow> string option \<Rightarrow> string option
      \<Rightarrow> 'd ev_ptr option" where
  "mgr_init B lc se mg ps w node_id config_path log_path start_mode =
     (if \<not> mg_alloc mg then Some None
      else case mgr_read_config lc se node_id no_settings config_path of (ms, rc) \<Rightarrow>
        if rc \<noteq> 0 then Some None
        else do {
          u \<leftarrow> mgr_logs mg log_path;
          let log_path' = (case log_path of None \<Rightarrow> ''.'' | Some p \<Rightarrow> p);
          db_p \<leftarrow> initialize_db B (mg_db mg) (ms_db_name ms) 0;
          if db_p = None then Some None
          else do {
            nd \<leftarrow> system_initialize lc se node_id config_path (Some log_path') db_p start_mode;
            (case nd of None \<Rightarrow> Some None | Some nd \<Rightarrow> Some (Some (fst (mgr_on_process_init ps (new_manager w node_id ms nd)))))
          }
        })"

section \<open>Hooks at the start\<close>

text \<open>\<open>atoi\<close>: white space, a sign, and digits up to the first other character.\<close>

abbreviation char_code :: "char \<Rightarrow> nat" where
  "char_code c \<equiv> of_char c"

definition is_space :: "char \<Rightarrow> bool" where
  "is_space c \<longleftrightarrow> char_code c = 32 \<or> 9 \<le> char_code c \<and> char_code c \<le> 13"

definition is_digit :: "char \<Rightarrow> bool" where
  "is_digit c \<longleftrightarrow> 48 \<le> char_code c \<and> char_code c \<le> 57"

definition atoi :: "string \<Rightarrow> int" where
  "atoi str =
     (let s = dropWhile is_space str;
          neg = (s \<noteq> [] \<and> hd s = CHR ''-'');
          t = (if neg \<or> s \<noteq> [] \<and> hd s = CHR ''+'' then tl s else s);
          n = foldl (\<lambda>n c. 10 * n + (int (char_code c) - 48)) 0 (takeWhile is_digit t)
      in if neg then - n else n)"

text \<open>The variables of the environment; a missing one is a null pointer, read at the start.\<close>

record environ =
  cfg_path :: "string option"
  env_node_id :: "string option"
  env_start_mode :: "string option"

definition tern_init_func ::
    "'d bdb \<Rightarrow> ('c, 's) libconfig \<Rightarrow> start_env \<Rightarrow> mgr_start \<Rightarrow> proc_start \<Rightarrow> world \<Rightarrow> environ \<Rightarrow> 'd ev_ptr option" where
  "tern_init_func B lc se mg ps w env = do {
     id \<leftarrow> env_node_id env;
     config_path \<leftarrow> cfg_path env;
     mgr_init B lc se mg ps w (word_of_int (atoi id)) config_path None (env_start_mode env)
   }"

text \<open>Only a program whose name contains \<open>server\<close> gets a manager.\<close>

definition strstr :: "string \<Rightarrow> string \<Rightarrow> bool" where
  "strstr hay needle \<longleftrightarrow> (\<exists>i\<in>set [0..<Suc (length hay)]. take (length needle) (drop i hay) = needle)"

definition libc_start_main ::
    "'d bdb \<Rightarrow> ('c, 's) libconfig \<Rightarrow> start_env \<Rightarrow> mgr_start \<Rightarrow> proc_start \<Rightarrow> world \<Rightarrow> environ \<Rightarrow> string \<Rightarrow> 'd ev_ptr option" where
  "libc_start_main B lc se mg ps w env argv0 =
     (if strstr argv0 ''server'' then tern_init_func B lc se mg ps w env else Some None)"

text \<open>A forked child starts the internal threads again; a fork that fails ends the process.\<close>

definition hook_fork :: "proc_start \<Rightarrow> int \<Rightarrow> 'd ev_ptr \<Rightarrow> ('d ev_ptr \<times> int) option" where
  "hook_fork ps ret ev_mgr =
     (if ret = 0 then (case ev_mgr of None \<Rightarrow> None | Some em \<Rightarrow> Some (Some (fst (mgr_on_process_init ps em)), ret))
      else if ret < 0 then None else Some (ev_mgr, ret))"

section \<open>A started manager\<close>

lemma initialize_db_ptr: "initialize_db B m name f = Some (Some p) \<Longrightarrow> bdb_ptr p \<noteq> None"
  by (auto simp: initialize_db_def split: prod.splits if_splits)

lemma start_node:
  assumes "system_initialize lc se node_id config_path log_path db_p (Some mode) = Some (Some nd)"
  obtains cc where "consensus_comp nd = Some cc" "highest_seen_vs cc = stamp 0" "db_ptr cc = db_p" "cur_view cc = start_view node_id mode"
  using assms that
  by (auto simp: system_initialize_def initialize_node_def init_consensus_comp_def stamp_def bind_eq_Some_conv split: if_splits prod.splits)


definition ex_mgr_config :: "(unit, unit) libconfig" where
  "ex_mgr_config = ex_config\<lparr>config_setting_lookup_int := \<lambda>_ _. Some 1\<rparr>"

definition ex_mgr_start :: mgr_start where
  "ex_mgr_start = \<lparr>mg_alloc = True, mg_path = True, mg_req_path = True, mg_db = True, mg_mkdir = MkdirOk\<rparr>"

definition ex_proc :: proc_start where
  "ex_proc = \<lparr>ps_server = \<lambda>_. 0, ps_replica = Some 3, ps_old = 0, ps_check = Some 4, ps_garbage = 0\<rparr>"

definition ex_world :: world where
  "ex_world = \<lparr>w_srv = em_srv ex_lead, w_out = em_out ex_lead, w_dec = em_dec ex_lead, w_brk = 1, w_avail = 5\<rparr>"


end
