(* ===== verification/Checkpoint.thy ===== *)
theory Checkpoint
  imports Transition Prelude
begin

text \<open>
  Disconnecting a replica for a checkpoint and reconnecting it (\<open>ev_mgr.c\<close> and
  \<open>check_point_thread.c\<close>). A \<open>disconnect\<close> command starts a thread that runs \<open>disconnct_inner\<close>, a
  \<open>reconnect\<close> command one that sets a flag; the replica thread answers in \<open>check_point_condtion\<close>,
  which the loop of \<open>handle_accept_req\<close> calls. The threads share two variables and nothing else;
  a step is one access to them.
\<close>

section \<open>Shared state\<close>

definition NO_DISCONNECTED :: int where "NO_DISCONNECTED = 1"
definition DISCONNECTED_REQUEST :: int where "DISCONNECTED_REQUEST = 2"
definition DISCONNECTED_APPROVE :: int where "DISCONNECTED_APPROVE = 3"

lemmas flag_defs = NO_DISCONNECTED_def DISCONNECTED_REQUEST_def DISCONNECTED_APPROVE_def

text \<open>
  Where a thread in \<open>disconnct_inner\<close> stands: before the first test, before the request is written, in
  the loop, before the two tests after it, before the network is shut down, before the flag is
  reset, and after its return with a value.
\<close>

datatype req_pc = RTest | RSet | RWait | RApproved | RRejected | RShutdown | RClear int | RDone int

text \<open>
  Where the replica thread stands: in its loop, before the connections are counted, before the
  approval or the rejection is written, in the loop that waits for the restore flag, and in \<open>reconnect_inner\<close>.
\<close>

datatype rep_pc = PIdle | PCount | PApprove | PReject | PWait | PReconnect

record cp_state =
  checkpoint_flag :: int
  restore_flag :: int
  connections :: nat
  reqs :: "req_pc list"
  rep :: rep_pc
  shutdowns :: nat
  launches :: nat

definition cp_init :: "cp_state \<Rightarrow> bool" where
  "cp_init s \<longleftrightarrow> checkpoint_flag s = NO_DISCONNECTED \<and> restore_flag s = 0 \<and> reqs s = [] \<and> rep s = PIdle"

section \<open>The threads\<close>

text \<open>The result of the \<open>n\<close>th call of \<open>dare_rdma_shutdown\<close> is \<open>sd n\<close>.\<close>

fun disconnct_inner :: "(nat \<Rightarrow> int) \<Rightarrow> req_pc \<Rightarrow> cp_state \<Rightarrow> req_pc \<times> cp_state" where
  "disconnct_inner sd RTest s = (if checkpoint_flag s = NO_DISCONNECTED then RSet else RDone 0, s)"
| "disconnct_inner sd RSet s = (RWait, s\<lparr>checkpoint_flag := DISCONNECTED_REQUEST\<rparr>)"
| "disconnct_inner sd RWait s = (if checkpoint_flag s = DISCONNECTED_REQUEST then RWait else RApproved, s)"
| "disconnct_inner sd RApproved s = (if checkpoint_flag s = DISCONNECTED_APPROVE then RShutdown else RRejected, s)"
| "disconnct_inner sd RRejected s = (RDone (if checkpoint_flag s = NO_DISCONNECTED then 1 else 0), s)"
| "disconnct_inner sd RShutdown s =
     (let ret = sd (shutdowns s)
      in (if ret = - 1 then RDone ret else RClear ret, s\<lparr>shutdowns := shutdowns s + 1\<rparr>))"
| "disconnct_inner sd (RClear ret) s = (RDone ret, s\<lparr>checkpoint_flag := NO_DISCONNECTED\<rparr>)"
| "disconnct_inner sd (RDone ret) s = (RDone ret, s)"

definition reconnect_inner_set_flag :: "cp_state \<Rightarrow> cp_state" where
  "reconnect_inner_set_flag s = s\<lparr>restore_flag := 1\<rparr>"

definition reconnect_inner :: "cp_state \<Rightarrow> cp_state" where
  "reconnect_inner s = s\<lparr>launches := launches s + 1, restore_flag := 0\<rparr>"

definition check_point_condtion :: "cp_state \<Rightarrow> cp_state" where
  "check_point_condtion s =
     (case rep s of
        PIdle \<Rightarrow> if checkpoint_flag s = DISCONNECTED_REQUEST then s\<lparr>rep := PCount\<rparr> else s
      | PCount \<Rightarrow> if connections s = 0 then s\<lparr>rep := PApprove\<rparr> else s\<lparr>rep := PReject\<rparr>
      | PApprove \<Rightarrow> s\<lparr>checkpoint_flag := DISCONNECTED_APPROVE, rep := PWait\<rparr>
      | PReject \<Rightarrow> s\<lparr>checkpoint_flag := NO_DISCONNECTED, rep := PIdle\<rparr>
      | PWait \<Rightarrow> if restore_flag s = 0 then s else s\<lparr>rep := PReconnect\<rparr>
      | PReconnect \<Rightarrow> (reconnect_inner s)\<lparr>rep := PIdle\<rparr>)"

section \<open>Commands\<close>

text \<open>
  \<open>strncmp\<close> of a buffer that has no end mark with a command: equal up to the length of the command,
  different at some place, or \<open>None\<close> when the buffer ends before either is known and is read past its end.
\<close>

fun strncmp_cmd :: "string \<Rightarrow> string \<Rightarrow> bool option" where
  "strncmp_cmd data [] = Some True"
| "strncmp_cmd [] (c # cs) = None"
| "strncmp_cmd (d # ds) (c # cs) = (if d = c then strncmp_cmd ds cs else Some False)"

text \<open>
  The input of the connection is copied and stays in its buffer. The results tell whether a thread
  for \<open>disconnect\<close> and one for \<open>reconnect\<close> are to be started; \<open>created\<close> tells whether that works,
  and the answer is \<open>OK\<close> or \<open>ERR\<close>.
\<close>

definition unix_read_cb :: "bool \<Rightarrow> string \<Rightarrow> (bool \<times> bool \<times> string) option" where
  "unix_read_cb created data =
     (case strncmp_cmd data ''disconnect'' of None \<Rightarrow> None | Some dis_cmp \<Rightarrow>
      case strncmp_cmd data ''reconnect'' of None \<Rightarrow> None | Some re_cmp \<Rightarrow>
        Some (dis_cmp \<and> created, re_cmp \<and> created, if (dis_cmp \<or> re_cmp) \<and> \<not> created then ''ERR'' else ''OK''))"

text \<open>The messages that arrive on one connection.\<close>

fun unix_conn :: "string \<Rightarrow> string list \<Rightarrow> (bool \<times> bool \<times> string) option list" where
  "unix_conn buf [] = []"
| "unix_conn buf (msg # msgs) = unix_read_cb True (buf @ msg) # unix_conn (buf @ msg) msgs"

section \<open>Interleavings\<close>

text \<open>
  The connections of the replica change only while its thread is in its loop. The labels name the
  thread that moves, a change of the connections, and the two commands.
\<close>

datatype cp_label = LReq nat | LRep | LConn nat | LDisconnect | LReconnect

inductive cp_step :: "(nat \<Rightarrow> int) \<Rightarrow> cp_label \<Rightarrow> cp_state \<Rightarrow> cp_state \<Rightarrow> bool" for sd where
  req: "i < length (reqs s) \<Longrightarrow> disconnct_inner sd (reqs s ! i) s = (pc, s') \<Longrightarrow> cp_step sd (LReq i) s (s'\<lparr>reqs := (reqs s)[i := pc]\<rparr>)"
| rep: "cp_step sd LRep s (check_point_condtion s)"
| conn: "rep s = PIdle \<Longrightarrow> cp_step sd (LConn n) s (s\<lparr>connections := n\<rparr>)"
| disconnect: "cp_step sd LDisconnect s (s\<lparr>reqs := reqs s @ [RTest]\<rparr>)"
| reconnect: "cp_step sd LReconnect s (reconnect_inner_set_flag s)"

definition cp_any :: "(nat \<Rightarrow> int) \<Rightarrow> cp_state \<Rightarrow> cp_state \<Rightarrow> bool" where
  "cp_any sd s s' \<longleftrightarrow> (\<exists>l. cp_step sd l s s')"

text \<open>
  A careful operator sends the next command when the threads of the earlier ones have returned, and
  \<open>reconnect\<close> only to a replica that waits for it.
\<close>

fun finished :: "req_pc \<Rightarrow> bool" where
  "finished (RDone ret) \<longleftrightarrow> True"
| "finished pc \<longleftrightarrow> False"

fun careful :: "cp_state \<Rightarrow> cp_label \<Rightarrow> bool" where
  "careful s LDisconnect \<longleftrightarrow> list_all finished (reqs s)"
| "careful s LReconnect \<longleftrightarrow> list_all finished (reqs s) \<and> rep s = PWait"
| "careful s l \<longleftrightarrow> True"

definition cp_careful :: "(nat \<Rightarrow> int) \<Rightarrow> cp_state \<Rightarrow> cp_state \<Rightarrow> bool" where
  "cp_careful sd s s' \<longleftrightarrow> (\<exists>l. careful s l \<and> cp_step sd l s s')"

section \<open>Values of the shared variables\<close>

definition cp_types :: "cp_state \<Rightarrow> bool" where
  "cp_types s \<longleftrightarrow> checkpoint_flag s \<in> {NO_DISCONNECTED, DISCONNECTED_REQUEST, DISCONNECTED_APPROVE} \<and> restore_flag s \<in> {0, 1} \<and>
     (rep s \<in> {PApprove, PWait, PReconnect} \<longrightarrow> connections s = 0) \<and> (rep s = PReject \<longrightarrow> connections s > 0)"

lemma check_point_types: "cp_types s \<Longrightarrow> cp_types (check_point_condtion s)"
  by (cases "rep s") (auto simp: cp_types_def check_point_condtion_def reconnect_inner_def)

lemma disconnct_types: "cp_types s \<Longrightarrow> cp_types ((snd (disconnct_inner sd pc s))\<lparr>reqs := ps\<rparr>)"
  by (cases pc) (simp_all add: cp_types_def Let_def)

interpretation cp_sys: invariant_system cp_init "cp_any sd" cp_types for sd
proof unfold_locales
  show "cp_types s" if "cp_init s" for s using that by (simp add: cp_init_def cp_types_def)
  show "cp_types s'" if i: "cp_types s" and st: "cp_any sd s s'" for s s'
  proof -
    obtain l where "cp_step sd l s s'" using st by (auto simp: cp_any_def)
    then show ?thesis
    proof cases
      case (req i pc s1)
      show ?thesis using disconnct_types [OF i, where sd = sd and pc = "reqs s ! i" and ps = "(reqs s)[i := pc]"] req(2,4) by simp
    next
      case rep
      then show ?thesis using check_point_types [OF i] by simp
    qed (use i in \<open>auto simp: cp_types_def reconnect_inner_set_flag_def\<close>)
  qed
qed

text \<open>
  C20: whatever commands arrive and however the threads interleave, the checkpoint flag is one of
  its three states and the restore flag a truth value, a replica approves a request and waits for the restore flag only with no open
  connection, and rejects one only with an open connection.
\<close>

theorem checkpoint_types:
  assumes "cp_init s0" and "(cp_any sd)\<^sup>*\<^sup>* s0 s"
  shows "checkpoint_flag s \<in> {NO_DISCONNECTED, DISCONNECTED_REQUEST, DISCONNECTED_APPROVE} \<and> restore_flag s \<in> {0, 1} \<and>
     (rep s \<in> {PApprove, PWait, PReconnect} \<longrightarrow> connections s = 0) \<and> (rep s = PReject \<longrightarrow> connections s > 0)"
  using cp_sys.reach_inv [OF assms] by (simp add: cp_types_def)

section \<open>A careful operator\<close>

text \<open>The replica is parked: it waits for a restore flag that is not set.\<close>

definition parked :: "cp_state \<Rightarrow> bool" where
  "parked s \<longleftrightarrow> rep s = PWait \<and> restore_flag s = 0"

fun req_ok :: "cp_state \<Rightarrow> req_pc \<Rightarrow> bool" where
  "req_ok s RTest \<longleftrightarrow> True"
| "req_ok s RSet \<longleftrightarrow> checkpoint_flag s = NO_DISCONNECTED"
| "req_ok s RWait \<longleftrightarrow> (checkpoint_flag s = DISCONNECTED_APPROVE \<longrightarrow> parked s)"
| "req_ok s RApproved \<longleftrightarrow> (checkpoint_flag s = DISCONNECTED_APPROVE \<longrightarrow> parked s)"
| "req_ok s RRejected \<longleftrightarrow> True"
| "req_ok s RShutdown \<longleftrightarrow> parked s \<and> checkpoint_flag s = DISCONNECTED_APPROVE"
| "req_ok s (RClear ret) \<longleftrightarrow> parked s \<and> checkpoint_flag s = DISCONNECTED_APPROVE"
| "req_ok s (RDone ret) \<longleftrightarrow> True"

definition one_active :: "req_pc list \<Rightarrow> bool" where
  "one_active ps \<longleftrightarrow> (\<forall>i<length ps. \<forall>j<length ps. \<not> finished (ps ! i) \<longrightarrow> \<not> finished (ps ! j) \<longrightarrow> i = j)"

definition quiet :: "cp_state \<Rightarrow> bool" where
  "quiet s \<longleftrightarrow> cp_types s \<and> one_active (reqs s) \<and> (restore_flag s = 1 \<longrightarrow> rep s \<in> {PWait, PReconnect}) \<and>
     (rep s \<in> {PCount, PApprove, PReject} \<longrightarrow> checkpoint_flag s = DISCONNECTED_REQUEST) \<and>
     (checkpoint_flag s = DISCONNECTED_REQUEST \<longrightarrow> RWait \<in> set (reqs s)) \<and> (\<forall>pc\<in>set (reqs s). req_ok s pc)"

lemma finished_ok: "finished pc \<Longrightarrow> req_ok s pc"
  by (cases pc) simp_all

lemma others_finished:
  assumes "one_active ps" and "i < length ps" and "\<not> finished (ps ! i)"
  shows "pc \<in> set (ps[i := q]) \<Longrightarrow> pc = q \<or> finished pc" "pc \<in> set ps \<Longrightarrow> pc = ps ! i \<or> finished pc"
proof -
  have o: "j < length ps \<Longrightarrow> j \<noteq> i \<Longrightarrow> finished (ps ! j)" for j using assms by (auto simp: one_active_def)
  show "pc \<in> set (ps[i := q]) \<Longrightarrow> pc = q \<or> finished pc" using o assms(2) by (auto simp: in_set_conv_nth nth_list_update split: if_splits)
  show "pc \<in> set ps \<Longrightarrow> pc = ps ! i \<or> finished pc" using o by (auto simp: in_set_conv_nth)
qed

lemma one_active_update: "one_active ps \<Longrightarrow> i < length ps \<Longrightarrow> \<not> finished (ps ! i) \<Longrightarrow> one_active (ps[i := q])"
  by (auto simp: one_active_def nth_list_update)

lemma wait_active:
  assumes "one_active ps" and "RWait \<in> set ps" and "pc \<in> set ps"
  shows "pc = RWait \<or> finished pc"
proof -
  obtain i where "i < length ps" "ps ! i = RWait" using assms(2) by (auto simp: in_set_conv_nth)
  then show ?thesis using others_finished(2) [OF assms(1), of i pc] assms(3) by auto
qed

lemma quiet_rep:
  assumes q: "quiet s"
  shows "quiet (check_point_condtion s)"
proof -
  have t: "cp_types (check_point_condtion s)" using q check_point_types by (simp add: quiet_def)
  have w: "pc = RWait \<or> finished pc" if "checkpoint_flag s = DISCONNECTED_REQUEST" "pc \<in> set (reqs s)" for pc
    using wait_active [of "reqs s" pc] q that by (simp add: quiet_def)
  have r: "req_ok (check_point_condtion s) pc" if p: "pc \<in> set (reqs s)" for pc
  proof -
    have ok: "req_ok s pc" and rf: "restore_flag s = 1 \<longrightarrow> rep s \<in> {PWait, PReconnect}" "restore_flag s \<in> {0, 1}"
      and cf: "rep s \<in> {PCount, PApprove, PReject} \<longrightarrow> checkpoint_flag s = DISCONNECTED_REQUEST"
      using q p by (auto simp: quiet_def cp_types_def)
    show ?thesis using ok rf cf w [OF _ p] finished_ok [of pc]
      by (cases "rep s"; cases pc) (auto simp: check_point_condtion_def parked_def reconnect_inner_def flag_defs)
  qed
  show ?thesis using q t r by (cases "rep s") (auto simp: quiet_def check_point_condtion_def reconnect_inner_def flag_defs split: if_splits)
qed

lemma disconnct_effect:
  fixes sd p s
  defines "pc \<equiv> fst (disconnct_inner sd p s)" and "s' \<equiv> snd (disconnct_inner sd p s)"
  assumes "req_ok s p" and "\<not> finished p" and "checkpoint_flag s = DISCONNECTED_REQUEST \<Longrightarrow> p = RWait"
    and "rep s \<in> {PCount, PApprove, PReject} \<longrightarrow> checkpoint_flag s = DISCONNECTED_REQUEST"
  shows "req_ok (s'\<lparr>reqs := ps\<rparr>) pc" "checkpoint_flag s' = DISCONNECTED_REQUEST \<Longrightarrow> pc = RWait" "rep s' = rep s" "restore_flag s' = restore_flag s"
    "rep s \<in> {PCount, PApprove, PReject} \<longrightarrow> checkpoint_flag s' = DISCONNECTED_REQUEST"
proof -
  show "req_ok (s'\<lparr>reqs := ps\<rparr>) pc"
    using assms(3) unfolding pc_def s'_def by (cases p) (simp_all add: parked_def Let_def flag_defs)
  show "pc = RWait" if "checkpoint_flag s' = DISCONNECTED_REQUEST"
    using assms(4,5) that unfolding pc_def s'_def by (cases p) (simp_all add: Let_def flag_defs split: if_splits)
  show "rep s' = rep s" "restore_flag s' = restore_flag s" unfolding s'_def by (cases p; simp add: Let_def)+
  show "rep s \<in> {PCount, PApprove, PReject} \<longrightarrow> checkpoint_flag s' = DISCONNECTED_REQUEST"
  proof (cases p)
    case (RClear ret)
    then show ?thesis using assms(3) by (simp add: parked_def)
  qed (use assms(6) in \<open>simp_all add: s'_def Let_def\<close>)
qed

lemma quiet_req:
  assumes q: "quiet s" and i: "i < length (reqs s)" and d: "disconnct_inner sd (reqs s ! i) s = (pc, s')"
  shows "quiet (s'\<lparr>reqs := (reqs s)[i := pc]\<rparr>)"
proof (cases "finished (reqs s ! i)")
  case True
  then have "pc = reqs s ! i" "s' = s" using d by (cases "reqs s ! i"; simp)+
  then show ?thesis using q by simp
next
  case False
  let ?ps = "(reqs s)[i := pc]" let ?s = "s'\<lparr>reqs := ?ps\<rparr>"
  have one: "one_active (reqs s)" and ok: "req_ok s (reqs s ! i)" using q i by (auto simp: quiet_def)
  have w: "checkpoint_flag s = DISCONNECTED_REQUEST \<Longrightarrow> reqs s ! i = RWait"
    using q wait_active [OF one, of "reqs s ! i"] False i by (auto simp: quiet_def)
  have t: "cp_types ?s" using q disconnct_types [where sd = sd and pc = "reqs s ! i" and ps = ?ps and s = s] d by (simp add: quiet_def)
  have pin: "pc \<in> set ?ps" using i by (rule set_update_memI)
  have cf: "rep s \<in> {PCount, PApprove, PReject} \<longrightarrow> checkpoint_flag s = DISCONNECTED_REQUEST" using q by (simp add: quiet_def)
  note new = disconnct_effect [OF ok False w cf, where sd = sd, unfolded d fst_conv snd_conv]
  have all: "\<forall>p\<in>set ?ps. req_ok ?s p" using others_finished(1) [OF one i False] new(1) finished_ok by blast
  have "checkpoint_flag s' = DISCONNECTED_REQUEST \<longrightarrow> RWait \<in> set ?ps" using new(2) pin by auto
  then show ?thesis using q t one_active_update [OF one i False, of pc] new(3-5) all by (simp add: quiet_def)
qed

lemma quiet_step:
  assumes q: "quiet s" and c: "careful s l" and st: "cp_step sd l s s'"
  shows "quiet s'"
  using st
proof cases
  case (req i pc s1)
  then show ?thesis using quiet_req [OF q] by simp
next
  case rep
  then show ?thesis using quiet_rep [OF q] by simp
next
  case (conn n)
  have "req_ok s' p" if "req_ok s p" for p using that conn by (cases p) (auto simp: parked_def)
  then show ?thesis using q conn by (auto simp: quiet_def cp_types_def)
next
  case disconnect
  have f: "\<forall>p\<in>set (reqs s). finished p" using c disconnect by (simp add: list_all_iff)
  then have "RWait \<notin> set (reqs s)" by auto
  moreover have "one_active (reqs s @ [RTest])" using f by (auto simp: one_active_def nth_append split: if_splits)
  moreover have "\<forall>p\<in>set (reqs s). req_ok s' p" using f finished_ok by blast
  ultimately show ?thesis using q disconnect by (auto simp: quiet_def cp_types_def)
next
  case reconnect
  have f: "\<forall>p\<in>set (reqs s). finished p" "rep s = PWait" using c reconnect by (simp_all add: list_all_iff)
  then have "\<forall>p\<in>set (reqs s). req_ok s' p" using finished_ok by blast
  then show ?thesis using q reconnect f(2) by (auto simp: quiet_def cp_types_def reconnect_inner_set_flag_def)
qed

interpretation cp_quiet: invariant_system cp_init "cp_careful sd" quiet for sd
proof unfold_locales
  show "quiet s" if "cp_init s" for s using that by (simp add: cp_init_def quiet_def cp_types_def one_active_def flag_defs)
  show "quiet s'" if "quiet s" "cp_careful sd s s'" for s s' using that quiet_step by (auto simp: cp_careful_def)
qed

text \<open>
  C16: with an operator who waits for the end of a command before the next one, and sends \<open>reconnect\<close> only to a replica that waits for
  it, the network of a replica is shut down only while its thread is parked: it
  waits for the restore flag, which is not set, and there is no open connection.
\<close>

theorem quiet_disconnect:
  assumes "cp_init s0" and "(cp_careful sd)\<^sup>*\<^sup>* s0 s" and "i < length (reqs s)" and "disconnct_inner sd (reqs s ! i) s = (pc, s')"
    and "shutdowns s' \<noteq> shutdowns s"
  shows "rep s = PWait \<and> restore_flag s = 0 \<and> connections s = 0"
proof -
  have q: "quiet s" using cp_quiet.reach_inv [OF assms(1,2)] .
  have "reqs s ! i = RShutdown" using assms(4,5) by (cases "reqs s ! i") (auto split: if_splits)
  then have "req_ok s RShutdown" using q assms(3) by (metis nth_mem quiet_def)
  then show ?thesis using q by (simp add: quiet_def cp_types_def parked_def)
qed

text \<open>Runs along a list of labels.\<close>

fun cp_do :: "(nat \<Rightarrow> int) \<Rightarrow> cp_label \<Rightarrow> cp_state \<Rightarrow> cp_state option" where
  "cp_do sd (LReq i) s =
     (if i < length (reqs s) then case disconnct_inner sd (reqs s ! i) s of (pc, s') \<Rightarrow> Some (s'\<lparr>reqs := (reqs s)[i := pc]\<rparr>) else None)"
| "cp_do sd LRep s = Some (check_point_condtion s)"
| "cp_do sd (LConn n) s = (if rep s = PIdle then Some (s\<lparr>connections := n\<rparr>) else None)"
| "cp_do sd LDisconnect s = Some (s\<lparr>reqs := reqs s @ [RTest]\<rparr>)"
| "cp_do sd LReconnect s = Some (reconnect_inner_set_flag s)"

fun cp_run :: "(nat \<Rightarrow> int) \<Rightarrow> cp_label list \<Rightarrow> cp_state \<Rightarrow> cp_state option" where
  "cp_run sd [] s = Some s"
| "cp_run sd (l # ls) s = Option.bind (cp_do sd l s) (cp_run sd ls)"

fun all_careful :: "(nat \<Rightarrow> int) \<Rightarrow> cp_label list \<Rightarrow> cp_state \<Rightarrow> bool" where
  "all_careful sd [] s \<longleftrightarrow> True"
| "all_careful sd (l # ls) s \<longleftrightarrow> careful s l \<and> (case cp_do sd l s of None \<Rightarrow> False | Some s' \<Rightarrow> all_careful sd ls s')"

lemma cp_do_step: "cp_do sd l s = Some s' \<Longrightarrow> cp_step sd l s s'"
  by (cases l) (auto split: if_splits prod.splits intro: cp_step.intros)

lemma cp_run_steps: "cp_run sd ls s = Some s' \<Longrightarrow> (cp_any sd)\<^sup>*\<^sup>* s s'"
proof (induction ls arbitrary: s)
  case (Cons l ls)
  then obtain t where t: "cp_do sd l s = Some t" "cp_run sd ls t = Some s'" by (auto simp: bind_eq_Some_conv)
  have "cp_any sd s t" using cp_do_step [OF t(1)] by (auto simp: cp_any_def)
  then show ?case using Cons.IH [OF t(2)] by (rule converse_rtranclp_into_rtranclp)
qed simp

lemma cp_run_careful: "all_careful sd ls s \<Longrightarrow> cp_run sd ls s = Some s' \<Longrightarrow> (cp_careful sd)\<^sup>*\<^sup>* s s'"
proof (induction ls arbitrary: s)
  case (Cons l ls)
  then obtain t where t: "cp_do sd l s = Some t" "cp_run sd ls t = Some s'" by (auto simp: bind_eq_Some_conv)
  have "cp_careful sd s t" using cp_do_step [OF t(1)] Cons.prems(1) by (auto simp: cp_careful_def)
  moreover have "(cp_careful sd)\<^sup>*\<^sup>* t s'" using Cons.IH [OF _ t(2)] Cons.prems(1) t(1) by simp
  ultimately show ?case by (rule converse_rtranclp_into_rtranclp)
qed simp

definition cp0 :: cp_state where
  "cp0 = \<lparr>checkpoint_flag = NO_DISCONNECTED, restore_flag = 0, connections = 0, reqs = [], rep = PIdle, shutdowns = 0, launches = 0\<rparr>"

definition ex_disconnect :: "cp_label list" where
  "ex_disconnect = [LDisconnect, LReq 0, LReq 0, LRep, LRep, LRep, LReq 0, LReq 0]"

lemmas cp_eval = cp0_def ex_disconnect_def check_point_condtion_def reconnect_inner_set_flag_def reconnect_inner_def flag_defs Let_def

lemma ex_disconnect_run:
  "cp_init cp0" "all_careful sd ex_disconnect cp0"
  "cp_run sd ex_disconnect cp0 = Some (cp0\<lparr>checkpoint_flag := DISCONNECTED_APPROVE, reqs := [RShutdown], rep := PWait\<rparr>)"
  by (simp_all add: cp_init_def cp_eval)

theorem checkpoint_types_witness:
  "\<exists>s. (cp_any (\<lambda>_. 0))\<^sup>*\<^sup>* cp0 s \<and> rep s = PWait \<and> connections s = 0 \<and>
     checkpoint_flag s \<in> {NO_DISCONNECTED, DISCONNECTED_REQUEST, DISCONNECTED_APPROVE}"
proof -
  let ?s = "cp0\<lparr>checkpoint_flag := DISCONNECTED_APPROVE, reqs := [RShutdown], rep := PWait\<rparr>"
  have r: "(cp_any (\<lambda>_. 0))\<^sup>*\<^sup>* cp0 ?s" by (rule cp_run_steps [OF ex_disconnect_run(3)])
  show ?thesis using checkpoint_types [OF ex_disconnect_run(1) r] r by (intro exI [of _ ?s]) simp
qed

theorem quiet_disconnect_witness:
  "\<exists>s pc s'. (cp_careful (\<lambda>_. 0))\<^sup>*\<^sup>* cp0 s \<and> disconnct_inner (\<lambda>_. 0) (reqs s ! 0) s = (pc, s') \<and> shutdowns s' = 1 \<and>
     rep s = PWait \<and> restore_flag s = 0 \<and> connections s = 0"
proof -
  let ?s = "cp0\<lparr>checkpoint_flag := DISCONNECTED_APPROVE, reqs := [RShutdown], rep := PWait\<rparr>"
  have r: "(cp_careful (\<lambda>_. 0))\<^sup>*\<^sup>* cp0 ?s" by (rule cp_run_careful [OF ex_disconnect_run(2,3)])
  have d: "disconnct_inner (\<lambda>_. 0) (reqs ?s ! 0) ?s = (RClear 0, ?s\<lparr>shutdowns := 1\<rparr>)" by (simp add: cp0_def)
  have "rep ?s = PWait \<and> restore_flag ?s = 0 \<and> connections ?s = 0"
    by (rule quiet_disconnect [OF ex_disconnect_run(1) r _ d]) (simp_all add: cp0_def)
  then show ?thesis using r d by (intro exI [of _ ?s] exI [of _ "RClear 0"] exI [of _ "?s\<lparr>shutdowns := 1\<rparr>"]) simp
qed

section \<open>What a careless operator and a failure do\<close>

text \<open>
  A \<open>reconnect\<close> that arrives before the \<open>disconnect\<close> it answers leaves its flag set: the replica passes
  the waiting loop at once and serves connections again when the network under it is shut down.
\<close>

theorem stale_reconnect:
  "\<exists>s. (cp_any (\<lambda>_. 0))\<^sup>*\<^sup>* cp0 s \<and> reqs s = [RShutdown] \<and> rep s = PIdle \<and> connections s = 3"
proof -
  have "\<exists>s. cp_run (\<lambda>_. 0) (LReconnect # ex_disconnect @ [LRep, LRep, LConn 3]) cp0 = Some s \<and>
      reqs s = [RShutdown] \<and> rep s = PIdle \<and> connections s = 3"
    by (simp add: cp_eval)
  then show ?thesis using cp_run_steps by blast
qed

text \<open>A connection whose first command is \<open>disconnect\<close> runs it again for every later message.\<close>

lemma strncmp_prefix: "strncmp_cmd (cmd @ rest) cmd = Some True"
  by (induction cmd) simp_all

lemma unix_conn_again:
  "unix_conn (''disconnect'' @ buf) msgs = map (\<lambda>_. Some (True, False, ''OK'')) msgs"
proof (induction msgs arbitrary: buf)
  case (Cons m msgs)
  have "unix_read_cb True (''disconnect'' @ rest) = Some (True, False, ''OK'')" for rest
    unfolding unix_read_cb_def strncmp_prefix by simp
  then show ?case using Cons [of "buf @ m"] by simp
qed simp

theorem disconnect_sticks: "unix_conn [] ((''disconnect'' @ rest) # msgs) = map (\<lambda>_. Some (True, False, ''OK'')) ((''disconnect'' @ rest) # msgs)"
  using unix_conn_again [of rest msgs] unix_conn_again [of "[]" "[rest]"] by simp

text \<open>The states after a shutdown that failed.\<close>

definition stuck :: "nat \<Rightarrow> cp_state \<Rightarrow> bool" where
  "stuck n s \<longleftrightarrow> checkpoint_flag s = DISCONNECTED_APPROVE \<and> rep s \<in> {PIdle, PWait, PReconnect} \<and> shutdowns s = n \<and>
     (\<forall>pc\<in>set (reqs s). pc = RTest \<or> finished pc)"

lemma stuck_thread:
  "p = RTest \<or> finished p \<Longrightarrow> checkpoint_flag s = DISCONNECTED_APPROVE \<Longrightarrow>
   snd (disconnct_inner sd p s) = s \<and> finished (fst (disconnct_inner sd p s))"
  by (cases p) (simp_all add: flag_defs)

lemma stuck_step:
  assumes k: "stuck n s" and st: "cp_step sd l s s'"
  shows "stuck n s'"
  using st
proof cases
  case (req i pc s1)
  have "reqs s ! i = RTest \<or> finished (reqs s ! i)" using k req(3) by (auto simp: stuck_def)
  then have "s1 = s \<and> finished pc" using stuck_thread [of "reqs s ! i" s sd] req(4) k by (simp add: stuck_def)
  moreover have "p = pc \<or> p \<in> set (reqs s)" if "p \<in> set ((reqs s)[i := pc])" for p using that set_update_subset_insert by fastforce
  ultimately show ?thesis using k req(2) by (auto simp: stuck_def)
qed (use k in \<open>auto simp: stuck_def check_point_condtion_def reconnect_inner_def reconnect_inner_set_flag_def flag_defs split: if_splits\<close>)

interpretation cp_stuck: invariant_system "stuck n" "cp_any sd" "stuck n" for n sd
  using stuck_step by unfold_locales (auto simp: cp_any_def)



end
