(* ===== verification/Spec2Isabelle.thy ===== *)
theory Spec2Isabelle
  imports View_Stamp Decision Db_Interface Dare_Log Election_Group Ibv_Ud Cluster_Safety Ibv_Dev Ev_Udp Ev_Init Checkpoint
begin

text \<open>
  Verification of the replication library under \<^verbatim>\<open>src/RDMA/src\<close>.

  \<^bold>\<open>The program.\<close> The library is preloaded into a server program. It intercepts the socket calls of
  the server; on the leader every accepted connection, received buffer and closed connection
  becomes a request that is replicated to a group of up to seven machines by one-sided RDMA writes
  into their logs, and on the other machines the committed requests are replayed against the local
  server. Outputs are hashed so that a replica that diverges is found and restored. The parts are
  the consensus component and its log, the RDMA layer with connections and leader election, the
  record store, the output checker, the event manager with its hash tables, and the code that
  starts a node.

  \<^bold>\<open>Conventions.\<close> Structures are records, machine integers are words, buffers and the RDMA region are
  bytes (\<open>mem\<close>), addresses are natural numbers and offsets are the ones the compiler assigns. The
  value \<open>None\<close> of a function is a fault (a null pointer, an access outside a block), the exit of the
  process or a loop that does not end; error codes are returned as the code returns them. Code
  outside the repository (Berkeley DB, the verbs library, libconfig, the operating system) is a
  parameter, and what the program relies on is the assumption of a locale or of the theorem.

  \<^bold>\<open>Theories and what they show.\<close>

  \<^item> \<open>Prelude\<close>: words, byte memory and their lemmas (\<open>mem_simps\<close>, \<open>layout_simps\<close>). \<open>Transition\<close>: locales
    for step relations with an invariant, a second invariant on top of it, and monotone quantities.

  \<^item> \<open>View_Stamp\<close> (\<^verbatim>\<open>util/common-structure.c\<close>): stamps, their order and their packing into record
    keys; packing is a bijection that keeps the order.

  \<^item> \<open>Crc64\<close>, \<open>Adlist\<close>, \<open>Output\<close>, \<open>Decision\<close> (\<^verbatim>\<open>output/\<close>): the checksum as polynomial division, the doubly
    linked list as heap segments, the output log, which depends on the byte stream only and not on
    how it is cut into writes, and the decision which replicas are restored.

  \<^item> \<open>Db_Interface\<close> (\<^verbatim>\<open>db/db-interface.c\<close>): the record store over a parameter for Berkeley DB; \<open>berkeley_db\<close>
    states the documented behaviour and gives the contract \<open>record_store\<close>.

  \<^item> \<open>Dare_Log\<close>, \<open>Rdma_Types\<close> (\<^verbatim>\<open>rdma/dare_log.h\<close>, \<^verbatim>\<open>dare_ibv.h\<close>, \<^verbatim>\<open>dare_server.h\<close>): the replicated log as a
    block of bytes and the endpoints of the peers.

  \<^item> \<open>Consensus\<close> (\<^verbatim>\<open>consensus/consensus.c\<close>): submitting at the leader, cut at the points where other threads
    and remote writes come in between, and the accept loop of a follower. \<open>Cluster\<close> is the group: a step
    relation of the leader's threads, the followers and the network, in which the bytes of an entry
    arrive in order but in pieces of any size. \<open>Cluster_Inv\<close> and \<open>Cluster_Step\<close> prove its invariant,
    \<open>Cluster_Live\<close> constructs runs, \<open>Cluster_Safety\<close> states the results: a committed request is held
    completely by a majority, followers execute the committed requests in order and without gaps, an
    idle group can commit a new request, and a failed store at the leader blocks all later requests.

  \<^item> \<open>Sid\<close>, \<open>Ibv_Rc\<close>, \<open>Ibv_Ud\<close> (\<^verbatim>\<open>rdma/dare_ibv_rc.c\<close>, \<^verbatim>\<open>dare_ibv_ud.c\<close>, \<^verbatim>\<open>dare_ibv.c\<close>): state identifiers, queue
    pairs over a parameter for the verbs library, and the connection messages as bytes. The counted
    sends never overrun the send queue; the handshake gives both sides each other's region and queue
    pair; control messages that are posted never complete.

  \<^item> \<open>Election\<close>, \<open>Election_Spec\<close>, \<open>Election_Group\<close> (\<^verbatim>\<open>rdma/dare_server.c\<close>): the handlers of the heartbeat
    and election timers on the control area of the log, an abstract machine they implement, and
    groups of servers. A server votes at most once per term; two leaders in one term are reachable.

  \<^item> \<open>Uthash\<close> (\<^verbatim>\<open>ev_mgr/uthash.h\<close>): the hash tables with their bucket chains and their expansion; the locale
    \<open>keyed_table\<close> is the contract, and a table behaves as a finite map.

  \<^item> \<open>Node\<close> (\<^verbatim>\<open>replica-sys/replica.c\<close>, \<^verbatim>\<open>config-comp/config-comp.c\<close>): reading the configuration, starting a
    node, and submitting requests to its consensus component.

  \<^item> \<open>Ibv_Dev\<close> (\<^verbatim>\<open>rdma/dare_ibv.c\<close>): the device, port and key that are chosen, compared with a
    description of the choice without loops, the endpoints and the shutdown.

  \<^item> \<open>Ev_Mgr\<close> (\<^verbatim>\<open>ev_mgr/ev_mgr.c\<close>): the handlers of the event manager for the calls of the server, with their
    tables of connections, and the replay of requests on a replica. \<open>Spec_Hooks\<close> (\<^verbatim>\<open>spec_hooks.cpp\<close>): the
    replaced library calls. \<open>Ev_Submit\<close> shows what a submission leaves in the database of the leader.
    \<open>Ev_Replay\<close> joins them: \<open>sess_rel\<close> relates a trace of calls with descriptors to one with stamps, it
    is kept by every handler of the leader and by every action of a replica, and so a replica gives its
    server the sessions the clients had with the leader, whatever descriptors the machines use.
    \<open>Ev_Udp\<close>: datagrams are recorded in order, but all under one client. \<open>Ev_Init\<close>
    (\<^verbatim>\<open>config-comp/config-mgr.c\<close>, \<open>mgr_init\<close>): a manager that starts satisfies what \<open>Ev_Replay\<close> asks of a
    leader and of a replica.

  \<^item> \<open>Checkpoint\<close> (\<open>disconnct_inner\<close> and \<open>check_point_condtion\<close> of \<^verbatim>\<open>ev_mgr.c\<close>, \<^verbatim>\<open>check_point_thread.c\<close>): the threads
    that disconnect and reconnect a replica, as a step relation with one access to the shared flags
    per step. The values of the flags are an invariant; with a careful operator the network is shut
    down only under a parked replica; a failed shutdown disables all later ones.

  \<^bold>\<open>Bounds.\<close> The group of \<open>Cluster\<close> is considered until the log of 256 MiB is full: a slot is reserved
  only if another entry header fits behind it, because the code takes the address of an entry
  before it wraps the offset. Numbers of requests stay below \<open>2 ^ 28\<close> for that reason, so stamps do
  not wrap. Acknowledgements of 24 bytes become visible at once. Elections are considered while the
  term stays below its 55 bits. Loops that may not end are \<open>partial_function\<close>s in the option type or
  take the list of states the loop observes; the theorems then show that a result is returned. A run
  of the event manager has fewer than \<open>2 ^ 31\<close> calls, at most two requests each, so that record keys
  are distinct. A replica's wait for the accept of its server is one step of the environment.

  \<^bold>\<open>Not modelled.\<close> Latency measurement (\<^verbatim>\<open>util/clock.c\<close>) and debug output have no effect on the
  protocol. \<open>dare_server_init\<close> reads fields that no structure declares, and \<open>dare_rdma_shutdown\<close> is defined
  nowhere; their results are parameters. Socket options, the address of the interface and the
  contents of log files are left out, as is the event loop of libevent. The memory of network cards below the verbs calls is a parameter. The other hash
  functions, the Bloom filter and the sorting of \<^verbatim>\<open>uthash.h\<close> are never compiled in or called. The
  variant under \<^verbatim>\<open>src/shared_memory\<close> does not compile against its headers, and the demonstrations
  under \<^verbatim>\<open>src/checkpoint/demo\<close>, the benchmark scripts and the installed header of memcached are not part
  of the library.
\<close>

end
